(* ===== verification/Quench_Prelude.thy ===== *)
theory Quench_Prelude
  imports Main "HOL-Library.Word" "HOL-Library.Multiset" "HOL-Library.AList"
begin

text \<open>
  Prelude of the development: the machine-integer types of the C++ sources, the
  rounding helpers every allocator uses, the association-list view of
  \<^verbatim>\<open>std::unordered_map\<close> and the generic lemmas on lists, multisets and words that
  the components share.
\<close>

unbundle bit_operations_syntax

section \<open>Collections of facts\<close>

named_theorems pool_simps \<open>unfolding rules of the block pool\<close>
named_theorems kv_simps \<open>unfolding rules of the KV cache manager\<close>
named_theorems kv_frame \<open>what an operation of the KV cache manager leaves alone\<close>

section \<open>Machine integers\<close>

type_synonym u8 = "8 word"
type_synonym u32 = "32 word"
type_synonym u64 = "64 word"

text \<open>\<^verbatim>\<open>(v + a - 1) & ~(a - 1)\<close> on \<^verbatim>\<open>size_t\<close>, with the wrap-around of the machine.\<close>

definition align_up :: "u64 \<Rightarrow> u64 \<Rightarrow> u64" where
  "align_up v a = (v + a - 1) AND NOT (a - 1)"

text \<open>The guard of every \<^verbatim>\<open>take\<close>/\<^verbatim>\<open>acquire\<close>: non-zero and \<^verbatim>\<open>a & (a - 1) == 0\<close>.\<close>

definition is_pow2 :: "u64 \<Rightarrow> bool" where
  "is_pow2 a \<longleftrightarrow> a \<noteq> 0 \<and> a AND (a - 1) = 0"

lemma unat_lt64: "unat w < 2 ^ 64" for w :: u64
  using unsigned_less [of w] by simp

lemma sint_small: "n < 2 ^ 31 \<Longrightarrow> sint (of_nat n :: u32) = int n"
  by (simp add: signed_of_nat signed_take_bit_int_eq_self)

lemma unat_of_nat64: "n < 2 ^ 64 \<Longrightarrow> unat (of_nat n :: u64) = n"
  by (simp add: unat_of_nat)

lemma nat_and_pred_pow2:
  "0 < n \<Longrightarrow> n AND (n - 1) = 0 \<Longrightarrow> \<exists>k. n = 2 ^ k" for n :: nat
proof (induction n rule: less_induct)
  case (less n)
  have rec: "n AND (n - 1) = of_bool (odd n \<and> odd (n - 1)) + 2 * ((n div 2) AND ((n - 1) div 2))"
    by (rule and_rec)
  show ?case
  proof (cases "even n")
    case True
    with less.prems obtain m where m: "n = 2 * m" "0 < m" by (auto elim!: evenE)
    then have "(n - 1) div 2 = m - 1" by auto
    with rec less.prems(2) m have "m AND (m - 1) = 0" by simp
    with less.IH [of m] m obtain k where "m = 2 ^ k" by auto
    with m have "n = 2 ^ Suc k" by simp
    then show ?thesis by blast
  next
    case False
    then obtain m where m: "n = 2 * m + 1" by (auto elim!: oddE)
    then have "(n - 1) div 2 = m" "n div 2 = m" by auto
    with rec less.prems(2) have "m = 0" by simp
    with m have "n = 2 ^ 0" by simp
    then show ?thesis by blast
  qed
qed

lemma is_pow2E:
  assumes "is_pow2 a"
  obtains k where "k < 64" "a = 2 ^ k" "unat a = 2 ^ k"
proof -
  from assms have nz: "a \<noteq> 0" and z: "a AND (a - 1) = 0" by (auto simp: is_pow2_def)
  have "unat a AND (unat a - 1) = unat (a AND (a - 1))"
    by (simp add: unsigned_and_eq unat_minus_one [OF nz])
  with z have "unat a AND (unat a - 1) = 0" by simp
  moreover have "0 < unat a" using nz by (simp add: unat_gt_0)
  ultimately obtain k where k: "unat a = 2 ^ k" using nat_and_pred_pow2 by blast
  have "unat a < 2 ^ 64" using unsigned_less [of a] by simp
  with k have "(2::nat) ^ k < 2 ^ 64" by simp
  then have lt: "k < 64" by (rule power_less_imp_less_exp [rotated]) simp
  have "a = of_nat (unat a)" by simp
  also have "\<dots> = 2 ^ k" by (simp only: k of_nat_power of_nat_numeral)
  finally have "a = 2 ^ k" .
  with that k lt show thesis by blast
qed

lemma unat_align_up:
  assumes "k < 64" and "unat v + 2 ^ k \<le> 2 ^ 64"
  shows "unat (align_up v (2 ^ k)) = (unat v + (2 ^ k - 1)) div 2 ^ k * 2 ^ k"
proof -
  let ?w = "v + 2 ^ k - 1 :: u64"
  have "(2::nat) ^ k < 2 ^ 64" using assms(1) by (simp only: power_strict_increasing_iff)
  then have p: "unat (2 ^ k :: u64) = 2 ^ k"
    using unat_of_nat [of "2 ^ k", where 'a = 64] by simp
  have pk: "(0::nat) < 2 ^ k" by simp
  have nz: "(2 ^ k :: u64) \<noteq> 0" using assms(1) by simp
  have one: "unat (2 ^ k - 1 :: u64) = 2 ^ k - 1" by (simp add: unat_minus_one [OF nz] p)
  have "unat v + unat (2 ^ k - 1 :: u64) < 2 ^ 64"
    using assms(2) one pk by linarith
  then have "unat (v + (2 ^ k - 1)) = unat v + (2 ^ k - 1)"
    by (simp add: unat_word_ariths one)
  then have w: "unat ?w = unat v + (2 ^ k - 1)" by (simp add: algebra_simps)
  have m: "(2 ^ k - 1 :: u64) = mask k" by (simp add: mask_eq_exp_minus_1)
  have "?w AND NOT (mask k) = ?w AND NOT (take_bit k ?w)"
    by (rule bit_word_eqI) (auto simp: bit_simps)
  also have "\<dots> = ?w - take_bit k ?w"
    by (rule disjunctive_diff_eq_and_not [symmetric]) (rule bit_word_eqI, auto simp: bit_simps)
  finally have "?w AND NOT (mask k) = ?w - take_bit k ?w" .
  then have "unat (align_up v (2 ^ k)) = unat ?w - unat (take_bit k ?w)"
    using unat_sub [of "take_bit k ?w" ?w]
    by (simp add: align_up_def m word_le_nat_alt unsigned_take_bit_eq take_bit_nat_less_eq_self)
  also have "\<dots> = unat ?w - take_bit k (unat ?w)"
    by (simp only: unsigned_take_bit_eq)
  also have "\<dots> = unat ?w - unat ?w mod 2 ^ k"
    by (simp only: take_bit_eq_mod)
  also have "\<dots> = unat ?w div 2 ^ k * 2 ^ k"
    by (simp add: minus_mod_eq_div_mult)
  finally show ?thesis using w by simp
qed

section \<open>Lists\<close>

lemma set_butlast_distinct:
  "distinct xs \<Longrightarrow> xs \<noteq> [] \<Longrightarrow> set (butlast xs) = set xs - {last xs}"
  by (induction xs rule: rev_induct) auto

section \<open>Association lists with distinct keys\<close>

lemma alist_delete_None: "map_of al k = None \<Longrightarrow> AList.delete k al = al"
  by (induction al) auto

lemma alist_delete_mset:
  "distinct (map fst al) \<Longrightarrow> map_of al k = Some v \<Longrightarrow>
     mset al = add_mset (k, v) (mset (AList.delete k al))"
proof (induction al)
  case (Cons x al)
  show ?case
  proof (cases "fst x = k")
    case True
    with Cons.prems have "map_of al k = None" by (simp add: map_of_eq_None_iff)
    then have "AList.delete k al = al" by (rule alist_delete_None)
    with True Cons.prems show ?thesis by (cases x) simp
  next
    case False
    with Cons show ?thesis by (cases x) (auto simp: add_mset_commute)
  qed
qed simp

lemma alist_update_mset:
  "distinct (map fst al) \<Longrightarrow> mset (AList.update k v al) = add_mset (k, v) (mset (AList.delete k al))"
  by (induction al) (auto simp: alist_delete_None map_of_eq_None_iff add_mset_commute)

lemma alist_delete_image:
  assumes "distinct (map fst al)" "map_of al k = Some v"
  shows "image_mset f (mset al) = add_mset (f (k, v)) (image_mset f (mset (AList.delete k al)))"
  by (subst alist_delete_mset [OF assms]) simp

lemma alist_update_image:
  assumes "distinct (map fst al)"
  shows "image_mset f (mset (AList.update k v al)) =
    add_mset (f (k, v)) (image_mset f (mset (AList.delete k al)))"
  by (subst alist_update_mset [OF assms]) simp

lemma alist_distinct_update [simp]:
  "distinct (map fst al) \<Longrightarrow> distinct (map fst (AList.update k v al))"
  by (rule distinct_update)

lemma alist_distinct_delete [simp]:
  "distinct (map fst al) \<Longrightarrow> distinct (map fst (AList.delete k al))"
  by (rule distinct_delete)

lemma alist_map_of_update [simp]: "map_of (AList.update k v al) = (map_of al)(k \<mapsto> v)"
  by (rule update_conv')

lemma alist_map_of_delete [simp]: "map_of (AList.delete k al) = (map_of al)(k := None)"
  by (rule delete_conv')

end
