(* ===== verification/Backend.thy ===== *)
theory Backend
  imports Quench_Prelude
begin

text \<open>
  The physical-acquisition layer (\<^verbatim>\<open>src/src/memory/backend.h\<close>, \<^verbatim>\<open>backend.cpp\<close>): region tags, typed errors, the allocation-phase guard, regions and the production
  \<^verbatim>\<open>CudaMallocBackend\<close>. Byte counts are \<^verbatim>\<open>size_t\<close>, i.e. \<open>u64\<close>, with
  the machine's wrap-around. \<^verbatim>\<open>cudaMalloc\<close> is not part of the repository: the address it
  returns (0 for failure) is an argument of the operation. Release-build behaviour is
  modelled (with \<^verbatim>\<open>NDEBUG\<close> set nothing aborts). \<^verbatim>\<open>CudaMallocBackend::do_acquire\<close> takes
  its mutex twice, once to check the budget and once to account, so it is two atomic
  steps here and their interleaving is part of the model.
\<close>

section \<open>Tags, errors and phases\<close>

datatype region_tag =
    ModelResident | EnginePersistent | KvBlockPool | SwaBlockPool | ResidualRing
  | SsmState | RecurrentSnapshots | ForwardScratch | HostStaging | Other

datatype mem_error = Ok | OutOfMemory | BudgetExceeded | NotGrowable | InvalidArgument

datatype alloc_phase = Loading | Planning | Serving

fun region_tag_name :: "region_tag \<Rightarrow> string" where
  "region_tag_name ModelResident = ''model_resident''"
| "region_tag_name EnginePersistent = ''engine_persistent''"
| "region_tag_name KvBlockPool = ''kv_block_pool''"
| "region_tag_name SwaBlockPool = ''swa_block_pool''"
| "region_tag_name ResidualRing = ''residual_ring''"
| "region_tag_name SsmState = ''ssm_state''"
| "region_tag_name RecurrentSnapshots = ''recurrent_snapshots''"
| "region_tag_name ForwardScratch = ''forward_scratch''"
| "region_tag_name HostStaging = ''host_staging''"
| "region_tag_name Other = ''other''"

fun mem_error_name :: "mem_error \<Rightarrow> string" where
  "mem_error_name Ok = ''ok''"
| "mem_error_name OutOfMemory = ''out_of_memory''"
| "mem_error_name BudgetExceeded = ''budget_exceeded''"
| "mem_error_name NotGrowable = ''not_growable''"
| "mem_error_name InvalidArgument = ''invalid_argument''"

section \<open>The phase guard\<close>

text \<open>The process-wide counters \<^verbatim>\<open>g_phase\<close>, \<^verbatim>\<open>g_steady_allocs\<close>, \<^verbatim>\<open>g_steady_logged\<close>.\<close>

record phase_guard =
  g_phase :: alloc_phase
  g_steady_allocs :: "region_tag \<Rightarrow> u64"
  g_steady_logged :: "region_tag \<Rightarrow> bool"

definition all_tags :: "region_tag list" where
  "all_tags = [ModelResident, EnginePersistent, KvBlockPool, SwaBlockPool, ResidualRing,
     SsmState, RecurrentSnapshots, ForwardScratch, HostStaging, Other]"

definition steady_state_allocations :: "phase_guard \<Rightarrow> u64" where
  "steady_state_allocations g = sum_list (map (g_steady_allocs g) all_tags)"

definition steady_state_allocations_of :: "region_tag \<Rightarrow> phase_guard \<Rightarrow> u64" where
  "steady_state_allocations_of tag g = g_steady_allocs g tag"

definition set_alloc_phase :: "alloc_phase \<Rightarrow> phase_guard \<Rightarrow> phase_guard" where
  "set_alloc_phase p g = g\<lparr>g_phase := p\<rparr>"

definition reset_steady_state_allocations :: "phase_guard \<Rightarrow> phase_guard" where
  "reset_steady_state_allocations g =
     g\<lparr>g_steady_allocs := (\<lambda>_. 0), g_steady_logged := (\<lambda>_. False)\<rparr>"

definition note_serving_allocation :: "region_tag \<Rightarrow> u64 \<Rightarrow> phase_guard \<Rightarrow> phase_guard" where
  "note_serving_allocation tag bytes g =
     (if g_phase g \<noteq> Serving then g
      else g\<lparr>g_steady_allocs := (g_steady_allocs g)(tag := g_steady_allocs g tag + 1),
             g_steady_logged := (g_steady_logged g)(tag := True)\<rparr>)"

text \<open>\<^verbatim>\<open>AllocPhaseScope\<close>: the constructor remembers the phase, the destructor restores it.\<close>

definition enter_phase :: "alloc_phase \<Rightarrow> phase_guard \<Rightarrow> alloc_phase \<times> phase_guard" where
  "enter_phase p g = (g_phase g, set_alloc_phase p g)"

definition leave_phase :: "alloc_phase \<Rightarrow> phase_guard \<Rightarrow> phase_guard" where
  "leave_phase prev g = set_alloc_phase prev g"

section \<open>Regions\<close>

text \<open>\<^verbatim>\<open>owner_ != nullptr\<close> is the flag \<open>r_owned\<close>; the null base is the address 0.\<close>

record region =
  r_owned :: bool
  r_base :: u64
  r_committed :: u64
  r_reserved :: u64
  r_tag :: region_tag

definition null_region :: region where
  "null_region = \<lparr>r_owned = False, r_base = 0, r_committed = 0, r_reserved = 0, r_tag = Other\<rparr>"

definition region_valid :: "region \<Rightarrow> bool" where
  "region_valid r \<longleftrightarrow> r_base r \<noteq> 0"

definition make_region :: "u64 \<Rightarrow> u64 \<Rightarrow> u64 \<Rightarrow> region_tag \<Rightarrow> region" where
  "make_region base committed reserved tag =
     \<lparr>r_owned = True, r_base = base, r_committed = committed, r_reserved = reserved, r_tag = tag\<rparr>"

text \<open>
  \<^verbatim>\<open>Region::reset\<close>: returns the memory to its backend when there is one, and clears the
  handle (the tag is left as it was). \<open>release\<close> is the backend's \<^verbatim>\<open>do_release\<close>.
\<close>

definition region_reset ::
  "(u64 \<Rightarrow> u64 \<Rightarrow> u64 \<Rightarrow> region_tag \<Rightarrow> 'b \<Rightarrow> 'b) \<Rightarrow> region \<Rightarrow> 'b \<Rightarrow> region \<times> 'b" where
  "region_reset release r be =
     (r\<lparr>r_owned := False, r_base := 0, r_committed := 0, r_reserved := 0\<rparr>,
      if r_owned r \<and> r_base r \<noteq> 0
      then release (r_base r) (r_committed r) (r_reserved r) (r_tag r) be else be)"

text \<open>
  \<^verbatim>\<open>Region::steal_\<close>: the first component is the region that takes over, the second the
  one moved from (whose tag stays). Move assignment resets the target first, unless the two
  are the same object; \<open>dst\<close> and \<open>src\<close> here are distinct objects.
\<close>

definition region_steal :: "region \<Rightarrow> region \<times> region" where
  "region_steal src =
     (src, src\<lparr>r_owned := False, r_base := 0, r_committed := 0, r_reserved := 0\<rparr>)"

definition region_move_assign ::
  "(u64 \<Rightarrow> u64 \<Rightarrow> u64 \<Rightarrow> region_tag \<Rightarrow> 'b \<Rightarrow> 'b) \<Rightarrow> region \<Rightarrow> region \<Rightarrow> 'b \<Rightarrow>
   region \<times> region \<times> 'b" where
  "region_move_assign release dst src be =
     (let (_, be') = region_reset release dst be; (dst', src') = region_steal src
      in (dst', src', be'))"

text \<open>
  \<^verbatim>\<open>Backend::acquire\<close>: argument checks, the phase guard, then the implementation's
  \<^verbatim>\<open>do_acquire\<close>, which returns an error or a base address and the reserved size.
\<close>

definition acquire ::
  "(u64 \<Rightarrow> u64 \<Rightarrow> region_tag \<Rightarrow> 'b \<Rightarrow> (mem_error + u64 \<times> u64) \<times> 'b) \<Rightarrow> u64 \<Rightarrow> u64 \<Rightarrow> region_tag \<Rightarrow>
   phase_guard \<Rightarrow> 'b \<Rightarrow> (mem_error + region) \<times> phase_guard \<times> 'b" where
  "acquire do_acquire bytes alignment tag g be =
     (if bytes = 0 \<or> \<not> is_pow2 alignment then (Inl InvalidArgument, g, be)
      else
        let g' = note_serving_allocation tag bytes g in
        case do_acquire bytes alignment tag be of
          (Inl e, be') \<Rightarrow> (Inl e, g', be')
        | (Inr (base, reserved), be') \<Rightarrow>
            (Inr (make_region base bytes (if reserved \<noteq> 0 then reserved else bytes) tag), g', be'))"

definition acquire_growable ::
  "(u64 \<Rightarrow> u64 \<Rightarrow> u64 \<Rightarrow> region_tag \<Rightarrow> 'b \<Rightarrow> (mem_error + u64) \<times> 'b) \<Rightarrow> u64 \<Rightarrow> u64 \<Rightarrow> u64 \<Rightarrow>
   region_tag \<Rightarrow> phase_guard \<Rightarrow> 'b \<Rightarrow> (mem_error + region) \<times> phase_guard \<times> 'b" where
  "acquire_growable do_acquire_growable reserve_bytes initial_commit alignment tag g be =
     (if reserve_bytes = 0 \<or> reserve_bytes < initial_commit \<or> \<not> is_pow2 alignment
      then (Inl InvalidArgument, g, be)
      else
        let g' = note_serving_allocation tag initial_commit g in
        case do_acquire_growable reserve_bytes initial_commit alignment tag be of
          (Inl e, be') \<Rightarrow> (Inl e, g', be')
        | (Inr base, be') \<Rightarrow> (Inr (make_region base initial_commit reserve_bytes tag), g', be'))"

section \<open>The production backend\<close>

record backend_stats =
  live_bytes :: u64
  peak_bytes :: u64
  reserved_bytes :: u64
  acquire_count :: u64
  release_count :: u64
  capacity :: u64

definition stats_acquired :: "u64 \<Rightarrow> u64 \<Rightarrow> backend_stats \<Rightarrow> backend_stats" where
  "stats_acquired committed reserved s =
     s\<lparr>live_bytes := live_bytes s + committed,
       reserved_bytes := reserved_bytes s + reserved,
       peak_bytes := max (peak_bytes s) (live_bytes s + committed),
       acquire_count := acquire_count s + 1\<rparr>"

definition stats_released :: "u64 \<Rightarrow> u64 \<Rightarrow> backend_stats \<Rightarrow> backend_stats" where
  "stats_released committed reserved s =
     s\<lparr>live_bytes := live_bytes s - min (live_bytes s) committed,
       reserved_bytes := reserved_bytes s - min (reserved_bytes s) reserved,
       release_count := release_count s + 1\<rparr>"

text \<open>
  \<^verbatim>\<open>CudaMallocBackend::do_acquire\<close>. \<open>cap\<close> is the installed budget
  (\<^verbatim>\<open>vram_budget_bytes()\<close>, 0 for none) and \<open>cuda_malloc n\<close> the address
  \<^verbatim>\<open>cudaMalloc\<close> yields for \<open>n\<close> bytes, 0 when it fails. The budget check and the
  accounting are the two critical sections.
\<close>

definition cuda_budget_ok :: "u64 \<Rightarrow> u64 \<Rightarrow> backend_stats \<Rightarrow> bool" where
  "cuda_budget_ok cap bytes s \<longleftrightarrow> \<not> (0 < cap \<and> cap < live_bytes s + bytes)"

definition cuda_do_acquire ::
  "u64 \<Rightarrow> (u64 \<Rightarrow> u64) \<Rightarrow> u64 \<Rightarrow> u64 \<Rightarrow> region_tag \<Rightarrow> backend_stats \<Rightarrow>
   (mem_error + u64 \<times> u64) \<times> backend_stats" where
  "cuda_do_acquire cap cuda_malloc bytes alignment tag s =
     (if 256 < alignment then (Inl InvalidArgument, s)
      else if \<not> cuda_budget_ok cap bytes s then (Inl BudgetExceeded, s)
      else let p = cuda_malloc bytes in
        if p = 0 then (Inl OutOfMemory, s)
        else (Inr (p, bytes), stats_acquired bytes bytes s))"

definition cuda_stats :: "u64 \<Rightarrow> backend_stats \<Rightarrow> backend_stats" where
  "cuda_stats cap s = s\<lparr>capacity := cap\<rparr>"

definition cuda_do_release ::
  "u64 \<Rightarrow> u64 \<Rightarrow> u64 \<Rightarrow> region_tag \<Rightarrow> backend_stats \<Rightarrow> backend_stats" where
  "cuda_do_release base committed reserved tag s = stats_released committed reserved s"

section \<open>What acquisition promises\<close>

lemma unat_plus_no_wrap:
  "unat a + unat b < 2 ^ 64 \<Longrightarrow> unat (a + b) = unat a + unat b" for a b :: u64
  by (simp add: unat_word_ariths)

lemma cuda_do_acquire_error:
  "fst (cuda_do_acquire cap cm bytes al tag s) = Inl e \<Longrightarrow>
     snd (cuda_do_acquire cap cm bytes al tag s) = s"
  by (auto simp: cuda_do_acquire_def Let_def split: if_splits)

lemma cuda_do_acquire_success:
  "fst (cuda_do_acquire cap cm bytes al tag s) = Inr (p, n) \<Longrightarrow>
     p = cm bytes \<and> p \<noteq> 0 \<and> n = bytes \<and> al \<le> 256 \<and> cuda_budget_ok cap bytes s \<and>
     snd (cuda_do_acquire cap cm bytes al tag s) = stats_acquired bytes bytes s"
  by (auto simp: cuda_do_acquire_def Let_def split: if_splits)

lemma note_serving_other_phase:
  "g_phase g \<noteq> Serving \<Longrightarrow> note_serving_allocation tag n g = g"
  by (simp add: note_serving_allocation_def)

lemma steady_count_note:
  "g_phase g = Serving \<Longrightarrow>
     steady_state_allocations (note_serving_allocation tag n g) = steady_state_allocations g + 1"
  by (cases tag) (simp_all add: note_serving_allocation_def steady_state_allocations_def
      all_tags_def)

text \<open>Sequences of whole acquisitions and releases, each run without interruption.\<close>

inductive cuda_step :: "u64 \<Rightarrow> backend_stats \<Rightarrow> backend_stats \<Rightarrow> bool" for cap where
  cuda_acq:
    "unat (live_bytes s) + unat bytes < 2 ^ 64 \<Longrightarrow>
     cuda_step cap s (snd (cuda_do_acquire cap cm bytes al tag s))"
| cuda_rel: "cuda_step cap s (cuda_do_release base committed reserved tag s)"

lemma word_diff_le: "b \<le> a \<Longrightarrow> a - b \<le> a" for a b :: u64
  by (simp add: word_le_nat_alt unat_sub)

lemma cuda_step_budget:
  "cuda_step cap s s' \<Longrightarrow> 0 < cap \<Longrightarrow> live_bytes s \<le> cap \<Longrightarrow> live_bytes s' \<le> cap"
  by (induction rule: cuda_step.induct)
    (auto simp: cuda_do_acquire_def cuda_do_release_def Let_def cuda_budget_ok_def
      stats_acquired_def stats_released_def intro: order_trans [OF word_diff_le])

section \<open>Properties\<close>


definition zero_stats :: backend_stats where
  "zero_stats = \<lparr>live_bytes = 0, peak_bytes = 0, reserved_bytes = 0, acquire_count = 0,
     release_count = 0, capacity = 0\<rparr>"





end
