(* ===== verification/Fake_Backend.thy ===== *)
theory Fake_Backend
  imports Backend
begin

text \<open>
  \<^verbatim>\<open>src/src/memory/fake_backend.h\<close>, \<^verbatim>\<open>fake_backend.cpp\<close>: the host-memory backend with a
  bounded capacity, injectable failures, a journal of every event and poison on release.
  \<^verbatim>\<open>std::malloc\<close> is an argument of the operations that call it. Every public operation
  holds the mutex for its whole body, so each is one state transition.
\<close>

section \<open>The journalling backend\<close>

datatype alloc_op = OpAcquire | OpRelease | OpCommit | OpDecommit

record alloc_event =
  ev_seq :: u64
  ev_op :: alloc_op
  ev_phase :: alloc_phase
  ev_tag :: region_tag
  ev_bytes :: u64
  ev_base :: u64

record live_entry =
  l_raw :: u64
  l_base :: u64
  l_committed :: u64
  l_reserved :: u64
  l_tag :: region_tag

text \<open>\<open>fb_mem\<close> is the content of the host heap the fake hands out.\<close>

record fake_backend =
  fb_capacity :: u64
  fb_growable :: bool
  fb_stats :: backend_stats
  fb_live :: "live_entry list"
  fb_quarantine :: "live_entry list"
  fb_journal :: "alloc_event list"
  fb_seq :: u64
  fb_ordinal :: u64
  fb_fail_at :: u64
  fb_fail_err :: mem_error
  fb_mem :: "u64 \<Rightarrow> u8"

definition kPoison :: u8 where "kPoison = 0xDE"

definition kQuarantineDepth :: nat where "kQuarantineDepth = 16"

definition fake_backend_new :: "u64 \<Rightarrow> bool \<Rightarrow> (u64 \<Rightarrow> u8) \<Rightarrow> fake_backend" where
  "fake_backend_new cap growable mem =
     \<lparr>fb_capacity = cap, fb_growable = growable,
      fb_stats = \<lparr>live_bytes = 0, peak_bytes = 0, reserved_bytes = 0,
                  acquire_count = 0, release_count = 0, capacity = cap\<rparr>,
      fb_live = [], fb_quarantine = [], fb_journal = [], fb_seq = 0, fb_ordinal = 0,
      fb_fail_at = 0, fb_fail_err = OutOfMemory, fb_mem = mem\<rparr>"

definition fail_acquisition :: "u64 \<Rightarrow> mem_error \<Rightarrow> fake_backend \<Rightarrow> fake_backend" where
  "fail_acquisition n err fb =
     fb\<lparr>fb_fail_at := (if n \<noteq> 0 then fb_ordinal fb + n else 0), fb_fail_err := err\<rparr>"

definition memset :: "u64 \<Rightarrow> u8 \<Rightarrow> u64 \<Rightarrow> (u64 \<Rightarrow> u8) \<Rightarrow> (u64 \<Rightarrow> u8)" where
  "memset base v n m = (\<lambda>a. if unat (a - base) < unat n then v else m a)"

definition record_event ::
  "alloc_phase \<Rightarrow> alloc_op \<Rightarrow> region_tag \<Rightarrow> u64 \<Rightarrow> u64 \<Rightarrow> fake_backend \<Rightarrow> fake_backend" where
  "record_event phase op tag bytes base fb =
     fb\<lparr>fb_seq := fb_seq fb + 1,
        fb_journal := fb_journal fb @
          [\<lparr>ev_seq = fb_seq fb + 1, ev_op = op, ev_phase = phase, ev_tag = tag,
            ev_bytes = bytes, ev_base = base\<rparr>]\<rparr>"

text \<open>The signed sum the journal replays to, and the value the test reads.\<close>

fun event_delta :: "alloc_event \<Rightarrow> int" where
  "event_delta e =
     (case ev_op e of
        OpAcquire \<Rightarrow> sint (ev_bytes e)
      | OpCommit \<Rightarrow> sint (ev_bytes e)
      | OpRelease \<Rightarrow> - sint (ev_bytes e)
      | OpDecommit \<Rightarrow> - sint (ev_bytes e))"

definition journal_live_bytes :: "fake_backend \<Rightarrow> u64" where
  "journal_live_bytes fb =
     (let live = sum_list (map event_delta (fb_journal fb)) in
      if 0 < live then word_of_int live else 0)"

text \<open>
  \<^verbatim>\<open>FakeBackend::do_acquire\<close> and \<^verbatim>\<open>do_acquire_growable\<close> share the ordinal and the
  injected failure; \<open>malloc n\<close> is the address \<^verbatim>\<open>std::malloc\<close> returns for \<open>n\<close> bytes in
  this call, 0 when it fails. Capacity bounds the committed bytes only.
\<close>

definition fake_do_acquire ::
  "alloc_phase \<Rightarrow> (u64 \<Rightarrow> u64) \<Rightarrow> u64 \<Rightarrow> u64 \<Rightarrow> region_tag \<Rightarrow> fake_backend \<Rightarrow>
   (mem_error + u64 \<times> u64) \<times> fake_backend" where
  "fake_do_acquire phase malloc bytes alignment tag fb0 =
     (let fb = fb0\<lparr>fb_ordinal := fb_ordinal fb0 + 1\<rparr> in
      if fb_fail_at fb \<noteq> 0 \<and> fb_fail_at fb \<le> fb_ordinal fb
      then (Inl (fb_fail_err fb), fb\<lparr>fb_fail_at := 0\<rparr>)
      else if fb_capacity fb \<noteq> 0 \<and> fb_capacity fb < live_bytes (fb_stats fb) + bytes
      then (Inl OutOfMemory, fb)
      else let raw = malloc (bytes + alignment) in
      if raw = 0 then (Inl OutOfMemory, fb)
      else
        let base = align_up raw alignment in
        (Inr (base, bytes),
         record_event phase OpAcquire tag bytes base
           (fb\<lparr>fb_live := fb_live fb @ [\<lparr>l_raw = raw, l_base = base, l_committed = bytes,
                                        l_reserved = bytes, l_tag = tag\<rparr>],
               fb_stats := stats_acquired bytes bytes (fb_stats fb)\<rparr>)))"

definition fake_do_acquire_growable ::
  "alloc_phase \<Rightarrow> (u64 \<Rightarrow> u64) \<Rightarrow> u64 \<Rightarrow> u64 \<Rightarrow> u64 \<Rightarrow> region_tag \<Rightarrow> fake_backend \<Rightarrow>
   (mem_error + u64) \<times> fake_backend" where
  "fake_do_acquire_growable phase malloc reserve_bytes initial_commit alignment tag fb0 =
     (if \<not> fb_growable fb0 then (Inl NotGrowable, fb0)
      else let fb = fb0\<lparr>fb_ordinal := fb_ordinal fb0 + 1\<rparr> in
      if fb_fail_at fb \<noteq> 0 \<and> fb_fail_at fb \<le> fb_ordinal fb
      then (Inl (fb_fail_err fb), fb\<lparr>fb_fail_at := 0\<rparr>)
      else if fb_capacity fb \<noteq> 0 \<and> fb_capacity fb < live_bytes (fb_stats fb) + initial_commit
      then (Inl OutOfMemory, fb)
      else let raw = malloc (reserve_bytes + alignment) in
      if raw = 0 then (Inl OutOfMemory, fb)
      else
        let base = align_up raw alignment in
        (Inr base,
         record_event phase OpAcquire tag initial_commit base
           (fb\<lparr>fb_live := fb_live fb @ [\<lparr>l_raw = raw, l_base = base, l_committed = initial_commit,
                                        l_reserved = reserve_bytes, l_tag = tag\<rparr>],
               fb_stats := stats_acquired initial_commit reserve_bytes (fb_stats fb)\<rparr>)))"

text \<open>\<^verbatim>\<open>std::find_if\<close> on the live list, and the replacement of the entry it found.\<close>

definition find_live :: "u64 \<Rightarrow> live_entry list \<Rightarrow> live_entry option" where
  "find_live base ls = List.find (\<lambda>l. l_base l = base) ls"

fun set_live_committed :: "u64 \<Rightarrow> u64 \<Rightarrow> live_entry list \<Rightarrow> live_entry list" where
  "set_live_committed base n [] = []"
| "set_live_committed base n (l # ls) =
     (if l_base l = base then l\<lparr>l_committed := n\<rparr> # ls
      else l # set_live_committed base n ls)"

fun erase_live :: "u64 \<Rightarrow> live_entry list \<Rightarrow> live_entry list" where
  "erase_live base [] = []"
| "erase_live base (l # ls) = (if l_base l = base then ls else l # erase_live base ls)"

definition live_regions :: "fake_backend \<Rightarrow> nat" where
  "live_regions fb = length (fb_live fb)"

definition is_poisoned :: "u64 \<Rightarrow> u64 \<Rightarrow> (u64 \<Rightarrow> u8) \<Rightarrow> bool" where
  "is_poisoned base n m \<longleftrightarrow> list_all (\<lambda>i. m (base + of_nat i) = kPoison) [0..<unat n]"

definition fake_commit ::
  "alloc_phase \<Rightarrow> region \<Rightarrow> u64 \<Rightarrow> fake_backend \<Rightarrow> mem_error \<times> region \<times> fake_backend" where
  "fake_commit phase r new_committed fb =
     (if \<not> fb_growable fb then (NotGrowable, r, fb)
      else if \<not> region_valid r \<or> r_reserved r < new_committed then (InvalidArgument, r, fb)
      else case find_live (r_base r) (fb_live fb) of
        None \<Rightarrow> (InvalidArgument, r, fb)
      | Some l \<Rightarrow>
          let old = l_committed l; st = fb_stats fb in
          if old < new_committed then
            let grow = new_committed - old in
            if fb_capacity fb \<noteq> 0 \<and> fb_capacity fb < live_bytes st + grow then (OutOfMemory, r, fb)
            else (Ok, r\<lparr>r_committed := new_committed\<rparr>,
              record_event phase OpCommit (l_tag l) grow (l_base l)
                (fb\<lparr>fb_stats := st\<lparr>live_bytes := live_bytes st + grow,
                                  peak_bytes := max (peak_bytes st) (live_bytes st + grow)\<rparr>,
                    fb_live := set_live_committed (r_base r) new_committed (fb_live fb)\<rparr>))
          else if new_committed < old then
            let shrink = old - new_committed in
            (Ok, r\<lparr>r_committed := new_committed\<rparr>,
              record_event phase OpDecommit (l_tag l) shrink (l_base l)
                (fb\<lparr>fb_mem := memset (l_base l + new_committed) kPoison shrink (fb_mem fb),
                    fb_stats := st\<lparr>live_bytes := live_bytes st - min (live_bytes st) shrink\<rparr>,
                    fb_live := set_live_committed (r_base r) new_committed (fb_live fb)\<rparr>))
          else (Ok, r\<lparr>r_committed := new_committed\<rparr>,
                fb\<lparr>fb_live := set_live_committed (r_base r) new_committed (fb_live fb)\<rparr>))"

definition fake_do_release ::
  "alloc_phase \<Rightarrow> u64 \<Rightarrow> u64 \<Rightarrow> u64 \<Rightarrow> region_tag \<Rightarrow> fake_backend \<Rightarrow> fake_backend" where
  "fake_do_release phase base committed reserved tag fb =
     (case find_live base (fb_live fb) of
        None \<Rightarrow> fb
      | Some l \<Rightarrow>
          let q = fb_quarantine fb @ [l] in
          record_event phase OpRelease tag committed base
            (fb\<lparr>fb_mem := memset (l_base l) kPoison (l_reserved l) (fb_mem fb),
                fb_quarantine := drop (length q - kQuarantineDepth) q,
                fb_live := erase_live base (fb_live fb),
                fb_stats := stats_released committed reserved (fb_stats fb)\<rparr>))"

section \<open>Conservation\<close>

text \<open>
  What holds between operations: one entry per base, the live counter equals the sum of the
  entries' committed bytes and the replay of the journal, and the capacity bounds it.
\<close>

definition fb_wf :: "fake_backend \<Rightarrow> bool" where
  "fb_wf fb \<longleftrightarrow>
     distinct (map l_base (fb_live fb)) \<and>
     sum_list (map (unat \<circ> l_committed) (fb_live fb)) = unat (live_bytes (fb_stats fb)) \<and>
     sum_list (map event_delta (fb_journal fb)) = int (unat (live_bytes (fb_stats fb))) \<and>
     unat (live_bytes (fb_stats fb)) < 2 ^ 63 \<and>
     (fb_capacity fb \<noteq> 0 \<longrightarrow> live_bytes (fb_stats fb) \<le> fb_capacity fb) \<and>
     live_bytes (fb_stats fb) \<le> peak_bytes (fb_stats fb)"

text \<open>
  The steps a client can make. The side conditions are those of the caller and of the host:
  \<^verbatim>\<open>malloc\<close> returns a block no live region has, committed memory stays below half the
  address space, and a release passes the sizes its region was given.
\<close>

inductive fb_step :: "fake_backend \<Rightarrow> fake_backend \<Rightarrow> bool" where
  fb_acquire:
    "align_up (malloc (bytes + al)) al \<notin> l_base ` set (fb_live fb) \<Longrightarrow>
     unat (live_bytes (fb_stats fb)) + unat bytes < 2 ^ 63 \<Longrightarrow>
     fb_step fb (snd (fake_do_acquire ph malloc bytes al tag fb))"
| fb_acquire_growable:
    "align_up (malloc (res + al)) al \<notin> l_base ` set (fb_live fb) \<Longrightarrow>
     unat (live_bytes (fb_stats fb)) + unat ini < 2 ^ 63 \<Longrightarrow>
     fb_step fb (snd (fake_do_acquire_growable ph malloc res ini al tag fb))"
| fb_commit:
    "unat (live_bytes (fb_stats fb)) + unat n < 2 ^ 63 \<Longrightarrow>
     fb_step fb (snd (snd (fake_commit ph r n fb)))"
| fb_release:
    "(\<And>l. find_live base (fb_live fb) = Some l \<Longrightarrow> committed = l_committed l) \<Longrightarrow>
     fb_step fb (fake_do_release ph base committed reserved tag fb)"
| fb_fail:
    "fb_step fb (fail_acquisition n err fb)"

lemma sint_eq_unat:
  fixes w :: u64
  assumes "unat w < 2 ^ 63"
  shows "sint w = int (unat w)"
proof -
  have "int (unat w) < int (2 ^ 63)" using assms by (simp only: of_nat_less_iff)
  then have "uint w < 2 ^ 63" by (simp only: of_nat_unat of_nat_power of_nat_numeral)
  moreover have "- (2 ^ 63) \<le> uint w" by (rule order_trans [of _ 0]) simp_all
  ultimately have "signed_take_bit 63 (uint w) = uint w"
    by (rule signed_take_bit_int_eq_self [rotated])
  then show ?thesis by (simp add: sint_uint)
qed

lemma find_live_cases:
  assumes "find_live base ls = Some l"
  shows "l \<in> set ls" "l_base l = base"
  using assms by (auto simp: find_live_def find_Some_iff)

lemma set_live_committed_bases [simp]:
  "map l_base (set_live_committed base n ls) = map l_base ls"
  by (induction ls) auto

lemma set_live_committed_sum:
  "find_live base ls = Some l \<Longrightarrow>
     sum_list (map (unat \<circ> l_committed) (set_live_committed base n ls)) + unat (l_committed l) =
     sum_list (map (unat \<circ> l_committed) ls) + unat n"
  by (induction ls) (auto simp: find_live_def)

lemma erase_live_sum:
  "find_live base ls = Some l \<Longrightarrow>
     sum_list (map (unat \<circ> l_committed) (erase_live base ls)) + unat (l_committed l) =
     sum_list (map (unat \<circ> l_committed) ls)"
  by (induction ls) (auto simp: find_live_def)

lemma erase_live_subset: "set (map l_base (erase_live base ls)) \<subseteq> set (map l_base ls)"
  by (induction ls) auto

lemma erase_live_distinct:
  "distinct (map l_base ls) \<Longrightarrow> distinct (map l_base (erase_live base ls))"
  using erase_live_subset by (induction ls) fastforce+

lemma find_live_le_sum:
  assumes "find_live base ls = Some l"
  shows "unat (l_committed l) \<le> sum_list (map (unat \<circ> l_committed) ls)"
  using erase_live_sum [OF assms] by simp

text \<open>One journalled event moves the live counter, the entries and the replay together.\<close>

lemma fb_wf_record:
  assumes "fb_wf fb"
    and "distinct (map l_base (fb_live fb'))"
    and "sum_list (map (unat \<circ> l_committed) (fb_live fb')) = unat (live_bytes (fb_stats fb'))"
    and "fb_journal fb' = fb_journal fb"
    and "event_delta \<lparr>ev_seq = fb_seq fb' + 1, ev_op = op, ev_phase = ph, ev_tag = tag,
           ev_bytes = n, ev_base = base\<rparr> =
         int (unat (live_bytes (fb_stats fb'))) - int (unat (live_bytes (fb_stats fb)))"
    and "unat (live_bytes (fb_stats fb')) < 2 ^ 63"
    and "fb_capacity fb' \<noteq> 0 \<Longrightarrow> live_bytes (fb_stats fb') \<le> fb_capacity fb'"
    and "live_bytes (fb_stats fb') \<le> peak_bytes (fb_stats fb')"
  shows "fb_wf (record_event ph op tag n base fb')"
  using assms by (simp add: fb_wf_def record_event_def del: event_delta.simps)

lemma fb_wf_irrelevant:
  "fb_wf fb \<Longrightarrow> fb_wf (fb\<lparr>fb_ordinal := a\<rparr>)"
  "fb_wf fb \<Longrightarrow> fb_wf (fb\<lparr>fb_ordinal := a, fb_fail_at := b\<rparr>)"
  "fb_wf fb \<Longrightarrow> fb_wf (fb\<lparr>fb_fail_at := b, fb_fail_err := e\<rparr>)"
  by (simp_all add: fb_wf_def)

lemma fb_wf_acquired:
  assumes wf: "fb_wf fb" and fresh: "base \<notin> l_base ` set (fb_live fb)"
    and room: "unat (live_bytes (fb_stats fb)) + unat n < 2 ^ 63"
    and cap: "\<not> (fb_capacity fb \<noteq> 0 \<and> fb_capacity fb < live_bytes (fb_stats fb) + n)"
  shows "fb_wf (record_event ph OpAcquire tag n base
           (fb\<lparr>fb_ordinal := o',
               fb_live := fb_live fb @ [\<lparr>l_raw = raw, l_base = base, l_committed = n,
                                        l_reserved = res, l_tag = tag\<rparr>],
               fb_stats := stats_acquired n res (fb_stats fb)\<rparr>))"
proof -
  have u: "unat (live_bytes (fb_stats fb) + n) = unat (live_bytes (fb_stats fb)) + unat n"
    using room by (intro unat_plus_no_wrap) simp
  have sn: "sint n = int (unat n)" using room by (intro sint_eq_unat) simp
  show ?thesis
    by (rule fb_wf_record [OF wf])
      (use wf fresh room cap u sn in \<open>auto simp: fb_wf_def stats_acquired_def\<close>)
qed

lemma fb_wf_do_acquire:
  assumes "fb_wf fb" "align_up (malloc (bytes + al)) al \<notin> l_base ` set (fb_live fb)"
    and "unat (live_bytes (fb_stats fb)) + unat bytes < 2 ^ 63"
  shows "fb_wf (snd (fake_do_acquire ph malloc bytes al tag fb))"
  using fb_wf_irrelevant [OF assms(1)] fb_wf_acquired [OF assms]
  by (auto simp: fake_do_acquire_def Let_def)

lemma fb_wf_do_acquire_growable:
  assumes "fb_wf fb" "align_up (malloc (res + al)) al \<notin> l_base ` set (fb_live fb)"
    and "unat (live_bytes (fb_stats fb)) + unat ini < 2 ^ 63"
  shows "fb_wf (snd (fake_do_acquire_growable ph malloc res ini al tag fb))"
  using assms(1) fb_wf_irrelevant [OF assms(1)] fb_wf_acquired [OF assms]
  by (auto simp: fake_do_acquire_growable_def Let_def)

lemma fb_wf_do_release:
  assumes wf: "fb_wf fb"
    and sz: "\<And>l. find_live base (fb_live fb) = Some l \<Longrightarrow> committed = l_committed l"
  shows "fb_wf (fake_do_release ph base committed reserved tag fb)"
proof (cases "find_live base (fb_live fb)")
  case None
  with wf show ?thesis by (simp add: fake_do_release_def)
next
  case (Some l)
  let ?live = "live_bytes (fb_stats fb)"
  have c: "committed = l_committed l" using sz [OF Some] .
  have le: "unat committed \<le> unat ?live"
    using find_live_le_sum [OF Some] wf c by (simp add: fb_wf_def)
  then have m: "min ?live committed = committed" by (intro min_absorb2) (simp add: word_le_nat_alt)
  have u: "unat (?live - committed) = unat ?live - unat committed"
    using le by (simp add: unat_sub word_le_nat_alt)
  have dec: "?live - committed \<le> ?live" using u by (simp add: word_le_nat_alt)
  have sn: "sint committed = int (unat committed)"
    using wf le by (intro sint_eq_unat) (simp add: fb_wf_def)
  show ?thesis unfolding fake_do_release_def Some option.case Let_def
    by (rule fb_wf_record [OF wf])
      (use wf m u dec sn le c erase_live_sum [OF Some] order_trans [OF dec] in
        \<open>auto simp: fb_wf_def stats_released_def erase_live_distinct\<close>)
qed

lemma fb_wf_commit_grow:
  assumes wf: "fb_wf fb" and l: "find_live base (fb_live fb) = Some l"
    and lt: "l_committed l < n"
    and room: "unat (live_bytes (fb_stats fb)) + unat n < 2 ^ 63"
    and cap: "\<not> (fb_capacity fb \<noteq> 0 \<and>
                 fb_capacity fb < live_bytes (fb_stats fb) + (n - l_committed l))"
  shows "fb_wf (record_event ph OpCommit (l_tag l) (n - l_committed l) (l_base l)
     (fb\<lparr>fb_stats := (fb_stats fb)\<lparr>
            live_bytes := live_bytes (fb_stats fb) + (n - l_committed l),
            peak_bytes := max (peak_bytes (fb_stats fb))
                              (live_bytes (fb_stats fb) + (n - l_committed l))\<rparr>,
         fb_live := set_live_committed base n (fb_live fb)\<rparr>))"
proof -
  have g: "unat (n - l_committed l) = unat n - unat (l_committed l)"
    using lt by (simp add: unat_sub)
  have lt': "unat (l_committed l) < unat n" using lt by (simp add: word_less_nat_alt)
  have u: "unat (live_bytes (fb_stats fb) + (n - l_committed l)) =
      unat (live_bytes (fb_stats fb)) + (unat n - unat (l_committed l))"
    using room g by (subst unat_plus_no_wrap) simp_all
  have sn: "sint (n - l_committed l) = int (unat n - unat (l_committed l))"
    using room g by (subst sint_eq_unat) simp_all
  show ?thesis
    by (rule fb_wf_record [OF wf])
      (use wf room cap u sn lt' set_live_committed_sum [OF l, of n] in \<open>auto simp: fb_wf_def\<close>)
qed

lemma fb_wf_commit_shrink:
  assumes wf: "fb_wf fb" and l: "find_live base (fb_live fb) = Some l"
    and lt: "n < l_committed l"
  shows "fb_wf (record_event ph OpDecommit (l_tag l) (l_committed l - n) (l_base l)
     (fb\<lparr>fb_mem := mem,
         fb_stats := (fb_stats fb)\<lparr>live_bytes := live_bytes (fb_stats fb) -
            min (live_bytes (fb_stats fb)) (l_committed l - n)\<rparr>,
         fb_live := set_live_committed base n (fb_live fb)\<rparr>))"
proof -
  let ?live = "live_bytes (fb_stats fb)" and ?d = "l_committed l - n"
  have bnd: "unat ?live < 2 ^ 63" using wf by (simp add: fb_wf_def)
  have d: "unat ?d = unat (l_committed l) - unat n" using lt by (simp add: unat_sub)
  have lt': "unat n < unat (l_committed l)" using lt by (simp add: word_less_nat_alt)
  have le: "unat (l_committed l) \<le> unat ?live"
    using find_live_le_sum [OF l] wf by (simp add: fb_wf_def)
  then have m: "min ?live ?d = ?d" using d by (intro min_absorb2) (simp add: word_le_nat_alt)
  have u: "unat (?live - ?d) = unat ?live - unat ?d"
    using le d by (simp add: unat_sub word_le_nat_alt)
  have dec: "?live - ?d \<le> ?live" using u by (simp add: word_le_nat_alt)
  have sn: "sint ?d = int (unat ?d)"
    using bnd le d by (intro sint_eq_unat) linarith
  show ?thesis
    by (rule fb_wf_record [OF wf])
      (use wf m u dec sn d le lt' set_live_committed_sum [OF l, of n] order_trans [OF dec] in
        \<open>auto simp: fb_wf_def\<close>)
qed

lemma set_live_committed_same:
  "find_live base ls = Some l \<Longrightarrow> set_live_committed base (l_committed l) ls = ls"
  by (induction ls) (auto simp: find_live_def)

lemma fb_wf_commit:
  assumes wf: "fb_wf fb" and room: "unat (live_bytes (fb_stats fb)) + unat n < 2 ^ 63"
  shows "fb_wf (snd (snd (fake_commit ph r n fb)))"
proof (cases "find_live (r_base r) (fb_live fb)")
  case None
  with wf show ?thesis by (simp add: fake_commit_def)
next
  case (Some l)
  consider "l_committed l < n" | "n < l_committed l" | "n = l_committed l"
    by (rule linorder_cases)
  then show ?thesis
    using wf fb_wf_commit_grow [OF wf Some _ room] fb_wf_commit_shrink [OF wf Some]
      set_live_committed_same [OF Some]
    by cases (auto simp: fake_commit_def Some Let_def)
qed

lemma fb_step_wf: "fb_step fb fb' \<Longrightarrow> fb_wf fb \<Longrightarrow> fb_wf fb'"
  by (induction rule: fb_step.induct)
    (auto intro: fb_wf_do_acquire fb_wf_do_acquire_growable fb_wf_commit fb_wf_do_release
      simp: fail_acquisition_def fb_wf_irrelevant)

lemma fb_wf_new: "fb_wf (fake_backend_new cap growable mem)"
  by (simp add: fb_wf_def fake_backend_new_def)

lemma fb_reach_wf: "fb_step\<^sup>*\<^sup>* fb fb' \<Longrightarrow> fb_wf fb \<Longrightarrow> fb_wf fb'"
  by (induction rule: rtranclp_induct) (auto intro: fb_step_wf)

text \<open>Released and decommitted bytes read back as poison.\<close>

lemma memset_poisoned: "is_poisoned base n (memset base kPoison n m)"
proof -
  have "unat (of_nat i :: u64) = i" if "i < unat n" for i
    using that unat_lt64 [of n] by (intro unat_of_nat64) linarith
  then show ?thesis by (auto simp: is_poisoned_def memset_def list_all_iff)
qed

lemma find_live_None: "find_live base ls = None \<longleftrightarrow> base \<notin> l_base ` set ls"
  by (auto simp: find_live_def find_None_iff)

lemma find_live_erased:
  "distinct (map l_base ls) \<Longrightarrow> find_live base (erase_live base ls) = None"
  by (induction ls) (auto simp: find_live_None)

section \<open>Properties\<close>

text \<open>
  C31. Conservation: in every state reachable from a new fake backend, the replay of the
  journal equals the live counter, which equals the committed bytes of the live regions,
  never exceeds a non-zero capacity and never exceeds the recorded peak.
\<close>

theorem fake_backend_conservation:
  assumes "fb_step\<^sup>*\<^sup>* (fake_backend_new cap growable mem) fb"
  shows "journal_live_bytes fb = live_bytes (fb_stats fb) \<and>
    sum_list (map (unat \<circ> l_committed) (fb_live fb)) = unat (live_bytes (fb_stats fb)) \<and>
    (fb_capacity fb = 0 \<or> live_bytes (fb_stats fb) \<le> fb_capacity fb) \<and>
    live_bytes (fb_stats fb) \<le> peak_bytes (fb_stats fb)"
proof -
  have "0 < uint w" if "w \<noteq> 0" for w :: u64
    using that by (simp add: word_neq_0_conv word_less_def)
  with fb_reach_wf [OF assms fb_wf_new] show ?thesis
    by (cases "live_bytes (fb_stats fb) = 0")
      (auto simp: fb_wf_def journal_live_bytes_def Let_def)
qed

definition fb_example :: fake_backend where
  "fb_example = snd (fake_do_acquire Loading (\<lambda>_. 4100) 100 256 KvBlockPool
     (fake_backend_new 1000 True (\<lambda>_. 0)))"

theorem fake_backend_conservation_witness:
  "journal_live_bytes fb_example = live_bytes (fb_stats fb_example) \<and>
   live_bytes (fb_stats fb_example) = 100"
proof -
  have "fb_step (fake_backend_new 1000 True (\<lambda>_. 0)) fb_example"
    unfolding fb_example_def by (rule fb_acquire) (simp_all add: fake_backend_new_def)
  then have "fb_step\<^sup>*\<^sup>* (fake_backend_new 1000 True (\<lambda>_. 0)) fb_example" by blast
  from fake_backend_conservation [OF this] show ?thesis
    by (simp add: fb_example_def fake_do_acquire_def fake_backend_new_def Let_def
        record_event_def stats_acquired_def)
qed

text \<open>
  C39. Releasing a live region poisons its whole reservation, removes it from the live list
  so that a second release of the same base changes nothing, and keeps the quarantine within
  its depth.
\<close>

theorem fake_release_poisons:
  assumes "fb_wf fb" "find_live base (fb_live fb) = Some l"
    and "length (fb_quarantine fb) \<le> kQuarantineDepth"
  shows "let fb' = fake_do_release ph base n res tag fb in
    is_poisoned base (l_reserved l) (fb_mem fb') \<and>
    fake_do_release ph' base n' res' tag' fb' = fb' \<and>
    live_regions fb' + 1 = live_regions fb \<and>
    length (fb_quarantine fb') \<le> kQuarantineDepth"
proof -
  have b: "l_base l = base" using find_live_cases(2) [OF assms(2)] .
  have len: "length (erase_live base ls) + 1 = length ls"
    if "find_live base ls = Some l" for ls
    using that by (induction ls) (auto simp: find_live_def split: if_splits)
  have "find_live base (erase_live base (fb_live fb)) = None"
    using assms(1) by (simp add: fb_wf_def find_live_erased)
  with b len [OF assms(2)] show ?thesis
    by (simp add: fake_do_release_def assms(2) record_event_def memset_poisoned live_regions_def
        Let_def)
qed

theorem fake_release_poisons_witness:
  "is_poisoned 4352 100 (fb_mem (fake_do_release Serving 4352 100 100 KvBlockPool fb_example))"
proof -
  have "fb_wf fb_example" unfolding fb_example_def
    by (rule fb_wf_do_acquire [OF fb_wf_new]) (simp_all add: fake_backend_new_def)
  moreover have "find_live 4352 (fb_live fb_example) =
      Some \<lparr>l_raw = 4100, l_base = 4352, l_committed = 100, l_reserved = 100,
            l_tag = KvBlockPool\<rparr>"
    by (simp add: fb_example_def fake_do_acquire_def fake_backend_new_def Let_def
        record_event_def find_live_def align_up_def)
  moreover have "length (fb_quarantine fb_example) \<le> kQuarantineDepth"
    by (simp add: fb_example_def fake_do_acquire_def fake_backend_new_def Let_def
        record_event_def)
  ultimately show ?thesis
    using fake_release_poisons [of fb_example 4352 _ Serving 100 100 KvBlockPool]
    by (fastforce simp: Let_def)
qed

end
