(* ===== verification/Bump.thy ===== *)
theory Bump
  imports Backend
begin

text \<open>
  The bump-allocation contract that \<^verbatim>\<open>ArenaAllocator::take_bytes\<close> and
  \<^verbatim>\<open>ScratchStack::take_bytes\<close> share: the interface \<open>bump\<close>, with the lemmas on sequences of
  takes proved once from its laws. A span is its address and its size in bytes.
\<close>

type_synonym span = "u64 \<times> u64"

definition span_sep :: "span \<Rightarrow> span \<Rightarrow> bool" where
  "span_sep x y \<longleftrightarrow>
     unat (fst x) + unat (snd x) \<le> unat (fst y) \<or> unat (fst y) + unat (snd y) \<le> unat (fst x)"

text \<open>A sequence of requests \<open>(bytes, alignment)\<close>; the spans of those that succeed.\<close>

primrec run_takes ::
  "(u64 \<Rightarrow> u64 \<Rightarrow> 's \<Rightarrow> span option \<times> 's) \<Rightarrow> (u64 \<times> u64) list \<Rightarrow> 's \<Rightarrow> span list \<times> 's" where
  "run_takes tk [] s = ([], s)"
| "run_takes tk (r # rs) s =
     (let (sp, s') = tk (fst r) (snd r) s; (sps, s'') = run_takes tk rs s'
      in ((case sp of None \<Rightarrow> sps | Some x \<Rightarrow> x # sps), s''))"

lemma align_up_bounds:
  assumes "is_pow2 a" "unat v + unat a \<le> 2 ^ 64"
  shows "unat v \<le> unat (align_up v a)" "unat a dvd unat (align_up v a)"
    "unat (align_up v a) < unat v + unat a"
proof -
  obtain k where k: "k < 64" "a = 2 ^ k" "unat a = 2 ^ k" using is_pow2E [OF assms(1)] .
  have e: "unat (align_up v a) = (unat v + (2 ^ k - 1)) div 2 ^ k * 2 ^ k"
    unfolding k(2) using k assms(2) by (intro unat_align_up) simp_all
  show "unat a dvd unat (align_up v a)" by (simp add: e k(3))
  have p: "(0::nat) < 2 ^ k" by simp
  have "(unat v + (2 ^ k - 1)) div 2 ^ k * 2 ^ k + (unat v + (2 ^ k - 1)) mod 2 ^ k =
      unat v + (2 ^ k - 1)" by (rule div_mult_mod_eq)
  moreover have "(unat v + (2 ^ k - 1)) mod 2 ^ k < 2 ^ k" by simp
  ultimately show "unat v \<le> unat (align_up v a)" "unat (align_up v a) < unat v + unat a"
    unfolding e k(3) using p by linarith+
qed

lemma is_pow2_dvd:
  assumes "is_pow2 a" "is_pow2 b" "a \<le> b"
  shows "unat a dvd unat b"
proof -
  obtain i j where "unat a = 2 ^ i" "unat b = 2 ^ j"
    using is_pow2E [OF assms(1)] is_pow2E [OF assms(2)] by metis
  with assms(3) show ?thesis by (simp add: word_le_nat_alt le_imp_power_dvd)
qed

lemma is_pow2_le: "is_pow2 a \<Longrightarrow> unat a \<le> 2 ^ 63"
proof -
  assume "is_pow2 a"
  then obtain k where "k < 64" "unat a = 2 ^ k" by (rule is_pow2E)
  moreover from this have "(2::nat) ^ k \<le> 2 ^ 63" by (intro power_increasing) simp_all
  ultimately show ?thesis by simp
qed

section \<open>The interface\<close>

locale bump =
  fixes base :: "'s \<Rightarrow> u64" and committed :: "'s \<Rightarrow> u64" and offset :: "'s \<Rightarrow> u64"
    and take_op :: "u64 \<Rightarrow> u64 \<Rightarrow> 's \<Rightarrow> span option \<times> 's"
  assumes take_some: "take_op n al s = (Some x, s') \<Longrightarrow>
      n \<noteq> 0 \<and> is_pow2 al \<and> x = (base s + align_up (offset s) al, n) \<and>
      align_up (offset s) al \<le> committed s \<and> n \<le> committed s - align_up (offset s) al \<and>
      base s' = base s \<and> committed s' = committed s \<and> offset s' = align_up (offset s) al + n"
    and take_none: "take_op n al s = (None, s') \<Longrightarrow>
      base s' = base s \<and> committed s' = committed s \<and> offset s' = offset s"
    and take_fits: "base s \<noteq> 0 \<Longrightarrow> n \<noteq> 0 \<Longrightarrow> is_pow2 al \<Longrightarrow>
      align_up (offset s) al \<le> committed s \<Longrightarrow> n \<le> committed s - align_up (offset s) al \<Longrightarrow>
      \<exists>x s'. take_op n al s = (Some x, s')"
begin

definition wf :: "'s \<Rightarrow> bool" where
  "wf s \<longleftrightarrow> offset s \<le> committed s \<and> unat (committed s) \<le> 2 ^ 63 \<and>
     unat (base s) + unat (committed s) < 2 ^ 64"

lemma take_some_bounds:
  assumes "wf s" "take_op n al s = (Some x, s')"
  shows "wf s'" "snd x = n" "unat (offset s') = unat (fst x) - unat (base s) + unat n"
    "unat (base s) + unat (offset s) \<le> unat (fst x)"
    "unat (fst x) + unat n \<le> unat (base s) + unat (committed s)"
    "unat al dvd unat (fst x) - unat (base s)"
    "base s' = base s" "committed s' = committed s"
proof -
  let ?st = "align_up (offset s) al"
  note t = take_some [OF assms(2)]
  have "unat (offset s) + unat al \<le> 2 ^ 64"
    using assms(1) t is_pow2_le [of al] by (simp add: wf_def word_le_nat_alt)
  note a = align_up_bounds [OF conjunct1 [OF conjunct2 [OF t]] this]
  have st: "unat ?st \<le> unat (committed s)" using t by (simp add: word_le_nat_alt)
  have n: "unat ?st + unat n \<le> unat (committed s)"
    using t st by (auto simp: word_le_nat_alt unat_sub)
  have x: "unat (base s + ?st) = unat (base s) + unat ?st"
    using assms(1) st by (intro unat_plus_no_wrap) (simp add: wf_def)
  have o: "unat (?st + n) = unat ?st + unat n"
    using assms(1) n by (intro unat_plus_no_wrap) (simp add: wf_def)
  show "wf s'" using assms(1) t n o by (simp add: wf_def word_le_nat_alt)
  show "snd x = n" "base s' = base s" "committed s' = committed s" using t by auto
  show "unat (offset s') = unat (fst x) - unat (base s) + unat n" using t x o by simp
  show "unat (base s) + unat (offset s) \<le> unat (fst x)" using t x a(1) by simp
  show "unat (fst x) + unat n \<le> unat (base s) + unat (committed s)" using t x n by simp
  show "unat al dvd unat (fst x) - unat (base s)" using t x a(2) by simp
qed

lemma run_takes_bounds:
  "wf s \<Longrightarrow> run_takes take_op rs s = (sps, s') \<Longrightarrow>
     wf s' \<and> base s' = base s \<and> committed s' = committed s \<and> unat (offset s) \<le> unat (offset s') \<and>
     (\<forall>x \<in> set sps. unat (base s) + unat (offset s) \<le> unat (fst x) \<and>
        unat (fst x) + unat (snd x) \<le> unat (base s) + unat (offset s')) \<and>
     sorted_wrt span_sep sps"
proof (induction rs arbitrary: s sps)
  case Nil
  then show ?case by simp
next
  case (Cons r rs)
  obtain sp t where tk: "take_op (fst r) (snd r) s = (sp, t)" by fastforce
  obtain ys where rest: "run_takes take_op rs t = (ys, s')"
    and sps: "sps = (case sp of None \<Rightarrow> ys | Some x \<Rightarrow> x # ys)"
    using Cons.prems(2) tk by (auto split: prod.splits)
  show ?case
  proof (cases sp)
    case None
    then have t: "base t = base s" "committed t = committed s" "offset t = offset s"
      using take_none tk by blast+
    then have "wf t" using Cons.prems(1) by (simp add: wf_def)
    from Cons.IH [OF this rest] None sps t show ?thesis by simp
  next
    case (Some x)
    note b = take_some_bounds [OF Cons.prems(1) tk [unfolded Some]]
    from Cons.IH [OF b(1) rest] Some sps b show ?thesis
      by (fastforce simp: span_sep_def)
  qed
qed

end

end
