(* ===== verification/Arena.thy ===== *)
theory Arena
  imports Bump
begin

text \<open>
  \<^verbatim>\<open>src/src/memory/arena.h\<close>, \<^verbatim>\<open>arena.cpp\<close>: the bump allocator of the load-time tiers. The
  theory has its operations, the interpretation of the bump interface on them, and the
  properties of the spans it hands out.
\<close>

section \<open>Operations\<close>

record arena =
  ar_region :: region
  ar_offset :: u64
  ar_high_water :: u64
  ar_generation :: u64
  ar_tag :: region_tag

definition arena_new :: arena where
  "arena_new = \<lparr>ar_region = null_region, ar_offset = 0, ar_high_water = 0,
     ar_generation = 0, ar_tag = Other\<rparr>"

definition arena_open ::
  "(u64 \<Rightarrow> u64 \<Rightarrow> region_tag \<Rightarrow> 'b \<Rightarrow> (mem_error + region) \<times> 'b) \<Rightarrow> u64 \<Rightarrow> region_tag \<Rightarrow>
   arena \<Rightarrow> 'b \<Rightarrow> mem_error \<times> arena \<times> 'b" where
  "arena_open backend_acquire cap tag a be =
     (if region_valid (ar_region a) then (InvalidArgument, a, be)
      else if cap = 0 then (InvalidArgument, a, be)
      else case backend_acquire cap 256 tag be of
        (Inl e, be') \<Rightarrow> (e, a, be')
      | (Inr r, be') \<Rightarrow>
          (Ok, a\<lparr>ar_region := r, ar_offset := 0, ar_high_water := 0, ar_tag := tag\<rparr>, be'))"

definition arena_close ::
  "(u64 \<Rightarrow> u64 \<Rightarrow> u64 \<Rightarrow> region_tag \<Rightarrow> 'b \<Rightarrow> 'b) \<Rightarrow> arena \<Rightarrow> 'b \<Rightarrow> arena \<times> 'b" where
  "arena_close release a be =
     (if \<not> region_valid (ar_region a) then (a, be)
      else let (r, be') = region_reset release (ar_region a) be in
        (a\<lparr>ar_region := r, ar_offset := 0, ar_high_water := 0,
           ar_generation := ar_generation a + 1\<rparr>, be'))"

definition arena_reset :: "arena \<Rightarrow> arena" where
  "arena_reset a = a\<lparr>ar_offset := 0, ar_generation := ar_generation a + 1\<rparr>"

definition arena_take_bytes :: "u64 \<Rightarrow> u64 \<Rightarrow> arena \<Rightarrow> span option \<times> arena" where
  "arena_take_bytes bytes alignment a =
     (if bytes = 0 \<or> \<not> is_pow2 alignment then (None, a)
      else if \<not> region_valid (ar_region a) then (None, a)
      else
        let start = align_up (ar_offset a) alignment; cap = r_committed (ar_region a) in
        if cap < start \<or> cap - start < bytes then (None, a)
        else (Some (r_base (ar_region a) + start, bytes),
              a\<lparr>ar_offset := start + bytes,
                ar_high_water := max (ar_high_water a) (start + bytes)\<rparr>))"

definition arena_capacity :: "arena \<Rightarrow> u64" where
  "arena_capacity a = r_committed (ar_region a)"

definition arena_remaining :: "arena \<Rightarrow> u64" where
  "arena_remaining a =
     (if ar_offset a < r_committed (ar_region a)
      then r_committed (ar_region a) - ar_offset a else 0)"

section \<open>The arena is a bump allocator\<close>

interpretation ar: bump "\<lambda>a. r_base (ar_region a)" "\<lambda>a. r_committed (ar_region a)" ar_offset
  arena_take_bytes
  by unfold_locales
    (auto simp: arena_take_bytes_def Let_def region_valid_def not_less split: if_splits)

definition arena_wf :: "arena \<Rightarrow> bool" where
  "arena_wf a \<longleftrightarrow> ar_offset a \<le> r_committed (ar_region a) \<and>
     unat (r_committed (ar_region a)) \<le> 2 ^ 63 \<and>
     unat (r_base (ar_region a)) + unat (r_committed (ar_region a)) < 2 ^ 64"

lemma arena_wf_eq: "ar.wf = arena_wf"
  by (simp add: fun_eq_iff ar.wf_def arena_wf_def)

lemmas arena_take_bounds = ar.take_some_bounds [unfolded arena_wf_eq]
lemmas arena_takes_bounds = ar.run_takes_bounds [unfolded arena_wf_eq]

section \<open>Properties\<close>

text \<open>
  C33. Any sequence of takes from a well-formed arena (region below \<open>2 ^ 63\<close> bytes, its end
  representable) yields spans that lie inside the region, beyond everything taken before, and
  are pairwise disjoint; the arena stays well-formed.
\<close>

theorem arena_takes_disjoint:
  assumes "arena_wf a" "run_takes arena_take_bytes rs a = (sps, a')"
  shows "arena_wf a' \<and> sorted_wrt span_sep sps \<and>
    (\<forall>x \<in> set sps. unat (r_base (ar_region a)) + unat (ar_offset a) \<le> unat (fst x) \<and>
       unat (fst x) + unat (snd x) \<le>
         unat (r_base (ar_region a)) + unat (r_committed (ar_region a)))"
proof -
  note b = arena_takes_bounds [OF assms]
  then have "unat (ar_offset a') \<le> unat (r_committed (ar_region a))"
    by (auto simp: arena_wf_def word_le_nat_alt)
  with b show ?thesis by fastforce
qed

definition arena_example :: arena where
  "arena_example = arena_new\<lparr>ar_region := make_region 4096 1024 1024 ModelResident\<rparr>"

theorem arena_takes_disjoint_witness:
  "fst (run_takes arena_take_bytes [(100, 256), (2000, 256), (300, 256)] arena_example) =
     [(4096, 100), (4352, 300)] \<and>
   sorted_wrt span_sep [(4096, 100), (4352, 300)]"
proof -
  let ?r = "run_takes arena_take_bytes [(100, 256), (2000, 256), (300, 256)] arena_example"
  have wf: "arena_wf arena_example"
    by (simp add: arena_wf_def arena_example_def arena_new_def make_region_def)
  have f: "fst ?r = [(4096, 100), (4352, 300)]"
    by (simp add: arena_example_def arena_new_def make_region_def arena_take_bytes_def is_pow2_def
        region_valid_def align_up_def Let_def)
  then have "?r = ([(4096, 100), (4352, 300)], snd ?r)" by (metis prod.collapse)
  from arena_takes_disjoint [OF wf this] f show ?thesis by blast
qed



end
