(* ===== verification/Scratch_Stack.thy ===== *)
theory Scratch_Stack
  imports Bump
begin

text \<open>
  \<^verbatim>\<open>src/src/memory/scratch_stack.h\<close>, \<^verbatim>\<open>scratch_stack.cpp\<close>: the LIFO scratch of a forward
  pass. The theory has its operations (release build: an out-of-order mark is reported and
  ignored), the interpretation of the bump interface, and the discipline of nested marks as
  programs of takes and scopes.
\<close>

section \<open>Operations\<close>

record scratch =
  sc_region :: region
  sc_offset :: u64
  sc_high_water :: u64
  sc_depth :: u32
  sc_exhaustions :: u64

record scratch_mark =
  mk_offset :: u64
  mk_depth :: u32

definition scratch_new :: scratch where
  "scratch_new = \<lparr>sc_region = null_region, sc_offset = 0, sc_high_water = 0, sc_depth = 0,
     sc_exhaustions = 0\<rparr>"

definition scratch_open ::
  "(u64 \<Rightarrow> u64 \<Rightarrow> region_tag \<Rightarrow> 'b \<Rightarrow> (mem_error + region) \<times> 'b) \<Rightarrow> u64 \<Rightarrow> region_tag \<Rightarrow>
   scratch \<Rightarrow> 'b \<Rightarrow> mem_error \<times> scratch \<times> 'b" where
  "scratch_open backend_acquire cap tag s be =
     (if region_valid (sc_region s) then (InvalidArgument, s, be)
      else if cap = 0 then (InvalidArgument, s, be)
      else case backend_acquire cap 256 tag be of
        (Inl e, be') \<Rightarrow> (e, s, be')
      | (Inr r, be') \<Rightarrow>
          (Ok, s\<lparr>sc_region := r, sc_offset := 0, sc_high_water := 0, sc_depth := 0,
                 sc_exhaustions := 0\<rparr>, be'))"

definition scratch_close ::
  "(u64 \<Rightarrow> u64 \<Rightarrow> u64 \<Rightarrow> region_tag \<Rightarrow> 'b \<Rightarrow> 'b) \<Rightarrow> scratch \<Rightarrow> 'b \<Rightarrow> scratch \<times> 'b" where
  "scratch_close release s be =
     (if \<not> region_valid (sc_region s) then (s, be)
      else let (r, be') = region_reset release (sc_region s) be in
        (s\<lparr>sc_region := r, sc_offset := 0, sc_depth := 0\<rparr>, be'))"

definition scratch_mark_op :: "scratch \<Rightarrow> scratch_mark \<times> scratch" where
  "scratch_mark_op s =
     (\<lparr>mk_offset = sc_offset s, mk_depth = sc_depth s + 1\<rparr>, s\<lparr>sc_depth := sc_depth s + 1\<rparr>)"

definition scratch_rewind :: "u64 \<Rightarrow> u32 \<Rightarrow> scratch \<Rightarrow> scratch" where
  "scratch_rewind off depth s =
     (if depth \<noteq> sc_depth s then s else s\<lparr>sc_offset := off, sc_depth := sc_depth s - 1\<rparr>)"

text \<open>\<^verbatim>\<open>~Mark\<close> of a mark that was not moved from.\<close>

definition mark_destroy :: "scratch_mark \<Rightarrow> scratch \<Rightarrow> scratch" where
  "mark_destroy m s = scratch_rewind (mk_offset m) (mk_depth m) s"

definition scratch_take_bytes :: "u64 \<Rightarrow> u64 \<Rightarrow> scratch \<Rightarrow> span option \<times> scratch" where
  "scratch_take_bytes bytes alignment s =
     (if bytes = 0 \<or> \<not> is_pow2 alignment then (None, s)
      else if \<not> region_valid (sc_region s) then (None, s)
      else
        let start = align_up (sc_offset s) alignment; cap = r_committed (sc_region s) in
        if cap < start \<or> cap - start < bytes
        then (None, s\<lparr>sc_exhaustions := sc_exhaustions s + 1\<rparr>)
        else (Some (r_base (sc_region s) + start, bytes),
              s\<lparr>sc_offset := start + bytes,
                sc_high_water := max (sc_high_water s) (start + bytes)\<rparr>))"

section \<open>The stack is a bump allocator\<close>

interpretation sc: bump "\<lambda>s. r_base (sc_region s)" "\<lambda>s. r_committed (sc_region s)" sc_offset
  scratch_take_bytes
  by unfold_locales
    (auto simp: scratch_take_bytes_def Let_def region_valid_def not_less split: if_splits)

definition scratch_wf :: "scratch \<Rightarrow> bool" where
  "scratch_wf s \<longleftrightarrow> sc_offset s \<le> r_committed (sc_region s) \<and>
     unat (r_committed (sc_region s)) \<le> 2 ^ 63 \<and>
     unat (r_base (sc_region s)) + unat (r_committed (sc_region s)) < 2 ^ 64"

lemma scratch_wf_eq: "sc.wf = scratch_wf"
  by (simp add: fun_eq_iff sc.wf_def scratch_wf_def)

lemmas scratch_take_bounds = sc.take_some_bounds [unfolded scratch_wf_eq]

lemma scratch_take_frame:
  "scratch_take_bytes n al s = (x, s') \<Longrightarrow> sc_region s' = sc_region s \<and> sc_depth s' = sc_depth s"
  by (auto simp: scratch_take_bytes_def Let_def split: if_splits)

lemma scratch_take_none:
  "scratch_take_bytes n al s = (None, s') \<Longrightarrow> sc_offset s' = sc_offset s"
  by (auto simp: scratch_take_bytes_def Let_def split: if_splits)

section \<open>Nested scopes\<close>

text \<open>
  A forward pass as a program: takes, and scopes that hold a mark while their body runs.
  \<open>run_scratch\<close> carries the spans live at each moment and reports whether every span handed
  out was disjoint from all of them.
\<close>

datatype scratch_op = STake u64 u64 | SScope "scratch_op list"

fun run_scratch :: "scratch_op list \<Rightarrow> span list \<Rightarrow> scratch \<Rightarrow> bool \<times> span list \<times> scratch" where
  "run_scratch [] live s = (True, live, s)"
| "run_scratch (STake n al # ps) live s =
     (case scratch_take_bytes n al s of
        (None, s') \<Rightarrow> run_scratch ps live s'
      | (Some x, s') \<Rightarrow>
          let (ok, l, t) = run_scratch ps (x # live) s'
          in (list_all (span_sep x) live \<and> ok, l, t))"
| "run_scratch (SScope body # ps) live s =
     (let (m, s1) = scratch_mark_op s;
          (ok1, _, s2) = run_scratch body live s1;
          (ok2, l, t) = run_scratch ps live (mark_destroy m s2)
      in (ok1 \<and> ok2, l, t))"

definition below :: "scratch \<Rightarrow> span list \<Rightarrow> bool" where
  "below s live \<longleftrightarrow>
     list_all (\<lambda>x. unat (fst x) + unat (snd x) \<le>
       unat (r_base (sc_region s)) + unat (sc_offset s)) live"

definition same_stack :: "scratch \<Rightarrow> scratch \<Rightarrow> bool" where
  "same_stack s t \<longleftrightarrow> sc_region t = sc_region s \<and> sc_depth t = sc_depth s \<and>
     sc_offset s \<le> sc_offset t"

lemma same_stack_trans: "same_stack s t \<Longrightarrow> same_stack t u \<Longrightarrow> same_stack s u"
  by (auto simp: same_stack_def)

lemma scratch_take_some:
  assumes "scratch_wf s" "below s live" "scratch_take_bytes n al s = (Some x, s')"
  shows "scratch_wf s'" "same_stack s s'" "list_all (span_sep x) live" "below s' (x # live)"
proof -
  note b = scratch_take_bounds [OF assms(1,3)] and f = scratch_take_frame [OF assms(3)]
  show "scratch_wf s'" by (rule b(1))
  have off: "unat (r_base (sc_region s)) + unat (sc_offset s') = unat (fst x) + unat (snd x)"
    using b(2,3,4) by simp
  show "same_stack s s'" using f b(4) off by (simp add: same_stack_def word_le_nat_alt)
  show "list_all (span_sep x) live"
    using assms(2) b(4) by (fastforce simp: below_def span_sep_def list_all_iff)
  show "below s' (x # live)"
    using assms(2) b(4) off f by (fastforce simp: below_def list_all_iff)
qed

lemma scope_restores:
  assumes "scratch_mark_op s = (m, s1)" "same_stack s1 s2"
  shows "mark_destroy m s2 = s2\<lparr>sc_offset := sc_offset s, sc_depth := sc_depth s\<rparr>"
  using assms by (auto simp: scratch_mark_op_def same_stack_def mark_destroy_def
      scratch_rewind_def)

lemma run_scratch_safe:
  "scratch_wf s \<Longrightarrow> below s live \<Longrightarrow> run_scratch ps live s = (ok, l, t) \<Longrightarrow>
     ok \<and> scratch_wf t \<and> same_stack s t \<and> below t l"
proof (induction ps live s arbitrary: ok l t rule: run_scratch.induct)
  case (1 live s)
  then show ?case by (simp add: same_stack_def)
next
  case (2 n al ps live s)
  obtain sp s' where tk: "scratch_take_bytes n al s = (sp, s')" by fastforce
  show ?case
  proof (cases sp)
    case None
    note f = scratch_take_frame [OF tk] scratch_take_none [OF tk [unfolded None]]
    have wf': "scratch_wf s'" "below s' live"
      using 2(3,4) f by (simp_all add: scratch_wf_def below_def)
    have "run_scratch ps live s' = (ok, l, t)" using 2(5) tk None by simp
    from 2(1) [OF tk [symmetric] None wf' this] f show ?thesis by (simp add: same_stack_def)
  next
    case (Some x)
    note sm = scratch_take_some [OF 2(3,4) tk [unfolded Some]]
    obtain ok' l' t' where rest: "run_scratch ps (x # live) s' = (ok', l', t')"
      by (metis prod_cases3)
    then have e: "ok = (list_all (span_sep x) live \<and> ok')" "l' = l" "t' = t"
      using 2(5) tk Some by simp_all
    from 2(2) [OF tk [symmetric] Some sm(1,4) rest]
    show ?thesis using e sm(3) same_stack_trans [OF sm(2)] by simp
  qed
next
  case (3 body ps live s)
  obtain m s1 where mk: "scratch_mark_op s = (m, s1)" by fastforce
  obtain ok1 l1 s2 where b: "run_scratch body live s1 = (ok1, l1, s2)" by (metis prod_cases3)
  let ?s3 = "mark_destroy m s2"
  obtain ok2 l2 t2 where r: "run_scratch ps live ?s3 = (ok2, l2, t2)" by (metis prod_cases3)
  then have e: "ok = (ok1 \<and> ok2)" "l2 = l" "t2 = t" using 3(5) mk b by simp_all
  have s1: "scratch_wf s1" "below s1 live" "sc_region s1 = sc_region s" "sc_offset s1 = sc_offset s"
    using 3(3,4) mk by (auto simp: scratch_mark_op_def scratch_wf_def below_def)
  from 3(1) [OF mk [symmetric] refl s1(1,2) b]
  have i: "ok1" "scratch_wf s2" "same_stack s1 s2" by auto
  have "?s3 = s2\<lparr>sc_offset := sc_offset s, sc_depth := sc_depth s\<rparr>"
    using scope_restores [OF mk i(3)] .
  then have s3: "scratch_wf ?s3" "below ?s3 live" "same_stack s ?s3"
    using 3(3,4) i(3) s1(3) by (auto simp: scratch_wf_def below_def same_stack_def)
  from 3(2) [OF mk [symmetric] refl b [symmetric] refl refl s3(1,2) r]
  show ?case using e i(1) same_stack_trans [OF s3(3)] by simp
qed

section \<open>Properties\<close>

text \<open>
  C34. In any nesting of scopes, each span handed out is disjoint from every span live at
  that moment (those of the enclosing scopes included), the region and the mark depth are as
  before, and nothing live reaches beyond the stack's offset.
\<close>

theorem scratch_scopes_disjoint:
  assumes "scratch_wf s" "run_scratch ps [] s = (ok, l, t)"
  shows "ok \<and> scratch_wf t \<and> sc_region t = sc_region s \<and> sc_depth t = sc_depth s \<and> below t l"
proof -
  have "below s []" by (simp add: below_def)
  from run_scratch_safe [OF assms(1) this assms(2)] show ?thesis by (auto simp: same_stack_def)
qed

definition scratch_example :: scratch where
  "scratch_example = scratch_new\<lparr>sc_region := make_region 4096 1024 1024 ForwardScratch\<rparr>"

definition scratch_program :: "scratch_op list" where
  "scratch_program = [STake 100 256, SScope [STake 200 256, SScope [STake 2000 256]], STake 300 256]"

theorem scratch_scopes_disjoint_witness:
  "\<exists>t. run_scratch scratch_program [] scratch_example = (True, [(4352, 300), (4096, 100)], t) \<and>
     sc_depth t = 0 \<and> sc_exhaustions t = 1"
proof -
  let ?r = "run_scratch scratch_program [] scratch_example"
  have wf: "scratch_wf scratch_example"
    by (simp add: scratch_wf_def scratch_example_def scratch_new_def make_region_def)
  have l: "fst (snd ?r) = [(4352, 300), (4096, 100)]" "sc_exhaustions (snd (snd ?r)) = 1"
    by (simp_all add: scratch_program_def scratch_example_def scratch_new_def make_region_def
        scratch_take_bytes_def is_pow2_def region_valid_def align_up_def scratch_mark_op_def
        mark_destroy_def scratch_rewind_def Let_def)
  have "?r = (fst ?r, fst (snd ?r), snd (snd ?r))" by simp
  from scratch_scopes_disjoint [OF wf this] have "fst ?r" "sc_depth (snd (snd ?r)) = 0"
    by (simp_all add: scratch_example_def scratch_new_def)
  with l show ?thesis by (metis prod.collapse)
qed

text \<open>
  C35. Leaving a scope returns everything taken since it was entered: offset and depth are
  exactly those before the mark, whatever the body did, and only the high-water mark and the
  exhaustion count may have grown.
\<close>

theorem scratch_scope_returns_everything:
  assumes "scratch_wf s" "scratch_mark_op s = (m, s1)" "run_scratch body [] s1 = (ok, l, s2)"
  shows "mark_destroy m s2 =
    s\<lparr>sc_high_water := sc_high_water s2, sc_exhaustions := sc_exhaustions s2\<rparr>"
proof -
  have "scratch_wf s1" "sc_region s1 = sc_region s"
    using assms(1,2) by (auto simp: scratch_mark_op_def scratch_wf_def)
  moreover have "below s1 []" by (simp add: below_def)
  ultimately have "same_stack s1 s2" "sc_region s2 = sc_region s"
    using run_scratch_safe [OF _ _ assms(3)] by (auto simp: same_stack_def)
  with scope_restores [OF assms(2)] show ?thesis by simp
qed

theorem scratch_scope_returns_everything_witness:
  "let (m, s1) = scratch_mark_op scratch_example;
       (ok, l, s2) = run_scratch [STake 100 256] [] s1
   in sc_offset s2 = 100 \<and> sc_offset (mark_destroy m s2) = 0"
proof -
  have wf: "scratch_wf scratch_example"
    by (simp add: scratch_wf_def scratch_example_def scratch_new_def make_region_def)
  obtain m s1 where m: "scratch_mark_op scratch_example = (m, s1)" by fastforce
  obtain ok l s2 where r: "run_scratch [STake 100 256] [] s1 = (ok, l, s2)"
    by (metis prod_cases3)
  have "sc_offset (mark_destroy m s2) = sc_offset scratch_example"
    using scratch_scope_returns_everything [OF wf m r] by simp
  moreover have "sc_offset s2 = 100"
    using m r by (auto simp: scratch_example_def scratch_new_def make_region_def
        scratch_take_bytes_def is_pow2_def region_valid_def align_up_def scratch_mark_op_def
        Let_def)
  ultimately show ?thesis using m r by (simp add: scratch_example_def scratch_new_def)
qed

end
