(* ===== verification/Memory_Plan.thy ===== *)
theory Memory_Plan
  imports Backend
begin

text \<open>
  The memory planner (\<^verbatim>\<open>src/src/memory/plan.h\<close>, \<^verbatim>\<open>plan.cpp\<close>) and the adapter that fills its input
  (\<^verbatim>\<open>src/src/runtime/plan_shadow.cpp\<close>). Sizes are 64-bit words and wrap as \<^verbatim>\<open>size_t\<close> does, counts
  of type \<^verbatim>\<open>int\<close> are integers, and a cast between the two is written out. The operator-facing text of a
  failure (\<^verbatim>\<open>PlanFailure::report\<close>, floating-point formatting) is left out.
\<close>

section \<open>Input\<close>

record model_shape =
  ms_n_layers :: int
  ms_n_kv_layers :: int
  ms_n_kv_heads :: int
  ms_head_dim :: int
  ms_weight_bytes :: u64
  ms_weight_cache_bytes :: u64
  ms_mandatory_cache_bytes :: u64

record feature_set =
  fs_cuda_graphs :: bool
  fs_vision_tower_bytes :: u64
  fs_spec_decode_bytes :: u64
  fs_ssm_state_bytes :: u64
  fs_recurrent_snapshot_bytes :: u64
  fs_residual_ring_bytes :: u64
  fs_swa_live_tokens :: int
  fs_n_swa_layers :: int

record concurrency_limits =
  cl_max_batch_size :: int
  cl_max_seq_len :: int
  cl_kv_block_size :: int
  cl_kv_block_bytes_per_layer :: u64
  cl_min_kv_tokens :: int

record library_reserve_input =
  lr_bytes :: u64
  lr_source :: string

record plan_input =
  in_model :: model_shape
  in_features :: feature_set
  in_limits :: concurrency_limits
  in_library :: library_reserve_input
  in_budget_bytes :: u64
  in_context_bytes :: u64
  in_forward_scratch_bytes :: u64
  in_engine_persistent_bytes :: u64

definition kMeasuredLibraryReserveBytes :: u64 where
  "kMeasuredLibraryReserveBytes = 3900 * 1024 * 1024"

text \<open>The members' default initialisers.\<close>

definition plan_input_new :: plan_input where
  "plan_input_new =
     \<lparr>in_model = \<lparr>ms_n_layers = 0, ms_n_kv_layers = 0, ms_n_kv_heads = 0, ms_head_dim = 0, ms_weight_bytes = 0,
        ms_weight_cache_bytes = 0, ms_mandatory_cache_bytes = 0\<rparr>,
      in_features = \<lparr>fs_cuda_graphs = True, fs_vision_tower_bytes = 0, fs_spec_decode_bytes = 0, fs_ssm_state_bytes = 0,
        fs_recurrent_snapshot_bytes = 0, fs_residual_ring_bytes = 0, fs_swa_live_tokens = 0, fs_n_swa_layers = 0\<rparr>,
      in_limits = \<lparr>cl_max_batch_size = 1, cl_max_seq_len = 0, cl_kv_block_size = 16, cl_kv_block_bytes_per_layer = 0,
        cl_min_kv_tokens = 0\<rparr>,
      in_library = \<lparr>lr_bytes = 0, lr_source = ''unset''\<rparr>,
      in_budget_bytes = 0, in_context_bytes = 0, in_forward_scratch_bytes = 0, in_engine_persistent_bytes = 0\<rparr>"

section \<open>Plan\<close>

record kv_plan =
  kp_blocks :: int
  kp_blocks_per_seq :: int
  kp_swa_blocks :: int
  kp_bytes :: u64
  kp_swa_bytes :: u64
  kp_below_floor :: bool

record plan_line =
  pl_name :: string
  pl_tag :: region_tag
  pl_bytes :: u64

record memory_plan =
  mp_model_resident :: u64
  mp_optional_caches :: u64
  mp_engine_persistent :: u64
  mp_forward_scratch :: u64
  mp_kv :: kv_plan
  mp_pools :: "plan_line list"
  mp_library_reserve :: u64
  mp_context_reserve :: u64

record plan_lever =
  pv_change :: string
  pv_frees :: u64

record plan_failure =
  pf_requested :: u64
  pf_budget :: u64
  pf_over_by :: u64
  pf_lines :: "plan_line list"
  pf_levers :: "plan_lever list"

record plan_result =
  pr_ok :: bool
  pr_plan :: memory_plan
  pr_failure :: plan_failure

definition plan_failure_new :: plan_failure where
  "plan_failure_new = \<lparr>pf_requested = 0, pf_budget = 0, pf_over_by = 0, pf_lines = [], pf_levers = []\<rparr>"

definition plan_push :: "plan_line list \<Rightarrow> string \<Rightarrow> region_tag \<Rightarrow> u64 \<Rightarrow> plan_line list" where
  "plan_push v name tag bytes = (if 0 < bytes then v @ [\<lparr>pl_name = name, pl_tag = tag, pl_bytes = bytes\<rparr>] else v)"

definition pool_bytes :: "plan_line list \<Rightarrow> u64" where
  "pool_bytes pools = fold (\<lambda>q s. s + pl_bytes q) pools 0"

definition plan_total :: "memory_plan \<Rightarrow> u64" where
  "plan_total p =
     fold (\<lambda>q s. s + pl_bytes q) (mp_pools p)
       (mp_context_reserve p + mp_library_reserve p + mp_model_resident p + mp_optional_caches p +
        mp_engine_persistent p + mp_forward_scratch p + kp_bytes (mp_kv p) + kp_swa_bytes (mp_kv p))"

text \<open>\<^verbatim>\<open>stable_sort\<close> by descending bytes.\<close>

definition plan_lines :: "memory_plan \<Rightarrow> plan_line list" where
  "plan_lines p =
     (let v1 = plan_push [] ''model weights + mandatory caches'' ModelResident (mp_model_resident p);
          v2 = plan_push v1 ''optional weight caches'' ModelResident (mp_optional_caches p);
          v3 = plan_push v2 ''KV pool'' KvBlockPool (kp_bytes (mp_kv p));
          v4 = plan_push v3 ''KV pool (SWA group)'' SwaBlockPool (kp_swa_bytes (mp_kv p));
          v5 = plan_push v4 ''engine-persistent'' EnginePersistent (mp_engine_persistent p);
          v6 = plan_push v5 ''forward scratch'' ForwardScratch (mp_forward_scratch p);
          v7 = fold (\<lambda>q v. plan_push v (pl_name q) (pl_tag q) (pl_bytes q)) (mp_pools p) v6;
          v8 = plan_push v7 ''CUDA context + driver'' Other (mp_context_reserve p);
          v9 = plan_push v8 ''library reserve (measured)'' Other (mp_library_reserve p)
      in sort_key (\<lambda>l. - uint (pl_bytes l)) v9)"

text \<open>\<^verbatim>\<open>%lld\<close>, and the text of a lever.\<close>

fun dec_digits :: "nat \<Rightarrow> string" where
  "dec_digits n = (if n < 10 then [char_of (48 + n)] else dec_digits (n div 10) @ [char_of (48 + n mod 10)])"

definition dec_int :: "int \<Rightarrow> string" where
  "dec_int i = (if i < 0 then ''-'' @ dec_digits (nat (- i)) else dec_digits (nat i))"

definition fmt_lever :: "string \<Rightarrow> int \<Rightarrow> int \<Rightarrow> string" where
  "fmt_lever key from_v to_v = take 159 (key @ '' '' @ dec_int from_v @ '' -> '' @ dec_int to_v)"

section \<open>The planner\<close>

text \<open>\<^verbatim>\<open>(tokens + bs - 1) / bs\<close>, on values that are not negative.\<close>

definition ceil_blocks :: "int \<Rightarrow> int \<Rightarrow> int" where
  "ceil_blocks tokens bs = (tokens + bs - 1) div bs"

definition plan_bs :: "plan_input \<Rightarrow> int" where
  "plan_bs pin = (if 0 < cl_kv_block_size (in_limits pin) then cl_kv_block_size (in_limits pin) else 16)"

definition plan_batch :: "plan_input \<Rightarrow> int" where
  "plan_batch pin = max 1 (cl_max_batch_size (in_limits pin))"

definition plan_seq :: "plan_input \<Rightarrow> int" where
  "plan_seq pin = max 0 (cl_max_seq_len (in_limits pin))"

definition swa_grouped :: "plan_input \<Rightarrow> bool" where
  "swa_grouped pin \<longleftrightarrow> 0 < fs_swa_live_tokens (in_features pin) \<and> 0 < fs_n_swa_layers (in_features pin) \<and>
     fs_n_swa_layers (in_features pin) \<le> ms_n_kv_layers (in_model pin)"

text \<open>Steps 1 to 4: the fixed charges, with an empty global pool.\<close>

definition plan_fixed :: "plan_input \<Rightarrow> memory_plan" where
  "plan_fixed pin =
     (let m = in_model pin; f = in_features pin;
          mandatory_caches = min (ms_mandatory_cache_bytes m) (ms_weight_cache_bytes m);
          pools1 = plan_push [] ''SSM/GDN state'' SsmState (fs_ssm_state_bytes f);
          pools2 = plan_push pools1 ''recurrent snapshots'' RecurrentSnapshots (fs_recurrent_snapshot_bytes f);
          pools3 = plan_push pools2 ''residual FP16 ring'' ResidualRing (fs_residual_ring_bytes f);
          per_seq = ceil_blocks (fs_swa_live_tokens f) (plan_bs pin) + 1;
          swa_blocks = (if swa_grouped pin then per_seq * plan_batch pin else 0);
          swa_bytes = (if swa_grouped pin
            then of_int swa_blocks * cl_kv_block_bytes_per_layer (in_limits pin) * of_int (fs_n_swa_layers f) else 0)
      in \<lparr>mp_model_resident = ms_weight_bytes m + mandatory_caches, mp_optional_caches = 0,
          mp_engine_persistent = in_engine_persistent_bytes pin + fs_vision_tower_bytes f + fs_spec_decode_bytes f,
          mp_forward_scratch = in_forward_scratch_bytes pin,
          mp_kv = \<lparr>kp_blocks = 0, kp_blocks_per_seq = ceil_blocks (plan_seq pin) (plan_bs pin), kp_swa_blocks = swa_blocks,
            kp_bytes = 0, kp_swa_bytes = swa_bytes, kp_below_floor = False\<rparr>,
          mp_pools = pools3, mp_library_reserve = lr_bytes (in_library pin), mp_context_reserve = in_context_bytes pin\<rparr>)"

definition optional_cache_demand :: "plan_input \<Rightarrow> u64" where
  "optional_cache_demand pin =
     ms_weight_cache_bytes (in_model pin) -
       min (ms_mandatory_cache_bytes (in_model pin)) (ms_weight_cache_bytes (in_model pin))"

definition plan_committed :: "memory_plan \<Rightarrow> u64" where
  "plan_committed p =
     mp_context_reserve p + mp_library_reserve p + mp_model_resident p + mp_engine_persistent p +
     mp_forward_scratch p + kp_swa_bytes (mp_kv p) + pool_bytes (mp_pools p)"

definition n_global_layers :: "plan_input \<Rightarrow> int" where
  "n_global_layers pin =
     (if swa_grouped pin then ms_n_kv_layers (in_model pin) - fs_n_swa_layers (in_features pin)
      else ms_n_kv_layers (in_model pin))"

definition per_block :: "plan_input \<Rightarrow> u64" where
  "per_block pin = cl_kv_block_bytes_per_layer (in_limits pin) * of_int (max 0 (n_global_layers pin))"

text \<open>Step 5: the optional caches and the global pool share the residual.\<close>

definition cast_int :: "u64 \<Rightarrow> int" where
  "cast_int x = sint (ucast x :: u32)"

definition plan_residual :: "plan_input \<Rightarrow> memory_plan \<Rightarrow> memory_plan" where
  "plan_residual pin p =
     (let committed = plan_committed p; pb = per_block pin; bps = kp_blocks_per_seq (mp_kv p) in
      if in_budget_bytes pin \<le> committed \<or> pb = 0 then p\<lparr>mp_kv := (mp_kv p)\<lparr>kp_blocks := 0, kp_bytes := 0\<rparr>\<rparr>
      else
        let residual = in_budget_bytes pin - committed;
            kv_floor_bytes = of_int bps * pb;
            grantable = (if kv_floor_bytes < residual then residual - kv_floor_bytes else 0);
            optional_caches = min (optional_cache_demand pin) grantable;
            kv_residual = residual - optional_caches;
            want_blocks = bps * plan_batch pin;
            fits_blocks = cast_int (kv_residual div pb);
            blocks = min want_blocks fits_blocks
        in p\<lparr>mp_optional_caches := optional_caches,
             mp_kv := (mp_kv p)\<lparr>kp_blocks := blocks, kp_bytes := of_int blocks * pb\<rparr>\<rparr>)"

definition floor_blocks :: "plan_input \<Rightarrow> int" where
  "floor_blocks pin =
     (if 0 < cl_min_kv_tokens (in_limits pin) then ceil_blocks (cl_min_kv_tokens (in_limits pin)) (plan_bs pin) else 0)"

definition plan_levers :: "plan_input \<Rightarrow> memory_plan \<Rightarrow> plan_lever list" where
  "plan_levers pin p =
     (let seq = plan_seq pin; bs = plan_bs pin; batch = plan_batch pin; kv = mp_kv p; pb = per_block pin;
          l1 = (if 256 < seq \<and> 0 < pb
            then [\<lparr>pv_change = fmt_lever ''runtime.max_seq_len'' seq (seq div 2),
                   pv_frees = of_int (kp_blocks_per_seq kv - ceil_blocks (seq div 2) bs) * pb * of_int batch\<rparr>] else []);
          l2 = (if 1 < batch
            then [\<lparr>pv_change = fmt_lever ''runtime.max_batch_size'' batch (batch - 1),
                   pv_frees = kp_bytes kv div of_int batch + kp_swa_bytes kv div of_int batch\<rparr>] else []);
          l3 = (if 0 < kp_bytes kv then [\<lparr>pv_change = ''kv_cache.dtype f16 -> fp8'', pv_frees = kp_bytes kv div 2\<rparr>] else []);
          l4 = (if ms_mandatory_cache_bytes (in_model pin) < ms_weight_cache_bytes (in_model pin)
            then [\<lparr>pv_change = ''drop the optional weight caches'',
                   pv_frees = ms_weight_cache_bytes (in_model pin) - ms_mandatory_cache_bytes (in_model pin)\<rparr>] else [])
      in take 3 (sort_key (\<lambda>l. - uint (pv_frees l)) (l1 @ l2 @ l3 @ l4)))"

definition plan_memory :: "plan_input \<Rightarrow> plan_result" where
  "plan_memory pin =
     (let p1 = plan_residual pin (plan_fixed pin);
          below = (0 < floor_blocks pin \<and> kp_blocks (mp_kv p1) < floor_blocks pin);
          p = p1\<lparr>mp_kv := (mp_kv p1)\<lparr>kp_below_floor := below\<rparr>\<rparr>;
          tot = plan_total p;
          need = of_int (floor_blocks pin) * per_block pin in
      if tot \<le> in_budget_bytes pin \<and> \<not> below
      then \<lparr>pr_ok = True, pr_plan = p, pr_failure = plan_failure_new\<rparr>
      else
        let requested = (if below then tot - kp_bytes (mp_kv p) + need else tot);
            ls = plan_lines p;
            ls1 = (if below then map (\<lambda>l. if pl_tag l = KvBlockPool then l\<lparr>pl_bytes := need\<rparr> else l) ls else ls)
        in \<lparr>pr_ok = False, pr_plan = p,
            pr_failure = \<lparr>pf_requested = requested, pf_budget = in_budget_bytes pin,
              pf_over_by = (if in_budget_bytes pin < requested then requested - in_budget_bytes pin else 0),
              pf_lines = ls1, pf_levers = plan_levers pin p\<rparr>\<rparr>)"

section \<open>The adapter\<close>

record shadow_probe =
  sp_distributable_bytes :: u64
  sp_weight_cache_demand :: u64
  sp_mandatory_cache_bytes :: u64
  sp_ssm_state_bytes :: u64
  sp_engine_persistent_bytes :: u64
  sp_library_reserve_bytes :: u64
  sp_n_kv_layers :: int
  sp_n_swa_layers :: int
  sp_swa_live_tokens :: int
  sp_max_batch_size :: int
  sp_max_seq_len :: int
  sp_kv_block_size :: int
  sp_min_kv_tokens :: int
  sp_kv_block_bytes_per_layer :: u64
  sp_workspace_estimate_available :: bool
  sp_vision_tower_unmodelled :: bool

definition shadow_plan_input :: "shadow_probe \<Rightarrow> plan_input" where
  "shadow_plan_input probe =
     (let d = plan_input_new in
      d\<lparr>in_budget_bytes := sp_distributable_bytes probe, in_context_bytes := 0,
        in_model := (in_model d)\<lparr>ms_weight_bytes := 0, ms_n_kv_layers := sp_n_kv_layers probe,
          ms_weight_cache_bytes := sp_weight_cache_demand probe, ms_mandatory_cache_bytes := sp_mandatory_cache_bytes probe\<rparr>,
        in_features := (in_features d)\<lparr>fs_ssm_state_bytes := sp_ssm_state_bytes probe,
          fs_n_swa_layers := sp_n_swa_layers probe, fs_swa_live_tokens := sp_swa_live_tokens probe\<rparr>,
        in_limits := (in_limits d)\<lparr>cl_max_batch_size := sp_max_batch_size probe, cl_max_seq_len := sp_max_seq_len probe,
          cl_kv_block_size := sp_kv_block_size probe,
          cl_kv_block_bytes_per_layer := sp_kv_block_bytes_per_layer probe, cl_min_kv_tokens := sp_min_kv_tokens probe\<rparr>,
        in_engine_persistent_bytes := sp_engine_persistent_bytes probe, in_forward_scratch_bytes := 0,
        in_library := \<lparr>lr_bytes = sp_library_reserve_bytes probe, lr_source = ''vram.library_reserve_mb''\<rparr>\<rparr>)"

section \<open>Exact arithmetic\<close>

text \<open>The charges as natural numbers, and the inputs on which nothing wraps around.\<close>

definition layer_bytes :: "plan_input \<Rightarrow> nat" where
  "layer_bytes pin = unat (cl_kv_block_bytes_per_layer (in_limits pin))"

definition block_charge :: "plan_input \<Rightarrow> nat" where
  "block_charge pin = layer_bytes pin * nat (n_global_layers pin)"

definition swa_charge :: "plan_input \<Rightarrow> nat" where
  "swa_charge pin =
     (if swa_grouped pin
      then nat ((ceil_blocks (fs_swa_live_tokens (in_features pin)) (plan_bs pin) + 1) * plan_batch pin) *
        layer_bytes pin * nat (fs_n_swa_layers (in_features pin)) else 0)"

definition fixed_charge :: "plan_input \<Rightarrow> nat" where
  "fixed_charge pin =
     (let m = in_model pin; f = in_features pin in
      unat (in_context_bytes pin) + unat (lr_bytes (in_library pin)) +
      unat (ms_weight_bytes m) + unat (min (ms_mandatory_cache_bytes m) (ms_weight_cache_bytes m)) +
      unat (in_engine_persistent_bytes pin) + unat (fs_vision_tower_bytes f) + unat (fs_spec_decode_bytes f) +
      unat (in_forward_scratch_bytes pin) + swa_charge pin +
      unat (fs_ssm_state_bytes f) + unat (fs_recurrent_snapshot_bytes f) + unat (fs_residual_ring_bytes f))"

definition seq_blocks_wanted :: "plan_input \<Rightarrow> nat" where
  "seq_blocks_wanted pin = nat (ceil_blocks (plan_seq pin) (plan_bs pin))"

definition blocks_wanted :: "plan_input \<Rightarrow> nat" where
  "blocks_wanted pin = seq_blocks_wanted pin * nat (plan_batch pin)"

definition plan_sane :: "plan_input \<Rightarrow> bool" where
  "plan_sane pin \<longleftrightarrow>
     fixed_charge pin + unat (optional_cache_demand pin) + blocks_wanted pin * block_charge pin < 2 ^ 64 \<and>
     block_charge pin < 2 ^ 64 \<and> unat (in_budget_bytes pin) div block_charge pin < 2 ^ 31"

lemma ceil_blocks_nonneg: "0 \<le> t \<Longrightarrow> 0 < bs \<Longrightarrow> 0 \<le> ceil_blocks t bs"
  by (simp add: ceil_blocks_def pos_imp_zdiv_nonneg_iff)

lemma plan_bs_pos: "0 < plan_bs pin" "0 \<le> plan_seq pin" "1 \<le> plan_batch pin"
  by (simp_all add: plan_bs_def plan_seq_def plan_batch_def)

lemma word_unat: "w = of_nat (unat w)" for w :: u64
  by simp

lemma of_int_nat: "0 \<le> i \<Longrightarrow> (of_int i :: u64) = of_nat (nat i)"
  by (metis int_nat_eq of_int_of_nat_eq)

lemma swa_bytes_charge: "kp_swa_bytes (mp_kv (plan_fixed pin)) = of_nat (swa_charge pin)"
proof (cases "swa_grouped pin")
  case True
  let ?n = "(ceil_blocks (fs_swa_live_tokens (in_features pin)) (plan_bs pin) + 1) * plan_batch pin"
  have "0 \<le> fs_swa_live_tokens (in_features pin)" "0 \<le> fs_n_swa_layers (in_features pin)"
    using True by (simp_all add: swa_grouped_def)
  then have "0 \<le> ceil_blocks (fs_swa_live_tokens (in_features pin)) (plan_bs pin)"
    using plan_bs_pos(1) by (simp add: ceil_blocks_nonneg)
  then have n: "0 \<le> ?n" using plan_bs_pos(3) [of pin] by simp
  have "kp_swa_bytes (mp_kv (plan_fixed pin)) =
      of_int ?n * cl_kv_block_bytes_per_layer (in_limits pin) * of_int (fs_n_swa_layers (in_features pin))"
    using True by (simp add: plan_fixed_def Let_def)
  also have "\<dots> = of_nat (nat ?n) * of_nat (layer_bytes pin) * of_nat (nat (fs_n_swa_layers (in_features pin)))"
    unfolding of_int_nat [OF n] of_int_nat [OF \<open>0 \<le> fs_n_swa_layers (in_features pin)\<close>] by (simp add: layer_bytes_def)
  finally show ?thesis unfolding swa_charge_def using True by (simp only: of_nat_mult if_True)
qed (simp add: plan_fixed_def Let_def swa_charge_def)

lemma pool_bytes_push: "pool_bytes (plan_push v name tag b) = pool_bytes v + b"
proof (cases "0 < b")
  case False
  then have "b = 0" using word_gt_0 by blast
  then show ?thesis by (simp add: plan_push_def)
qed (simp add: plan_push_def pool_bytes_def)

lemma committed_charge: "plan_committed (plan_fixed pin) = of_nat (fixed_charge pin)"
proof -
  have "mp_pools (plan_fixed pin) = plan_push (plan_push (plan_push [] ''SSM/GDN state'' SsmState (fs_ssm_state_bytes (in_features pin)))
      ''recurrent snapshots'' RecurrentSnapshots (fs_recurrent_snapshot_bytes (in_features pin)))
      ''residual FP16 ring'' ResidualRing (fs_residual_ring_bytes (in_features pin))"
    by (simp add: plan_fixed_def Let_def)
  then have "pool_bytes (mp_pools (plan_fixed pin)) = fs_ssm_state_bytes (in_features pin) +
      fs_recurrent_snapshot_bytes (in_features pin) + fs_residual_ring_bytes (in_features pin)"
    by (simp only: pool_bytes_push) (simp add: pool_bytes_def)
  then show ?thesis unfolding plan_committed_def swa_bytes_charge
    by (simp add: plan_fixed_def Let_def fixed_charge_def algebra_simps)
qed

lemma per_block_charge: "per_block pin = of_nat (block_charge pin)"
proof -
  have "(of_int (max 0 (n_global_layers pin)) :: u64) = of_nat (nat (n_global_layers pin))"
  proof -
    have "max 0 (n_global_layers pin) = int (nat (n_global_layers pin))" by simp
    then show ?thesis by (simp only: of_int_of_nat_eq)
  qed
  then show ?thesis unfolding per_block_def block_charge_def layer_bytes_def by (simp only: of_nat_mult) simp
qed

lemma cast_int_small: "unat x < 2 ^ 31 \<Longrightarrow> cast_int x = int (unat x)"
  using sint_small [of "unat x"] by (simp add: cast_int_def)

text \<open>The residual step in exact arithmetic.\<close>

definition optional_granted :: "plan_input \<Rightarrow> nat" where
  "optional_granted pin =
     (if unat (in_budget_bytes pin) \<le> fixed_charge pin \<or> block_charge pin = 0 then 0
      else min (unat (optional_cache_demand pin))
        (unat (in_budget_bytes pin) - fixed_charge pin - seq_blocks_wanted pin * block_charge pin))"

definition blocks_granted :: "plan_input \<Rightarrow> nat" where
  "blocks_granted pin =
     (if unat (in_budget_bytes pin) \<le> fixed_charge pin \<or> block_charge pin = 0 then 0
      else min (blocks_wanted pin)
        ((unat (in_budget_bytes pin) - fixed_charge pin - optional_granted pin) div block_charge pin))"

lemma planned_bps: "kp_blocks_per_seq (mp_kv (plan_fixed pin)) = int (seq_blocks_wanted pin)"
  using ceil_blocks_nonneg [of "plan_seq pin" "plan_bs pin"] plan_bs_pos [of pin]
  by (simp add: plan_fixed_def Let_def seq_blocks_wanted_def)

lemma unat_diff64: "unat b \<le> unat a \<Longrightarrow> unat (a - b) = unat a - unat b" for a b :: u64
  by (simp add: unat_sub word_le_nat_alt)

lemma unat_min64: "unat (min a b) = min (unat a) (unat b)" for a b :: u64
  by (simp add: min_def word_le_nat_alt)

lemma seq_le_wanted: "seq_blocks_wanted pin \<le> blocks_wanted pin"
proof -
  have "1 \<le> nat (plan_batch pin)" using plan_bs_pos(3) [of pin] by simp
  then show ?thesis by (simp add: blocks_wanted_def)
qed

lemma residual_exact:
  assumes "plan_sane pin"
  shows "plan_residual pin (plan_fixed pin) =
    (plan_fixed pin)\<lparr>mp_optional_caches := of_nat (optional_granted pin),
      mp_kv := (mp_kv (plan_fixed pin))\<lparr>kp_blocks := int (blocks_granted pin),
        kp_bytes := of_nat (blocks_granted pin * block_charge pin)\<rparr>\<rparr>"
proof -
  let ?B = "unat (in_budget_bytes pin)" and ?C = "fixed_charge pin" and ?pb = "block_charge pin"
  let ?F = "seq_blocks_wanted pin * ?pb"
  have "?F \<le> blocks_wanted pin * ?pb" by (rule mult_le_mono1 [OF seq_le_wanted])
  then have small: "?C < 2 ^ 64" "?pb < 2 ^ 64" "?F < 2 ^ 64" "?B div ?pb < 2 ^ 31"
    using assms unfolding plan_sane_def by linarith+
  have c: "unat (plan_committed (plan_fixed pin)) = ?C" "unat (per_block pin) = ?pb"
    unfolding committed_charge per_block_charge using small by (simp_all only: unat_of_nat64)
  have guard: "(in_budget_bytes pin \<le> plan_committed (plan_fixed pin) \<or> per_block pin = 0) \<longleftrightarrow> ?B \<le> ?C \<or> ?pb = 0"
    using c by (metis word_le_nat_alt unat_eq_zero)
  show ?thesis
  proof (cases "?B \<le> ?C \<or> ?pb = 0")
    case True
    with guard show ?thesis
      by (simp add: plan_residual_def Let_def optional_granted_def blocks_granted_def) (simp add: plan_fixed_def Let_def)
  next
    case False
    define res where "res = in_budget_bytes pin - plan_committed (plan_fixed pin)"
    define fl where "fl = (of_int (int (seq_blocks_wanted pin)) :: u64) * per_block pin"
    define opt where "opt = min (optional_cache_demand pin) (if fl < res then res - fl else 0)"
    have r: "unat res = ?B - ?C" unfolding res_def using c False by (simp add: unat_diff64)
    have "fl = of_nat ?F" by (simp add: fl_def per_block_charge)
    then have f: "unat fl = ?F" using small(3) by (simp only: unat_of_nat64)
    have "unat (if fl < res then res - fl else 0) = ?B - ?C - ?F"
      using r f by (simp add: word_less_nat_alt unat_diff64)
    then have o: "unat opt = optional_granted pin" using False by (simp add: opt_def unat_min64 optional_granted_def)
    then have o': "opt = of_nat (optional_granted pin)" by (metis word_unat)
    have le: "optional_granted pin \<le> ?B - ?C" using False by (simp add: optional_granted_def)
    have q: "unat ((res - opt) div per_block pin) = (?B - ?C - optional_granted pin) div ?pb"
      unfolding unat_div c using r o le by (simp add: unat_diff64)
    have "(?B - ?C - optional_granted pin) div ?pb \<le> ?B div ?pb" by (rule div_le_mono) simp
    then have "cast_int ((res - opt) div per_block pin) = int ((?B - ?C - optional_granted pin) div ?pb)"
      using cast_int_small [of "(res - opt) div per_block pin"] small(4) q by simp
    then have b: "min (int (seq_blocks_wanted pin) * plan_batch pin) (cast_int ((res - opt) div per_block pin)) =
        int (blocks_granted pin)"
      using False plan_bs_pos(3) [of pin] by (simp add: blocks_granted_def blocks_wanted_def of_nat_min)
    have "(of_int (int (blocks_granted pin)) :: u64) * per_block pin = of_nat (blocks_granted pin * ?pb)"
      by (simp add: per_block_charge)
    with guard False b o' show ?thesis
      unfolding plan_residual_def Let_def planned_bps res_def [symmetric] fl_def [symmetric] opt_def [symmetric] by simp
  qed
qed

lemma fold_pools: "fold (\<lambda>q s. s + pl_bytes q) pools x = x + pool_bytes pools"
proof -
  have "fold (\<lambda>q s. s + pl_bytes q) pools (x + y) = x + fold (\<lambda>q s. s + pl_bytes q) pools y" for y
    by (induction pools arbitrary: y) (simp_all add: add.assoc)
  from this [of 0] show ?thesis by (simp add: pool_bytes_def)
qed

lemma plan_total_committed:
  "plan_total p = plan_committed p + mp_optional_caches p + kp_bytes (mp_kv p)"
  unfolding plan_total_def plan_committed_def fold_pools by (simp add: algebra_simps)

lemma granted_bounds:
  "optional_granted pin \<le> unat (optional_cache_demand pin)" "blocks_granted pin \<le> blocks_wanted pin"
  by (simp_all add: optional_granted_def blocks_granted_def)

lemma granted_fit:
  assumes "fixed_charge pin \<le> unat (in_budget_bytes pin)"
  shows "fixed_charge pin + optional_granted pin + blocks_granted pin * block_charge pin \<le> unat (in_budget_bytes pin)"
proof (cases "unat (in_budget_bytes pin) \<le> fixed_charge pin \<or> block_charge pin = 0")
  case False
  let ?R = "unat (in_budget_bytes pin) - fixed_charge pin"
  have "blocks_granted pin \<le> (?R - optional_granted pin) div block_charge pin" using False by (simp add: blocks_granted_def)
  then have "blocks_granted pin * block_charge pin \<le> ?R - optional_granted pin"
    using False by (simp add: less_eq_div_iff_mult_less_eq)
  moreover have "optional_granted pin \<le> ?R" using False by (simp add: optional_granted_def)
  ultimately show ?thesis using assms by linarith
qed (use assms in \<open>auto simp: optional_granted_def blocks_granted_def\<close>)

lemma granted_floor:
  assumes "0 < optional_granted pin"
  shows "seq_blocks_wanted pin \<le> blocks_granted pin"
proof -
  let ?R = "unat (in_budget_bytes pin) - fixed_charge pin" and ?pb = "block_charge pin"
  have n: "\<not> (unat (in_budget_bytes pin) \<le> fixed_charge pin \<or> ?pb = 0)"
    using assms by (auto simp: optional_granted_def split: if_splits)
  then have "optional_granted pin \<le> ?R - seq_blocks_wanted pin * ?pb" by (simp add: optional_granted_def)
  then have "seq_blocks_wanted pin * ?pb \<le> ?R - optional_granted pin" using assms by linarith
  then have "seq_blocks_wanted pin \<le> (?R - optional_granted pin) div ?pb"
    using n by (simp add: less_eq_div_iff_mult_less_eq)
  with n show ?thesis using seq_le_wanted by (simp add: blocks_granted_def)
qed

lemma granted_maximal:
  assumes "fixed_charge pin < unat (in_budget_bytes pin)" "0 < block_charge pin" "blocks_granted pin < blocks_wanted pin"
  shows "unat (in_budget_bytes pin) <
    fixed_charge pin + optional_granted pin + Suc (blocks_granted pin) * block_charge pin"
proof -
  let ?R = "unat (in_budget_bytes pin) - fixed_charge pin" and ?pb = "block_charge pin"
  have "blocks_granted pin = (?R - optional_granted pin) div ?pb" using assms by (simp add: blocks_granted_def min_def split: if_splits)
  then have "?R - optional_granted pin < Suc (blocks_granted pin) * ?pb"
    using dividend_less_div_times [OF assms(2), of "?R - optional_granted pin"] by (simp add: add.commute)
  then show ?thesis by linarith
qed

lemma planned:
  assumes "plan_sane pin"
  shows "kp_blocks (mp_kv (pr_plan (plan_memory pin))) = int (blocks_granted pin)"
    "unat (mp_optional_caches (pr_plan (plan_memory pin))) = optional_granted pin"
    "unat (plan_total (pr_plan (plan_memory pin))) =
       fixed_charge pin + optional_granted pin + blocks_granted pin * block_charge pin"
    "pr_ok (plan_memory pin) \<longleftrightarrow> plan_total (pr_plan (plan_memory pin)) \<le> in_budget_bytes pin \<and>
       (floor_blocks pin \<le> 0 \<or> floor_blocks pin \<le> int (blocks_granted pin))"
proof -
  let ?p = "pr_plan (plan_memory pin)" and ?T = "fixed_charge pin + optional_granted pin + blocks_granted pin * block_charge pin"
  obtain b where p: "?p = (plan_fixed pin)\<lparr>mp_optional_caches := of_nat (optional_granted pin),
      mp_kv := (mp_kv (plan_fixed pin))\<lparr>kp_blocks := int (blocks_granted pin),
        kp_bytes := of_nat (blocks_granted pin * block_charge pin), kp_below_floor := b\<rparr>\<rparr>"
  proof -
    have "\<exists>b. ?p = (plan_residual pin (plan_fixed pin))\<lparr>mp_kv := (mp_kv (plan_residual pin (plan_fixed pin)))\<lparr>kp_below_floor := b\<rparr>\<rparr>"
      unfolding plan_memory_def Let_def by (auto split: if_split)
    with that show thesis unfolding residual_exact [OF assms] by auto
  qed
  show "kp_blocks (mp_kv ?p) = int (blocks_granted pin)" unfolding p by simp
  have lt: "?T < 2 ^ 64"
    using assms mult_le_mono1 [OF granted_bounds(2), of pin "block_charge pin"] granted_bounds(1) [of pin]
    unfolding plan_sane_def by linarith
  then have "optional_granted pin < 2 ^ 64" by linarith
  then show "unat (mp_optional_caches ?p) = optional_granted pin" unfolding p by (simp add: unat_of_nat64)
  have "plan_committed ?p = plan_committed (plan_fixed pin)" unfolding p by (simp add: plan_committed_def)
  then have "plan_total ?p = of_nat ?T" unfolding plan_total_committed committed_charge by (simp add: p)
  with lt show "unat (plan_total ?p) = ?T" by (simp only: unat_of_nat64)
  show "pr_ok (plan_memory pin) \<longleftrightarrow> plan_total ?p \<le> in_budget_bytes pin \<and>
       (floor_blocks pin \<le> 0 \<or> floor_blocks pin \<le> int (blocks_granted pin))"
    by (auto simp: plan_memory_def Let_def residual_exact [OF assms])
qed

text \<open>
  C18. The memory plan is exact: on inputs whose sums do not wrap around, a plan is accepted exactly
  when the fixed charges fit the budget and the block pool reaches the requested floor; the total of an accepted
  plan is within the budget; the pool takes no more than the limits ask for and one more block would not
  have fitted; and optional weight caches are granted only above one full sequence of blocks.
\<close>

theorem plan_memory_exact:
  assumes "plan_sane pin" "r = plan_memory pin" "kv = mp_kv (pr_plan r)" "B = unat (in_budget_bytes pin)"
    and "T = unat (plan_total (pr_plan r))" "opt = unat (mp_optional_caches (pr_plan r))"
  shows "(pr_ok r \<longleftrightarrow> fixed_charge pin \<le> B \<and> (floor_blocks pin \<le> 0 \<or> floor_blocks pin \<le> kp_blocks kv)) \<and>
    T = fixed_charge pin + opt + nat (kp_blocks kv) * block_charge pin \<and>
    (pr_ok r \<longrightarrow> T \<le> B) \<and>
    0 \<le> kp_blocks kv \<and> kp_blocks kv \<le> int (blocks_wanted pin) \<and>
    (fixed_charge pin < B \<and> 0 < block_charge pin \<and> kp_blocks kv < int (blocks_wanted pin) \<longrightarrow> B < T + block_charge pin) \<and>
    opt \<le> unat (optional_cache_demand pin) \<and> (0 < opt \<longrightarrow> int (seq_blocks_wanted pin) \<le> kp_blocks kv)"
proof -
  note e = planned [OF assms(1)]
  have k: "kp_blocks kv = int (blocks_granted pin)" "opt = optional_granted pin"
    "T = fixed_charge pin + optional_granted pin + blocks_granted pin * block_charge pin"
    using assms(2-6) e(1-3) by simp_all
  have fit: "T \<le> B \<longleftrightarrow> fixed_charge pin \<le> B"
    using granted_fit [of pin] unfolding k(3) assms(4) by linarith
  have ok: "pr_ok r \<longleftrightarrow> T \<le> B \<and> (floor_blocks pin \<le> 0 \<or> floor_blocks pin \<le> int (blocks_granted pin))"
    unfolding assms(2,4,5) e(4) word_le_nat_alt by simp
  have "B < T + block_charge pin"
    if "fixed_charge pin < B" "0 < block_charge pin" "blocks_granted pin < blocks_wanted pin"
    using granted_maximal [of pin] that unfolding k(3) assms(4) by simp
  with ok fit k granted_bounds [of pin] granted_floor [of pin] show ?thesis by auto
qed

text \<open>Four layers with blocks of 10 bytes each, one sequence of 256 tokens, no floor.\<close>

definition example_plan :: plan_input where
  "example_plan = plan_input_new\<lparr>in_model := (in_model plan_input_new)\<lparr>ms_n_kv_layers := 4, ms_weight_bytes := 500\<rparr>,
     in_limits := (in_limits plan_input_new)\<lparr>cl_max_seq_len := 256, cl_kv_block_bytes_per_layer := 10\<rparr>,
     in_budget_bytes := 1000\<rparr>"

lemma example_plan_charges:
  "fixed_charge example_plan = 500" "block_charge example_plan = 40" "seq_blocks_wanted example_plan = 16"
  "blocks_wanted example_plan = 16" "floor_blocks example_plan = 0" "unat (optional_cache_demand example_plan) = 0"
  "unat (in_budget_bytes example_plan) = 1000"
  by (simp_all add: example_plan_def plan_input_new_def fixed_charge_def swa_charge_def swa_grouped_def block_charge_def
      layer_bytes_def n_global_layers_def seq_blocks_wanted_def blocks_wanted_def ceil_blocks_def plan_seq_def plan_bs_def
      plan_batch_def floor_blocks_def optional_cache_demand_def)

theorem plan_memory_exact_witness:
  "pr_ok (plan_memory example_plan) \<and> kp_blocks (mp_kv (pr_plan (plan_memory example_plan))) = 12 \<and>
     seq_blocks_wanted example_plan = 16"
proof -
  have "plan_sane example_plan" by (simp add: plan_sane_def example_plan_charges)
  from plan_memory_exact [OF this refl refl refl refl refl] show ?thesis unfolding example_plan_charges by auto
qed

end
