(* ===== verification/Block_Pool.thy ===== *)
theory Block_Pool
  imports Backend
begin

text \<open>
  \<^verbatim>\<open>src/src/memory/block_pool.h\<close>, \<^verbatim>\<open>block_pool.cpp\<close>: one region carved into fixed-size
  blocks with a free list and per-block reference counts. A \<^verbatim>\<open>BlockRef\<close> is the id it
  holds, \<open>-1\<close> for the empty handle. The theory has the operations, the pool invariant, the
  interface \<open>ref_pool\<close> that the owners of references rely on (its client lemmas are about
  the multiset of references in existence) and its interpretation on the operations.
  Reference counts are unbounded integers: a C++ \<^verbatim>\<open>int\<close> overflows only after more than
  \<open>2 ^ 31\<close> references to one block.
\<close>

section \<open>Operations\<close>

record block_pool =
  bp_region :: region
  bp_open :: bool
  bp_block_bytes :: u64
  bp_num_blocks :: int
  bp_refcount :: "int list"
  bp_free_list :: "int list"

definition closed_pool :: block_pool where
  "closed_pool = \<lparr>bp_region = null_region, bp_open = False, bp_block_bytes = 0,
     bp_num_blocks = 0, bp_refcount = [], bp_free_list = []\<rparr>"

definition init_slots :: "int \<Rightarrow> block_pool \<Rightarrow> block_pool" where
  "init_slots n p = p\<lparr>bp_open := True, bp_num_blocks := n,
     bp_refcount := replicate (nat n) 0, bp_free_list := rev [0..n - 1]\<rparr>"

definition pool_open ::
  "(u64 \<Rightarrow> u64 \<Rightarrow> region_tag \<Rightarrow> 'b \<Rightarrow> (mem_error + region) \<times> 'b) \<Rightarrow> u64 \<Rightarrow> int \<Rightarrow> region_tag \<Rightarrow>
   block_pool \<Rightarrow> 'b \<Rightarrow> mem_error \<times> block_pool \<times> 'b" where
  "pool_open backend_acquire block_bytes n tag p be =
     (if bp_open p then (InvalidArgument, p, be)
      else if block_bytes = 0 \<or> n \<le> 0 then (InvalidArgument, p, be)
      else case backend_acquire (block_bytes * word_of_int n) 256 tag be of
        (Inl e, be') \<Rightarrow> (e, p, be')
      | (Inr r, be') \<Rightarrow>
          (Ok, init_slots n (p\<lparr>bp_region := r, bp_block_bytes := block_bytes\<rparr>), be'))"

definition open_slots :: "int \<Rightarrow> block_pool \<Rightarrow> mem_error \<times> block_pool" where
  "open_slots n p =
     (if bp_open p then (InvalidArgument, p)
      else if n \<le> 0 then (InvalidArgument, p)
      else (Ok, init_slots n (p\<lparr>bp_block_bytes := 0\<rparr>)))"

text \<open>
  \<^verbatim>\<open>abandon\<close> and \<^verbatim>\<open>close\<close>. The outstanding blocks \<^verbatim>\<open>close\<close> reports are the first
  component of its result (0 when it stays silent, also when the pool is not open).
\<close>

definition pool_abandon ::
  "(u64 \<Rightarrow> u64 \<Rightarrow> u64 \<Rightarrow> region_tag \<Rightarrow> 'b \<Rightarrow> 'b) \<Rightarrow> block_pool \<Rightarrow> 'b \<Rightarrow> block_pool \<times> 'b" where
  "pool_abandon release p be =
     (let (r, be') = region_reset release (bp_region p) be in
      (\<lparr>bp_region = r, bp_open = False, bp_block_bytes = 0, bp_num_blocks = 0,
        bp_refcount = [], bp_free_list = []\<rparr>, be'))"

definition pool_close ::
  "(u64 \<Rightarrow> u64 \<Rightarrow> u64 \<Rightarrow> region_tag \<Rightarrow> 'b \<Rightarrow> 'b) \<Rightarrow> block_pool \<Rightarrow> 'b \<Rightarrow> nat \<times> block_pool \<times> 'b" where
  "pool_close release p be =
     (if \<not> bp_open p then (0, p, be)
      else (length (bp_refcount p) - length (bp_free_list p), pool_abandon release p be))"

definition pool_acquire :: "block_pool \<Rightarrow> int \<times> block_pool" where
  "pool_acquire p =
     (if bp_free_list p = [] then (-1, p)
      else let b = last (bp_free_list p) in
        (b, p\<lparr>bp_free_list := butlast (bp_free_list p),
               bp_refcount := (bp_refcount p)[nat b := 1]\<rparr>))"

definition inc_ref :: "int \<Rightarrow> block_pool \<Rightarrow> block_pool" where
  "inc_ref b p =
     (if b < 0 \<or> bp_num_blocks p \<le> b then p
      else p\<lparr>bp_refcount := (bp_refcount p)[nat b := bp_refcount p ! nat b + 1]\<rparr>)"

text \<open>The flag \<open>strict\<close> decides only whether a drop of a free block is logged.\<close>

definition dec_ref_impl :: "bool \<Rightarrow> int \<Rightarrow> block_pool \<Rightarrow> bool \<times> block_pool" where
  "dec_ref_impl strict b p =
     (if b < 0 \<or> bp_num_blocks p \<le> b then (False, p)
      else let rc = bp_refcount p ! nat b in
        if rc \<le> 0 then (strict, p)
        else (False,
          p\<lparr>bp_refcount := (bp_refcount p)[nat b := rc - 1],
            bp_free_list := (if rc - 1 = 0 then bp_free_list p @ [b] else bp_free_list p)\<rparr>))"

definition dec_ref :: "int \<Rightarrow> block_pool \<Rightarrow> block_pool" where
  "dec_ref b p = snd (dec_ref_impl True b p)"

definition acquire_raw :: "int \<Rightarrow> block_pool \<Rightarrow> block_pool" where
  "acquire_raw b p = inc_ref b p"

definition release_raw :: "int \<Rightarrow> block_pool \<Rightarrow> block_pool" where
  "release_raw b p = snd (dec_ref_impl False b p)"

definition share_by_id :: "int \<Rightarrow> block_pool \<Rightarrow> int \<times> block_pool" where
  "share_by_id b p =
     (if b < 0 \<or> bp_num_blocks p \<le> b \<or> bp_refcount p ! nat b \<le> 0 then (-1, p)
      else (b, p\<lparr>bp_refcount := (bp_refcount p)[nat b := bp_refcount p ! nat b + 1]\<rparr>))"

text \<open>\<^verbatim>\<open>BlockRef::share\<close> and \<^verbatim>\<open>BlockRef::reset\<close> on the id the handle holds.\<close>

definition ref_share :: "int \<Rightarrow> block_pool \<Rightarrow> int \<times> block_pool" where
  "ref_share b p = (if b < 0 then (-1, p) else (b, inc_ref b p))"

definition ref_reset :: "int \<Rightarrow> block_pool \<Rightarrow> block_pool" where
  "ref_reset b p = (if 0 \<le> b then dec_ref b p else p)"

definition block_span :: "int \<Rightarrow> block_pool \<Rightarrow> (u64 \<times> u64) option" where
  "block_span b p =
     (if \<not> region_valid (bp_region p) \<or> b < 0 \<or> bp_num_blocks p \<le> b then None
      else Some (r_base (bp_region p) + word_of_int b * bp_block_bytes p, bp_block_bytes p))"

definition free_count :: "block_pool \<Rightarrow> int" where
  "free_count p = int (length (bp_free_list p))"

definition live_blocks :: "block_pool \<Rightarrow> int" where
  "live_blocks p = bp_num_blocks p - int (length (bp_free_list p))"

definition total_refs :: "block_pool \<Rightarrow> u64" where
  "total_refs p = sum_list (map word_of_int (bp_refcount p))"

definition ref_count :: "int \<Rightarrow> block_pool \<Rightarrow> int" where
  "ref_count b p =
     (if b < 0 \<or> bp_num_blocks p \<le> b then 0 else bp_refcount p ! nat b)"

section \<open>The invariant\<close>

definition block_ids :: "block_pool \<Rightarrow> int set" where
  "block_ids p = {0..<bp_num_blocks p}"

text \<open>The free list is exactly the set of blocks nobody references, each listed once.\<close>

definition pool_inv :: "block_pool \<Rightarrow> bool" where
  "pool_inv p \<longleftrightarrow>
     0 \<le> bp_num_blocks p \<and> length (bp_refcount p) = nat (bp_num_blocks p) \<and>
     (\<forall>rc \<in> set (bp_refcount p). 0 \<le> rc) \<and> distinct (bp_free_list p) \<and>
     set (bp_free_list p) = {b \<in> block_ids p. bp_refcount p ! nat b = 0}"

definition refs_of :: "block_pool \<Rightarrow> int \<Rightarrow> nat" where
  "refs_of p b = nat (ref_count b p)"

definition free_blocks :: "block_pool \<Rightarrow> nat" where
  "free_blocks p = length (bp_free_list p)"

lemmas pool_defs = block_ids_def pool_inv_def refs_of_def free_blocks_def ref_count_def

lemma pool_inv_closed: "pool_inv closed_pool"
  by (simp add: pool_defs closed_pool_def)

lemma pool_inv_init_slots: "0 \<le> n \<Longrightarrow> pool_inv (init_slots n p)"
  by (auto simp: pool_defs init_slots_def)

lemma pool_refcount_nonneg:
  "pool_inv p \<Longrightarrow> b \<in> block_ids p \<Longrightarrow> 0 \<le> bp_refcount p ! nat b"
  by (auto simp: pool_defs)

lemma pool_inv_length:
  "pool_inv p \<Longrightarrow> b \<in> block_ids p \<Longrightarrow> nat b < length (bp_refcount p)"
  by (auto simp: pool_defs)

lemma pool_inv_set_ref:
  assumes "pool_inv p" "b \<in> block_ids p" "0 \<le> rc" "distinct fl"
    and "set fl = {c \<in> block_ids p. (if c = b then rc else bp_refcount p ! nat c) = 0}"
  shows "pool_inv (p\<lparr>bp_refcount := (bp_refcount p)[nat b := rc], bp_free_list := fl\<rparr>)"
  using assms set_update_subset_insert [of "bp_refcount p" "nat b" rc]
  by (auto simp: pool_defs nth_list_update)

lemma pool_upd_commute:
  "p\<lparr>bp_free_list := fl, bp_refcount := rs\<rparr> = p\<lparr>bp_refcount := rs, bp_free_list := fl\<rparr>"
  by simp

lemma refs_of_set:
  assumes "pool_inv p" "b \<in> block_ids p"
  shows "refs_of (p\<lparr>bp_refcount := (bp_refcount p)[nat b := rc], bp_free_list := fl\<rparr>) =
    (refs_of p)(b := nat rc)"
  using assms by (auto simp: pool_defs nth_list_update fun_eq_iff)

lemma refs_zero_iff:
  "pool_inv p \<Longrightarrow> b \<in> block_ids p \<Longrightarrow> refs_of p b = 0 \<longleftrightarrow> bp_refcount p ! nat b = 0"
  using pool_refcount_nonneg [of p b] by (auto simp: refs_of_def ref_count_def block_ids_def)

lemma pool_free_blocks: "pool_inv p \<Longrightarrow> free_blocks p = card {b \<in> block_ids p. refs_of p b = 0}"
proof -
  assume inv: "pool_inv p"
  have "set (bp_free_list p) = {b \<in> block_ids p. bp_refcount p ! nat b = 0}"
    using inv by (simp add: pool_inv_def)
  also have "\<dots> = {b \<in> block_ids p. refs_of p b = 0}" using refs_zero_iff [OF inv] by blast
  finally have "set (bp_free_list p) = {b \<in> block_ids p. refs_of p b = 0}" .
  with inv show ?thesis by (metis distinct_card free_blocks_def pool_inv_def)
qed

lemma pool_acquire_some:
  assumes inv: "pool_inv p" and ne: "0 < free_blocks p"
  obtains b p' where "pool_acquire p = (b, p')" "b \<in> block_ids p" "refs_of p b = 0"
    "pool_inv p'" "block_ids p' = block_ids p" "refs_of p' = (refs_of p)(b := 1)"
proof -
  let ?fl = "bp_free_list p"
  define b where "b = last ?fl"
  have "b \<in> set ?fl" using ne by (simp add: b_def free_blocks_def)
  then have b: "b \<in> block_ids p" "bp_refcount p ! nat b = 0" using inv by (auto simp: pool_inv_def)
  have d: "distinct (butlast ?fl)" "set (butlast ?fl) = set ?fl - {b}"
    using inv ne set_butlast_distinct [of ?fl]
    by (auto simp: pool_inv_def b_def free_blocks_def distinct_butlast)
  let ?p = "p\<lparr>bp_refcount := (bp_refcount p)[nat b := 1], bp_free_list := butlast ?fl\<rparr>"
  have "pool_inv ?p" using inv b d by (intro pool_inv_set_ref) (auto simp: pool_inv_def)
  moreover have "pool_acquire p = (b, ?p)"
    using ne by (auto simp: pool_acquire_def b_def free_blocks_def Let_def)
  moreover have "refs_of ?p = (refs_of p)(b := 1)" using refs_of_set [OF inv b(1), where rc = 1] by simp
  ultimately show thesis using that [of b ?p] b by (simp add: pool_defs)
qed

lemma pool_inv_inc:
  assumes "pool_inv p" "b \<in> block_ids p" "0 < refs_of p b"
  shows "pool_inv (inc_ref b p)" "block_ids (inc_ref b p) = block_ids p"
    "refs_of (inc_ref b p) = (refs_of p)(b := refs_of p b + 1)"
proof -
  let ?rc = "bp_refcount p ! nat b"
  have rc: "0 < ?rc"
    using assms refs_zero_iff [OF assms(1,2)] pool_refcount_nonneg [OF assms(1,2)] by simp
  have e: "inc_ref b p = p\<lparr>bp_refcount := (bp_refcount p)[nat b := ?rc + 1],
      bp_free_list := bp_free_list p\<rparr>"
    using assms(2) by (simp add: inc_ref_def block_ids_def)
  show "pool_inv (inc_ref b p)" unfolding e
    using assms rc by (intro pool_inv_set_ref) (auto simp: pool_inv_def)
  show "block_ids (inc_ref b p) = block_ids p" by (simp add: e block_ids_def)
  show "refs_of (inc_ref b p) = (refs_of p)(b := refs_of p b + 1)"
    unfolding e refs_of_set [OF assms(1,2)]
    using assms(2) rc by (auto simp: refs_of_def ref_count_def block_ids_def fun_eq_iff)
qed

lemma share_by_id_live:
  assumes "pool_inv p" "b \<in> block_ids p" "0 < refs_of p b"
  shows "share_by_id b p = (b, inc_ref b p)"
  using assms(2,3) by (auto simp: share_by_id_def inc_ref_def block_ids_def refs_of_def
      ref_count_def)

lemma share_by_id_dead:
  assumes "b \<notin> block_ids p \<or> refs_of p b = 0"
  shows "share_by_id b p = (-1, p)"
  using assms by (auto simp: share_by_id_def block_ids_def refs_of_def ref_count_def
      split: if_splits)

lemma dec_ref_live:
  assumes "pool_inv p" "b \<in> block_ids p" "0 < refs_of p b"
  shows "pool_inv (dec_ref b p)" "block_ids (dec_ref b p) = block_ids p"
    "refs_of (dec_ref b p) = (refs_of p)(b := refs_of p b - 1)"
proof -
  let ?rc = "bp_refcount p ! nat b"
  let ?fl = "if ?rc - 1 = 0 then bp_free_list p @ [b] else bp_free_list p"
  have rc: "0 < ?rc"
    using assms refs_zero_iff [OF assms(1,2)] pool_refcount_nonneg [OF assms(1,2)] by simp
  have e: "dec_ref b p = p\<lparr>bp_refcount := (bp_refcount p)[nat b := ?rc - 1],
      bp_free_list := ?fl\<rparr>"
    using assms(2) rc by (simp add: dec_ref_def dec_ref_impl_def Let_def block_ids_def)
  show "pool_inv (dec_ref b p)" unfolding e
    using assms rc by (intro pool_inv_set_ref) (auto simp: pool_inv_def)
  show "block_ids (dec_ref b p) = block_ids p" by (simp add: e block_ids_def)
  show "refs_of (dec_ref b p) = (refs_of p)(b := refs_of p b - 1)"
    unfolding e refs_of_set [OF assms(1,2)]
    using assms(2) rc by (auto simp: refs_of_def ref_count_def block_ids_def fun_eq_iff)
qed

lemma dec_ref_outside: "b \<notin> block_ids p \<Longrightarrow> dec_ref b p = p"
  by (auto simp: dec_ref_def dec_ref_impl_def block_ids_def)

section \<open>The interface of the owners of references\<close>

text \<open>
  What \<^verbatim>\<open>KVCacheManager\<close> relies on: a pool hands out unreferenced blocks, adds and drops
  references one at a time, and knows how many blocks nobody references. \<open>owned p M\<close> says
  that the references in existence are exactly the multiset \<open>M\<close>.
\<close>

locale ref_pool =
  fixes inv :: "'p \<Rightarrow> bool" and ids :: "'p \<Rightarrow> int set" and refc :: "'p \<Rightarrow> int \<Rightarrow> nat"
    and nfree :: "'p \<Rightarrow> nat" and acq :: "'p \<Rightarrow> int \<times> 'p" and share :: "int \<Rightarrow> 'p \<Rightarrow> int \<times> 'p"
    and release :: "int \<Rightarrow> 'p \<Rightarrow> 'p"
  assumes ids_finite: "inv p \<Longrightarrow> finite (ids p)"
    and ids_nonneg: "b \<in> ids p \<Longrightarrow> 0 \<le> b"
    and nfree_card: "inv p \<Longrightarrow> nfree p = card {b \<in> ids p. refc p b = 0}"
    and acq_none: "inv p \<Longrightarrow> nfree p = 0 \<Longrightarrow> acq p = (-1, p)"
    and acq_some: "inv p \<Longrightarrow> 0 < nfree p \<Longrightarrow> acq p = (b, p') \<Longrightarrow>
      b \<in> ids p \<and> refc p b = 0 \<and> inv p' \<and> ids p' = ids p \<and> refc p' = (refc p)(b := 1)"
    and share_live: "inv p \<Longrightarrow> b \<in> ids p \<Longrightarrow> 0 < refc p b \<Longrightarrow> share b p = (c, p') \<Longrightarrow>
      c = b \<and> inv p' \<and> ids p' = ids p \<and> refc p' = (refc p)(b := refc p b + 1)"
    and share_dead: "b \<notin> ids p \<or> refc p b = 0 \<Longrightarrow> share b p = (-1, p)"
    and release_live: "inv p \<Longrightarrow> b \<in> ids p \<Longrightarrow> 0 < refc p b \<Longrightarrow>
      inv (release b p) \<and> ids (release b p) = ids p \<and>
      refc (release b p) = (refc p)(b := refc p b - 1)"
    and release_outside: "b \<notin> ids p \<Longrightarrow> release b p = p"
begin

definition owned :: "'p \<Rightarrow> int multiset \<Rightarrow> bool" where
  "owned p M \<longleftrightarrow> inv p \<and> set_mset M \<subseteq> ids p \<and> (\<forall>b \<in> ids p. refc p b = count M b)"

lemma ownedD:
  assumes "owned p M"
  shows "inv p" "b \<in># M \<Longrightarrow> b \<in> ids p" "b \<in># M \<Longrightarrow> 0 < refc p b" "b \<in># M \<Longrightarrow> 0 \<le> b"
    "b \<in> ids p \<Longrightarrow> refc p b = count M b"
  using assms ids_nonneg unfolding owned_def by auto

lemma owned_acquire:
  assumes "owned p M" "0 < nfree p" "acq p = (b, p')"
  shows "owned p' (add_mset b M)" "b \<notin># M" "0 \<le> b" "ids p' = ids p" "b \<in> ids p"
  using acq_some [OF ownedD(1) [OF assms(1)] assms(2,3)] assms(1) ids_nonneg
  unfolding owned_def by (auto simp: count_eq_zero_iff)

lemma owned_share:
  assumes "owned p M" "b \<in># M" "share b p = (c, p')"
  shows "c = b" "owned p' (add_mset b M)" "ids p' = ids p"
  using share_live [OF ownedD(1) [OF assms(1)] ownedD(2,3) [OF assms(1,2)] assms(3)] assms(1,2)
  unfolding owned_def by auto

lemma owned_release:
  assumes "owned p (add_mset b M)"
  shows "owned (release b p) M" "ids (release b p) = ids p"
proof -
  have b: "b \<in># add_mset b M" by simp
  show "owned (release b p) M" "ids (release b p) = ids p"
    using release_live [OF ownedD(1) [OF assms] ownedD(2,3) [OF assms b]] assms
    unfolding owned_def by (auto simp: fun_upd_def)
qed

text \<open>Dropping a whole table, front to back; the holes are skipped.\<close>

lemma owned_release_all:
  "owned p (mset (filter (\<lambda>b. 0 \<le> b) bs) + M) \<Longrightarrow>
     owned (fold release bs p) M \<and> ids (fold release bs p) = ids p"
proof (induction bs arbitrary: p)
  case Nil
  then show ?case by simp
next
  case (Cons b bs)
  show ?case
  proof (cases "0 \<le> b")
    case True
    with Cons.prems have "owned p (add_mset b (mset (filter (\<lambda>b. 0 \<le> b) bs) + M))" by simp
    note r = owned_release [OF this]
    from Cons.IH [OF r(1)] r(2) show ?thesis by simp
  next
    case False
    then have "release b p = p" using ids_nonneg release_outside by blast
    with False Cons show ?thesis by simp
  qed
qed

lemma owned_conservation:
  assumes "owned p M"
  shows "nfree p + card (set_mset M) = card (ids p)"
proof -
  have fin: "finite (ids p)" using ids_finite [OF ownedD(1) [OF assms]] .
  have "{b \<in> ids p. refc p b = 0} = ids p - set_mset M"
    using assms unfolding owned_def by (auto simp: count_eq_zero_iff)
  moreover have "set_mset M \<subseteq> ids p" using assms by (simp add: owned_def)
  ultimately show ?thesis
    using nfree_card [OF ownedD(1) [OF assms]] fin
    by (simp add: card_Diff_subset card_mono)
qed

end

section \<open>The pool provides the interface\<close>

lemma pool_acquire_empty: "free_blocks p = 0 \<Longrightarrow> pool_acquire p = (-1, p)"
  by (simp add: pool_acquire_def free_blocks_def)

interpretation bp: ref_pool pool_inv block_ids refs_of free_blocks pool_acquire share_by_id
  ref_reset
proof unfold_locales
  fix p p' :: block_pool and b c :: int
  show "finite (block_ids p)" by (simp add: block_ids_def)
  show "b \<in> block_ids p \<Longrightarrow> 0 \<le> b" by (simp add: block_ids_def)
  show "pool_inv p \<Longrightarrow> free_blocks p = card {b \<in> block_ids p. refs_of p b = 0}"
    by (rule pool_free_blocks)
  show "free_blocks p = 0 \<Longrightarrow> pool_acquire p = (-1, p)" by (rule pool_acquire_empty)
  show "b \<in> block_ids p \<and> refs_of p b = 0 \<and> pool_inv p' \<and> block_ids p' = block_ids p \<and>
      refs_of p' = (refs_of p)(b := 1)"
    if "pool_inv p" "0 < free_blocks p" "pool_acquire p = (b, p')"
    using pool_acquire_some [OF that(1,2)] that(3) by (metis prod.inject)
  show "c = b \<and> pool_inv p' \<and> block_ids p' = block_ids p \<and>
      refs_of p' = (refs_of p)(b := refs_of p b + 1)"
    if "pool_inv p" "b \<in> block_ids p" "0 < refs_of p b" "share_by_id b p = (c, p')"
    using share_by_id_live [OF that(1-3)] pool_inv_inc [OF that(1-3)] that(4) by simp
  show "share_by_id b p = (-1, p)" if "b \<notin> block_ids p \<or> refs_of p b = 0"
    using share_by_id_dead [OF that] .
  show "pool_inv (ref_reset b p) \<and> block_ids (ref_reset b p) = block_ids p \<and>
      refs_of (ref_reset b p) = (refs_of p)(b := refs_of p b - 1)"
    if "pool_inv p" "b \<in> block_ids p" "0 < refs_of p b"
    using dec_ref_live [OF that] that(2) by (simp add: ref_reset_def block_ids_def)
  show "ref_reset b p = p" if "b \<notin> block_ids p"
    using dec_ref_outside [OF that] by (simp add: ref_reset_def)
qed

text \<open>The references in existence are exactly the multiset \<open>M\<close>.\<close>

definition pool_owned :: "block_pool \<Rightarrow> int multiset \<Rightarrow> bool" where
  "pool_owned p M \<longleftrightarrow> pool_inv p \<and> set_mset M \<subseteq> block_ids p \<and>
     (\<forall>b \<in> block_ids p. refs_of p b = count M b)"

lemma pool_owned_eq: "bp.owned = pool_owned"
  by (simp add: fun_eq_iff bp.owned_def pool_owned_def)

lemmas pool_ownedD = bp.ownedD [unfolded pool_owned_eq]
lemmas pool_owned_acquire = bp.owned_acquire [unfolded pool_owned_eq]
lemmas pool_owned_share = bp.owned_share [unfolded pool_owned_eq]
lemmas pool_owned_release = bp.owned_release [unfolded pool_owned_eq]
lemmas pool_owned_release_all = bp.owned_release_all [unfolded pool_owned_eq]
lemmas pool_owned_conservation = bp.owned_conservation [unfolded pool_owned_eq]

lemma ref_share_live:
  assumes "pool_owned p M" "b \<in># M"
  shows "ref_share b p = share_by_id b p"
  using pool_ownedD(1) [OF assms(1)] pool_ownedD(2-4) [OF assms]
  by (simp add: ref_share_def share_by_id_live)

lemma pool_owned_init: "0 \<le> n \<Longrightarrow> pool_owned (init_slots n p) {#}"
  using pool_inv_init_slots [of n p]
  by (auto simp: pool_owned_def refs_of_def ref_count_def block_ids_def init_slots_def)

text \<open>
  The life of a pool seen with its outstanding references: a step acquires a block, shares a
  held reference, re-shares a block by id, or destroys a held reference.
\<close>

inductive pool_step :: "block_pool \<times> int multiset \<Rightarrow> block_pool \<times> int multiset \<Rightarrow> bool" where
  ps_acquire: "pool_acquire p = (b, p') \<Longrightarrow>
     pool_step (p, M) (p', if b = -1 then M else add_mset b M)"
| ps_share: "b \<in># M \<Longrightarrow> ref_share b p = (c, p') \<Longrightarrow> pool_step (p, M) (p', add_mset c M)"
| ps_share_id: "share_by_id b p = (c, p') \<Longrightarrow>
     pool_step (p, M) (p', if c = -1 then M else add_mset c M)"
| ps_drop: "pool_step (p, add_mset b M) (ref_reset b p, M)"

lemma pool_step_num: "pool_step (p, M) (p', M') \<Longrightarrow> bp_num_blocks p' = bp_num_blocks p"
  by (auto elim!: pool_step.cases simp: pool_acquire_def ref_share_def share_by_id_def inc_ref_def
      ref_reset_def dec_ref_def dec_ref_impl_def Let_def split: if_splits)

lemma pool_step_owned:
  assumes "pool_step (p, M) (p', M')" and own: "pool_owned p M"
  shows "pool_owned p' M'"
  using assms(1)
proof cases
  case (ps_acquire b)
  show ?thesis
  proof (cases "free_blocks p = 0")
    case True
    with ps_acquire own show ?thesis by (simp add: pool_acquire_empty)
  next
    case False
    with pool_owned_acquire [OF own _ ps_acquire(2)] ps_acquire(1) show ?thesis by auto
  qed
next
  case (ps_share b c)
  with own pool_owned_share [OF own] ref_share_live [OF own] show ?thesis by metis
next
  case (ps_share_id b c)
  show ?thesis
  proof (cases "b \<in># M")
    case True
    with pool_owned_share [OF own True ps_share_id(2)] ps_share_id(1) pool_ownedD(4) [OF own True]
    show ?thesis by auto
  next
    case False
    then have "b \<notin> block_ids p \<or> refs_of p b = 0"
      using own by (auto simp: pool_owned_def count_eq_zero_iff)
    with ps_share_id own show ?thesis by (simp add: share_by_id_dead)
  qed
next
  case (ps_drop b)
  with pool_owned_release(1) own show ?thesis by simp
qed

lemma pool_run_owned:
  "pool_step\<^sup>*\<^sup>* s s' \<Longrightarrow> pool_owned (fst s) (snd s) \<Longrightarrow>
     pool_owned (fst s') (snd s') \<and> bp_num_blocks (fst s') = bp_num_blocks (fst s)"
proof (induction rule: rtranclp_induct)
  case (step y z)
  obtain p M p' M' where "y = (p, M)" "z = (p', M')" by (cases y, cases z)
  with step pool_step_owned [of p M p' M'] pool_step_num [of p M p' M'] show ?case by simp
qed simp

lemma pool_total_refs:
  assumes "pool_owned p M"
  shows "total_refs p = of_nat (size M)"
proof -
  let ?n = "nat (bp_num_blocks p)"
  have inv: "pool_inv p" using assms by (rule pool_ownedD(1))
  have rc: "bp_refcount p ! i = int (count M (int i))" if "i < ?n" for i
  proof -
    have "int i \<in> block_ids p" using that by (simp add: block_ids_def)
    then have "nat (bp_refcount p ! i) = count M (int i)" "0 \<le> bp_refcount p ! i"
      using pool_ownedD(5) [OF assms, of "int i"] pool_refcount_nonneg [OF inv, of "int i"] that
      by (auto simp: refs_of_def ref_count_def block_ids_def split: if_splits)
    then show ?thesis by simp
  qed
  have "bp_refcount p = map (\<lambda>i. int (count M (int i))) [0..<?n]"
    using inv rc by (intro nth_equalityI) (auto simp: pool_inv_def)
  then have "total_refs p = sum_list (map (\<lambda>i. of_nat (count M (int i))) [0..<?n])"
    by (simp add: total_refs_def comp_def)
  also have "\<dots> = of_nat (\<Sum>i<?n. count M (int i))"
    by (simp add: interv_sum_list_conv_sum_set_nat atLeast0LessThan)
  also have "(\<Sum>i<?n. count M (int i)) = sum (count M) (block_ids p)"
    by (rule sum.reindex_bij_witness [where i = nat and j = int]) (auto simp: block_ids_def)
  also have "\<dots> = size M"
    using assms by (simp add: size_multiset_overloaded_eq pool_owned_def block_ids_def
        sum.mono_neutral_right count_eq_zero_iff)
  finally show ?thesis .
qed

lemma unat_block_base:
  fixes base bb :: u64
  assumes "0 \<le> b" "unat base + nat b * unat bb < 2 ^ 64" "nat b < 2 ^ 64"
  shows "unat (base + word_of_int b * bb) = unat base + nat b * unat bb"
proof -
  have "(word_of_int b :: u64) = of_nat (nat b)" using assms(1) by simp
  then have "unat (word_of_int b :: u64) = nat b" using unat_of_nat64 [OF assms(3)] by simp
  then have "unat (word_of_int b * bb) = nat b * unat bb"
    using assms(2) by (simp add: unat_word_ariths)
  with assms(2) show ?thesis by (subst unat_plus_no_wrap) simp_all
qed

lemma mult_disjoint:
  fixes i j n :: nat
  shows "i < j \<Longrightarrow> i * n + n \<le> j * n"
  by (metis Suc_leI add.commute mult_Suc mult_le_mono1)

section \<open>Properties\<close>

text \<open>
  C22. Conservation: however references are acquired, shared and destroyed after the pool is
  opened, the free list holds exactly the blocks nobody references, each once; the number of
  live blocks is the number of distinct referenced blocks, free and live blocks add up to the
  pool, and \<^verbatim>\<open>total_refs\<close> is the number of references in existence.
\<close>

theorem block_pool_conservation:
  assumes "open_slots n closed_pool = (Ok, p0)" "pool_step\<^sup>*\<^sup>* (p0, {#}) (p, M)"
  shows "distinct (bp_free_list p) \<and> set (bp_free_list p) = {0..<n} - set_mset M \<and>
    live_blocks p = int (card (set_mset M)) \<and> free_count p + live_blocks p = n \<and>
    total_refs p = of_nat (size M)"
proof -
  have p0: "p0 = init_slots n (closed_pool\<lparr>bp_block_bytes := 0\<rparr>)" "0 < n"
    using assms(1) by (auto simp: open_slots_def closed_pool_def split: if_splits)
  then have own: "pool_owned p M" and num: "bp_num_blocks p = n"
    using pool_run_owned [OF assms(2)] pool_owned_init [of n] by (simp_all add: init_slots_def)
  then have inv: "pool_inv p" by (simp add: pool_owned_def)
  have "set (bp_free_list p) = {b \<in> block_ids p. refs_of p b = 0}"
    using inv refs_zero_iff [OF inv] unfolding pool_inv_def by blast
  also have "\<dots> = {0..<n} - set_mset M"
    using own num by (auto simp: pool_owned_def block_ids_def count_eq_zero_iff)
  finally have fl: "set (bp_free_list p) = {0..<n} - set_mset M" .
  have "length (bp_free_list p) + card (set_mset M) = nat n"
    using pool_owned_conservation [OF own] num by (simp add: free_blocks_def block_ids_def)
  with fl inv num pool_total_refs [OF own] p0(2) show ?thesis
    by (auto simp: pool_inv_def live_blocks_def free_count_def)
qed

theorem block_pool_conservation_witness:
  "let p0 = init_slots 2 closed_pool; p1 = snd (pool_acquire p0) in
   set (bp_free_list p1) = {0..<2} - {0} \<and> live_blocks p1 = 1 \<and> total_refs p1 = 1"
proof -
  let ?p0 = "init_slots 2 closed_pool" and ?p1 = "snd (pool_acquire (init_slots 2 closed_pool))"
  have r: "rev [0..(1::int)] = [1, 0]" by (simp add: upto.simps)
  have o: "open_slots 2 closed_pool = (Ok, ?p0)"
    by (simp add: open_slots_def closed_pool_def)
  have "pool_acquire ?p0 = (0, ?p1)"
    by (simp add: pool_acquire_def init_slots_def r Let_def)
  from ps_acquire [OF this, of "{#}"] have "pool_step\<^sup>*\<^sup>* (?p0, {#}) (?p1, {#0#})"
    by (simp add: r_into_rtranclp)
  from block_pool_conservation [OF o this] show ?thesis by (simp add: Let_def)
qed


definition pool_example :: block_pool where
  "pool_example = init_slots 4 (closed_pool\<lparr>bp_region := make_region 4096 256 256 KvBlockPool,
     bp_block_bytes := 64\<rparr>)"


end
