(* ===== verification/KV_State.thy ===== *)
theory KV_State
  imports Block_Pool
begin

text \<open>
  The state of \<^verbatim>\<open>KVCacheManager\<close> (\<^verbatim>\<open>src/src/memory/kv_cache_manager.h\<close>), of the
  block-level operations of \<^verbatim>\<open>KVCache\<close> it calls, and of its residual ring. A \<^verbatim>\<open>BlockRef\<close>
  in a table is the block id, \<open>-1\<close> for a hole. An \<^verbatim>\<open>unordered_map\<close> whose size or whose
  entries as a whole matter is an association list with distinct keys, the others are maps;
  \<^verbatim>\<open>lru_map_\<close> and the list iterators of \<^verbatim>\<open>CachedEntry\<close> are positions in the lists they
  point into and have no field of their own. Token counts and block indices are unbounded
  integers, hashes are 64-bit words.
\<close>

section \<open>State\<close>

type_synonym token = "32 word"
type_synonym hash = u64

record ring_state =
  write_idx :: int
  fill_count :: int

record residual =
  res_pool :: u64
  res_n_tokens :: int
  res_max_seqs :: int
  res_per_layer_bytes :: u64
  res_per_seq_bytes :: u64
  res_n_layers :: int
  res_n_kv_heads :: int
  res_head_dim :: int
  res_seq_state :: "int \<rightharpoonup> ring_state"
  res_free_slots :: "int list"
  res_seq_slot :: "(int \<times> int) list"
  res_d_widx :: "(int \<Rightarrow> int) option"
  res_d_fc :: "(int \<Rightarrow> int) option"

record kv_mgr =
  kv_pool :: block_pool
  kv_swa_pool :: block_pool
  kv_block_size :: int
  kv_swa_max_blocks :: int
  seq_blocks :: "(int \<times> int list) list"
  seq_swa_blocks :: "(int \<times> int list) list"
  swa_trim_cursor :: "int \<rightharpoonup> int"
  swa_window :: int
  swa_slack :: int
  lru_order :: "int list"
  prefix_caching_enabled :: bool
  block_hash_to_id :: "hash \<rightharpoonup> int"
  block_id_to_hash :: "int \<rightharpoonup> hash"
  cached_blocks_lru :: "int list"
  cached_blocks_map :: "(int \<times> int) list"
  seq_block_hashes :: "int \<rightharpoonup> hash list"
  pinned_blocks :: "int set"
  pinned_seq_blocks :: "int \<rightharpoonup> int list"
  pin_refcount :: "(int \<times> int) list"
  pin_fifo :: "int list"
  pin_budget_blocks :: int
  reclaimable_cached_count :: int
  kv_res :: residual

definition res_new :: residual where
  "res_new = \<lparr>res_pool = 0, res_n_tokens = 0, res_max_seqs = 0, res_per_layer_bytes = 0,
     res_per_seq_bytes = 0, res_n_layers = 0, res_n_kv_heads = 0, res_head_dim = 0,
     res_seq_state = Map.empty, res_free_slots = [], res_seq_slot = [],
     res_d_widx = None, res_d_fc = None\<rparr>"

text \<open>A manager over a freshly constructed cache: both pools just opened.\<close>

definition kv_new :: "block_pool \<Rightarrow> block_pool \<Rightarrow> int \<Rightarrow> int \<Rightarrow> kv_mgr" where
  "kv_new p swa bs swa_max =
     \<lparr>kv_pool = p, kv_swa_pool = swa, kv_block_size = bs, kv_swa_max_blocks = swa_max,
      seq_blocks = [], seq_swa_blocks = [], swa_trim_cursor = Map.empty, swa_window = 0,
      swa_slack = 0, lru_order = [], prefix_caching_enabled = False,
      block_hash_to_id = Map.empty, block_id_to_hash = Map.empty, cached_blocks_lru = [],
      cached_blocks_map = [], seq_block_hashes = Map.empty, pinned_blocks = {},
      pinned_seq_blocks = Map.empty, pin_refcount = [], pin_fifo = [], pin_budget_blocks = 0,
      reclaimable_cached_count = 0, kv_res = res_new\<rparr>"

section \<open>Block-level operations of the cache\<close>

definition cache_ref_count :: "int \<Rightarrow> kv_mgr \<Rightarrow> int" where
  "cache_ref_count b s = ref_count b (kv_pool s)"

definition acquire_block_ref :: "kv_mgr \<Rightarrow> int \<times> kv_mgr" where
  "acquire_block_ref s = (case pool_acquire (kv_pool s) of (b, p) \<Rightarrow> (b, s\<lparr>kv_pool := p\<rparr>))"

definition share_block :: "int \<Rightarrow> kv_mgr \<Rightarrow> int \<times> kv_mgr" where
  "share_block b s = (case share_by_id b (kv_pool s) of (c, p) \<Rightarrow> (c, s\<lparr>kv_pool := p\<rparr>))"

definition num_free_blocks :: "kv_mgr \<Rightarrow> int" where
  "num_free_blocks s = free_count (kv_pool s)"

definition allocate_swa_block :: "kv_mgr \<Rightarrow> int \<times> kv_mgr" where
  "allocate_swa_block s =
     (case pool_acquire (kv_swa_pool s) of
        (b, p) \<Rightarrow> (if 0 \<le> b then b else -1, s\<lparr>kv_swa_pool := p\<rparr>))"

definition free_swa_block :: "int \<Rightarrow> kv_mgr \<Rightarrow> kv_mgr" where
  "free_swa_block b s = s\<lparr>kv_swa_pool := release_raw b (kv_swa_pool s)\<rparr>"

definition swa_enabled :: "kv_mgr \<Rightarrow> bool" where
  "swa_enabled s \<longleftrightarrow> 0 < kv_swa_max_blocks s"

text \<open>Destroying the references of a vector, front to back.\<close>

definition drop_refs :: "int list \<Rightarrow> kv_mgr \<Rightarrow> kv_mgr" where
  "drop_refs bs s = s\<lparr>kv_pool := fold ref_reset bs (kv_pool s)\<rparr>"

section \<open>Tables\<close>

definition table_of :: "int \<Rightarrow> kv_mgr \<Rightarrow> int list" where
  "table_of seq s = (case map_of (seq_blocks s) seq of None \<Rightarrow> [] | Some t \<Rightarrow> t)"

definition set_table :: "int \<Rightarrow> int list \<Rightarrow> kv_mgr \<Rightarrow> kv_mgr" where
  "set_table seq t s = s\<lparr>seq_blocks := AList.update seq t (seq_blocks s)\<rparr>"

text \<open>\<^verbatim>\<open>SeqBlocks::id_at\<close>, \<^verbatim>\<open>push\<close> and \<^verbatim>\<open>resize\<close> to a smaller size.\<close>

definition id_at :: "int list \<Rightarrow> nat \<Rightarrow> int" where
  "id_at t i = (if i < length t \<and> 0 \<le> t ! i then t ! i else -1)"

definition push_ref :: "int \<Rightarrow> int \<Rightarrow> kv_mgr \<Rightarrow> kv_mgr" where
  "push_ref seq b s = set_table seq (table_of seq s @ [b]) s"

definition shrink_table :: "int \<Rightarrow> nat \<Rightarrow> kv_mgr \<Rightarrow> kv_mgr" where
  "shrink_table seq n s =
     drop_refs (drop n (table_of seq s)) (set_table seq (take n (table_of seq s)) s)"

definition block_table :: "int \<Rightarrow> kv_mgr \<Rightarrow> int list" where
  "block_table seq s = map (\<lambda>i. id_at (table_of seq s) i) [0..<length (table_of seq s)]"

definition swa_block_table :: "int \<Rightarrow> kv_mgr \<Rightarrow> int list" where
  "swa_block_table seq s =
     (case map_of (seq_swa_blocks s) seq of None \<Rightarrow> [] | Some t \<Rightarrow> t)"

section \<open>Hash tables\<close>

text \<open>Erase a block's pair of entries, as every eviction path does.\<close>

definition erase_hash_of :: "int \<Rightarrow> kv_mgr \<Rightarrow> kv_mgr" where
  "erase_hash_of b s =
     (case block_id_to_hash s b of
        None \<Rightarrow> s
      | Some h \<Rightarrow> s\<lparr>block_hash_to_id := (block_hash_to_id s)(h := None),
                   block_id_to_hash := (block_id_to_hash s)(b := None)\<rparr>)"

definition drop_stale_hash_if_last :: "int \<Rightarrow> kv_mgr \<Rightarrow> kv_mgr" where
  "drop_stale_hash_if_last b s =
     (if 0 \<le> b \<and> cache_ref_count b s = 1 then erase_hash_of b s else s)"

section \<open>Statistics\<close>

record kv_cache_stats =
  active_sequences :: int
  total_blocks :: int
  free_blocks_stat :: int
  cached_blocks :: int
  pinned_blocks_stat :: int

definition total_allocated_blocks :: "kv_mgr \<Rightarrow> int" where
  "total_allocated_blocks s = sum_list (map (\<lambda>(k, t). int (length t)) (seq_blocks s))"

definition num_active_sequences :: "kv_mgr \<Rightarrow> int" where
  "num_active_sequences s = int (length (seq_blocks s))"

definition num_cached_blocks :: "kv_mgr \<Rightarrow> int" where
  "num_cached_blocks s = int (length (cached_blocks_lru s))"

definition num_pinned_blocks :: "kv_mgr \<Rightarrow> int" where
  "num_pinned_blocks s = int (card (pinned_blocks s))"

definition kv_stats :: "kv_mgr \<Rightarrow> kv_cache_stats" where
  "kv_stats s = \<lparr>active_sequences = num_active_sequences s,
     total_blocks = total_allocated_blocks s, free_blocks_stat = num_free_blocks s,
     cached_blocks = num_cached_blocks s, pinned_blocks_stat = num_pinned_blocks s\<rparr>"

end
