(* ===== verification/Ngram_Draft.thy ===== *)
theory Ngram_Draft
  imports KV_State
begin

text \<open>
  The prompt-lookup drafter (\<^verbatim>\<open>src/src/runtime/ngram_draft.cpp\<close>): the history is a list, \<open>None\<close> for a
  null pointer, and the caller passes its length. The result is the draft and the value written through
  \<^verbatim>\<open>draft_start\<close>.
\<close>

section \<open>The search\<close>

text \<open>The inner loop: extend a match that ends before \<open>e\<close> backwards.\<close>

function extend_match :: "token list \<Rightarrow> nat \<Rightarrow> nat \<Rightarrow> nat \<Rightarrow> nat" where
  "extend_match hist max_match e len =
     (if len < max_match \<and> Suc len \<le> e \<and> Suc len \<le> length hist \<and>
         hist ! (e - len - 1) = hist ! (length hist - len - 1)
      then extend_match hist max_match e (Suc len) else len)"
  by pat_completeness auto
termination by (relation "measure (\<lambda>(hist, max_match, e, len). max_match - len)") auto

declare extend_match.simps [simp del]

text \<open>The scan over candidate ends, from the most recent one; \<open>best\<close> is the length and the end.\<close>

primrec scan_ends :: "nat \<Rightarrow> token list \<Rightarrow> nat \<Rightarrow> nat \<Rightarrow> nat \<times> int \<Rightarrow> nat \<times> int" where
  "scan_ends 0 hist min_match max_match best = best"
| "scan_ends (Suc j) hist min_match max_match best =
     (let e = Suc j in
      if e < min_match then best
      else if take min_match (drop (e - min_match) hist) \<noteq> drop (length hist - min_match) hist
      then scan_ends j hist min_match max_match best
      else let len = extend_match hist max_match e min_match in
        if fst best < len
        then (if max_match \<le> len then (len, int e) else scan_ends j hist min_match max_match (len, int e))
        else scan_ends j hist min_match max_match best)"

definition ngram_draft :: "token list option \<Rightarrow> int \<Rightarrow> int \<Rightarrow> int \<Rightarrow> token list \<times> int" where
  "ngram_draft hist_ptr k min_match max_match =
     (case hist_ptr of
        None \<Rightarrow> ([], -1)
      | Some hist \<Rightarrow>
          let n = int (length hist) in
          if k \<le> 0 \<or> min_match < 1 \<or> n < min_match + 1 then ([], -1)
          else
            let max_match1 = (if max_match < min_match then min_match else max_match);
                best_end = snd (scan_ends (length hist - 1) hist (nat min_match) (nat max_match1) (0, -1)) in
            if best_end < 0 then ([], -1)
            else
              let avail = n - best_end; tk = min k avail in
              if tk \<le> 0 then ([], -1) else (take (nat tk) (drop (nat best_end) hist), best_end))"

section \<open>Recurring suffixes\<close>

text \<open>The last \<open>m\<close> tokens also stand before position \<open>e\<close>, which is not the end.\<close>

definition recurs :: "token list \<Rightarrow> nat \<Rightarrow> nat \<Rightarrow> bool" where
  "recurs hist e m \<longleftrightarrow> m \<le> e \<and> e < length hist \<and> (\<forall>i < m. hist ! (e - i - 1) = hist ! (length hist - i - 1))"

lemma recurs_mono: "recurs hist e m \<Longrightarrow> m' \<le> m \<Longrightarrow> recurs hist e m'"
  by (simp add: recurs_def)

lemma recurs_Suc:
  "recurs hist e m \<Longrightarrow> recurs hist e (Suc m) \<longleftrightarrow>
     Suc m \<le> e \<and> Suc m \<le> length hist \<and> hist ! (e - m - 1) = hist ! (length hist - m - 1)"
  by (auto simp: recurs_def less_Suc_eq)

lemma recurs_window:
  assumes "m \<le> e" "e < length hist"
  shows "take m (drop (e - m) hist) = drop (length hist - m) hist \<longleftrightarrow> recurs hist e m"
proof
  assume eq: "take m (drop (e - m) hist) = drop (length hist - m) hist"
  have "hist ! (e - i - 1) = hist ! (length hist - i - 1)" if i: "i < m" for i
  proof -
    have "take m (drop (e - m) hist) ! (m - i - 1) = hist ! (e - i - 1)" using i assms by simp
    moreover have "drop (length hist - m) hist ! (m - i - 1) = hist ! (length hist - i - 1)" using i assms by simp
    ultimately show ?thesis using eq by simp
  qed
  then show "recurs hist e m" using assms by (simp add: recurs_def)
next
  assume r: "recurs hist e m"
  show "take m (drop (e - m) hist) = drop (length hist - m) hist"
  proof (rule nth_equalityI)
    show "length (take m (drop (e - m) hist)) = length (drop (length hist - m) hist)" using assms by simp
    fix i assume "i < length (take m (drop (e - m) hist))"
    then have i: "i < m" by simp
    have j: "m - i - 1 < m" "e - (m - i - 1) - 1 = e - m + i" "length hist - (m - i - 1) - 1 = length hist - m + i"
      using i assms by linarith+
    have "hist ! (e - (m - i - 1) - 1) = hist ! (length hist - (m - i - 1) - 1)" using r j(1) unfolding recurs_def by blast
    then have "hist ! (e - m + i) = hist ! (length hist - m + i)" unfolding j .
    then show "take m (drop (e - m) hist) ! i = drop (length hist - m) hist ! i" using i assms by simp
  qed
qed

lemma extend_match_longest:
  assumes "recurs hist e len" "len \<le> mx"
  shows "recurs hist e (extend_match hist mx e len) \<and> len \<le> extend_match hist mx e len \<and>
    extend_match hist mx e len \<le> mx \<and> (\<forall>m \<le> mx. recurs hist e m \<longrightarrow> m \<le> extend_match hist mx e len)"
  using assms
proof (induction "mx - len" arbitrary: len)
  case 0
  then have "extend_match hist mx e len = len" by (subst extend_match.simps) simp
  with 0 show ?case by simp
next
  case (Suc d)
  then have lt: "len < mx" by simp
  show ?case
  proof (cases "recurs hist e (Suc len)")
    case True
    then have e: "extend_match hist mx e len = extend_match hist mx e (Suc len)"
      using lt recurs_Suc [OF Suc.prems(1)] by (subst extend_match.simps) simp
    have "d = mx - Suc len" using Suc.hyps(2) by simp
    from Suc.hyps(1) [OF this True] lt show ?thesis unfolding e by (meson Suc_leI Suc_leD)
  next
    case False
    then have "extend_match hist mx e len = len"
      using recurs_Suc [OF Suc.prems(1)] by (subst extend_match.simps) auto
    moreover have "m \<le> len" if "recurs hist e m" for m
      using False recurs_mono [OF that, of "Suc len"] by (meson not_less_eq_eq)
    ultimately show ?thesis using Suc.prems by simp
  qed
qed

section \<open>The scan\<close>

text \<open>\<open>best\<close> is the longest recurrence that ends after \<open>j\<close>, the most recent one of that length.\<close>

definition best_after :: "nat \<Rightarrow> token list \<Rightarrow> nat \<Rightarrow> nat \<Rightarrow> nat \<times> int \<Rightarrow> bool" where
  "best_after j hist mn mx best \<longleftrightarrow>
     (best = (0, -1) \<or> (\<exists>e. snd best = int e \<and> j < e \<and> mn \<le> fst best \<and> fst best \<le> mx \<and> recurs hist e (fst best))) \<and>
     (\<forall>e m. j < e \<longrightarrow> mn \<le> m \<longrightarrow> m \<le> mx \<longrightarrow> recurs hist e m \<longrightarrow> m \<le> fst best \<and> (m = fst best \<longrightarrow> int e \<le> snd best))"

lemma best_afterD:
  assumes "best_after j hist mn mx best"
  shows "best = (0, -1) \<or> (\<exists>e. snd best = int e \<and> j < e \<and> mn \<le> fst best \<and> fst best \<le> mx \<and> recurs hist e (fst best))"
    "j < e \<Longrightarrow> mn \<le> m \<Longrightarrow> m \<le> mx \<Longrightarrow> recurs hist e m \<Longrightarrow> m \<le> fst best \<and> (m = fst best \<longrightarrow> int e \<le> snd best)"
  using assms unfolding best_after_def by blast+

lemma best_after_weaken:
  assumes b: "best_after j hist mn mx best" and le: "j' \<le> j"
    and new: "\<And>e m. e \<le> j \<Longrightarrow> mn \<le> m \<Longrightarrow> m \<le> mx \<Longrightarrow> j' < e \<Longrightarrow> recurs hist e m \<Longrightarrow>
      m \<le> fst best \<and> (m = fst best \<longrightarrow> int e \<le> snd best)"
  shows "best_after j' hist mn mx best"
  unfolding best_after_def
proof (intro conjI allI impI)
  show "best = (0, -1) \<or> (\<exists>e. snd best = int e \<and> j' < e \<and> mn \<le> fst best \<and> fst best \<le> mx \<and> recurs hist e (fst best))"
    using best_afterD(1) [OF b] le by (meson le_less_trans)
  fix e m assume a: "j' < e" "mn \<le> m" "m \<le> mx" "recurs hist e m"
  then have "m \<le> fst best \<and> (m = fst best \<longrightarrow> int e \<le> snd best)"
    using best_afterD(2) [OF b _ a(2-4)] new [OF _ a(2,3,1,4)] by (meson not_less)
  then show "m \<le> fst best" "m = fst best \<Longrightarrow> int e \<le> snd best" by simp_all
qed

text \<open>A longer recurrence replaces the best one.\<close>

lemma best_after_replace:
  assumes b: "best_after (Suc j) hist mn mx best" and lt: "fst best < len"
    and l: "mn \<le> len" "len \<le> mx" "recurs hist (Suc j) len"
    and longest: "\<And>m. m \<le> mx \<Longrightarrow> recurs hist (Suc j) m \<Longrightarrow> m \<le> len"
  shows "best_after j hist mn mx (len, int (Suc j))"
  unfolding best_after_def fst_conv snd_conv
proof (intro conjI allI impI)
  show "(len, int (Suc j)) = (0, -1) \<or>
      (\<exists>e. int (Suc j) = int e \<and> j < e \<and> mn \<le> len \<and> len \<le> mx \<and> recurs hist e len)" using l by blast
  fix e m assume a: "j < e" "mn \<le> m" "m \<le> mx" "recurs hist e m"
  have "m \<le> len \<and> (m = len \<longrightarrow> e \<le> Suc j)"
  proof (cases "e = Suc j")
    case True
    with a longest show ?thesis by simp
  next
    case False
    with a(1) have "Suc j < e" by simp
    from best_afterD(2) [OF b this a(2-4)] lt show ?thesis by simp
  qed
  then show "m \<le> len" "m = len \<Longrightarrow> int e \<le> int (Suc j)" by simp_all
qed

lemma scan_ends_best:
  assumes mn: "1 \<le> mn" "mn \<le> mx" and "j < length hist" "best_after j hist mn mx best"
  shows "best_after 0 hist mn mx (scan_ends j hist mn mx best)"
  using assms(3,4)
proof (induction j arbitrary: best)
  case (Suc j)
  let ?e = "Suc j" and ?len = "extend_match hist mx (Suc j) mn"
  note b = Suc.prems(2)
  have j: "j < length hist" using Suc.prems(1) by simp
  consider (short) "?e < mn" | (miss) "mn \<le> ?e" "\<not> recurs hist ?e mn" | (hit) "recurs hist ?e mn"
    by (meson not_less)
  then show ?case
  proof cases
    case short
    have "best_after 0 hist mn mx best"
      by (rule best_after_weaken [OF b]) (use short in \<open>auto simp: recurs_def\<close>)
    with short show ?thesis by simp
  next
    case miss
    have w: "take mn (drop (?e - mn) hist) \<noteq> drop (length hist - mn) hist"
      using recurs_window [OF miss(1) Suc.prems(1)] miss(2) by simp
    have "best_after j hist mn mx best"
    proof (rule best_after_weaken [OF b])
      fix e m assume "e \<le> Suc j" "mn \<le> m" "j < e" "recurs hist e m"
      then have "recurs hist ?e mn" using recurs_mono by (metis le_SucE not_less)
      with miss(2) show "m \<le> fst best \<and> (m = fst best \<longrightarrow> int e \<le> snd best)" by simp
    qed simp
    from Suc.IH [OF j this] miss(1) w show ?thesis by (simp add: Let_def)
  next
    case hit
    have le: "mn \<le> ?e" using hit by (simp add: recurs_def)
    have w: "take mn (drop (?e - mn) hist) = drop (length hist - mn) hist"
      using recurs_window [OF le Suc.prems(1)] hit by simp
    note x = extend_match_longest [OF hit mn(2)]
    show ?thesis
    proof (cases "fst best < ?len")
      case True
      have nb: "best_after j hist mn mx (?len, int ?e)" using x by (intro best_after_replace [OF b True]) blast+
      show ?thesis
      proof (cases "mx \<le> ?len")
        case full: True
        have "best_after 0 hist mn mx (?len, int ?e)"
          by (rule best_after_weaken [OF nb]) (use full in auto)
        with True full le w show ?thesis by (simp add: Let_def)
      next
        case False
        with True le w Suc.IH [OF j nb] show ?thesis by (simp add: Let_def)
      qed
    next
      case False
      have "best_after j hist mn mx best"
      proof (rule best_after_weaken [OF b])
        fix e m assume a: "e \<le> Suc j" "mn \<le> m" "m \<le> mx" "j < e" "recurs hist e m"
        have "e = ?e" using a by simp
        then have "m \<le> fst best" using x a False by (meson le_trans not_less)
        moreover have "int e \<le> snd best" if "m = fst best"
          using best_afterD(1) [OF b] that a(1,2) mn(1) by auto
        ultimately show "m \<le> fst best \<and> (m = fst best \<longrightarrow> int e \<le> snd best)" by simp
      qed simp
      from Suc.IH [OF j this] False le w show ?thesis by (simp add: Let_def)
    qed
  qed
qed simp

text \<open>
  C19. The drafter is the prompt lookup its contract asks for: it returns nothing exactly when the arguments ask for
  nothing or the last \<open>min_match\<close> tokens do not recur; otherwise it returns the tokens, up to \<open>k\<close> and at least one, that
  followed an earlier occurrence of a suffix, no suffix that is longer (up to the maximum) recurs anywhere, and no
  occurrence of that suffix is more recent.
\<close>

theorem ngram_draft_best:
  assumes "ngram_draft (Some hist) k min_match max_match = (draft, start)" "mx = nat (max min_match max_match)"
  shows "if k \<le> 0 \<or> min_match < 1 \<or> (\<forall>e. \<not> recurs hist e (nat min_match)) then draft = [] \<and> start = -1
    else \<exists>e m. start = int e \<and> draft = take (nat k) (drop e hist) \<and> draft \<noteq> [] \<and>
      nat min_match \<le> m \<and> m \<le> mx \<and> recurs hist e m \<and>
      (\<forall>e' m'. m' \<le> mx \<and> recurs hist e' m' \<longrightarrow> m' < m \<or> m' = m \<and> e' \<le> e)"
proof (cases "k \<le> 0 \<or> min_match < 1 \<or> int (length hist) < min_match + 1")
  case True
  have "\<not> recurs hist e (nat min_match)" if "int (length hist) < min_match + 1" for e using that by (auto simp: recurs_def)
  moreover have "draft = [] \<and> start = -1" using assms(1) True by (simp add: ngram_draft_def Let_def)
  ultimately show ?thesis using True by auto
next
  case False
  let ?mn = "nat min_match"
  define best where "best = scan_ends (length hist - 1) hist ?mn mx (0, -1)"
  have mx: "nat (if max_match < min_match then min_match else max_match) = mx" using assms(2) by (simp add: max_def)
  have mn: "1 \<le> ?mn" "?mn \<le> mx" using False assms(2) by auto
  have "best_after (length hist - 1) hist ?mn mx (0, -1)" by (auto simp: best_after_def recurs_def)
  moreover have "length hist - 1 < length hist" using False by (cases hist) auto
  ultimately have b: "best_after 0 hist ?mn mx best" unfolding best_def by (intro scan_ends_best [OF mn])
  have run: "(if snd best < 0 then ([], -1)
      else if min k (int (length hist) - snd best) \<le> 0 then ([], -1)
      else (take (nat (min k (int (length hist) - snd best))) (drop (nat (snd best)) hist), snd best)) = (draft, start)"
    using assms(1) unfolding ngram_draft_def option.case Let_def if_not_P [OF False] mx best_def [symmetric] .
  have pos: "0 < e" if "recurs hist e m" "?mn \<le> m" for e m using that mn(1) by (simp add: recurs_def)
  from best_afterD(1) [OF b] show ?thesis
  proof
    assume none: "best = (0, -1)"
    have "\<not> recurs hist e ?mn" for e
      using best_afterD(2) [OF b, of e ?mn] pos [of e ?mn] mn none by auto
    with run none show ?thesis by simp
  next
    assume "\<exists>e. snd best = int e \<and> 0 < e \<and> ?mn \<le> fst best \<and> fst best \<le> mx \<and> recurs hist e (fst best)"
    then obtain e where e: "snd best = int e" "?mn \<le> fst best" "fst best \<le> mx" "recurs hist e (fst best)" by blast
    have lt: "e < length hist" using e(4) by (simp add: recurs_def)
    then have d: "draft = take (nat k) (drop e hist)" "start = int e" "draft \<noteq> []"
      using run False e(1) by (auto simp: min_def nat_diff_distrib split: if_splits)
    have "m' < fst best \<or> m' = fst best \<and> e' \<le> e" if "m' \<le> mx" "recurs hist e' m'" for e' m'
      using best_afterD(2) [OF b pos [OF that(2)] _ that] e(1,2) by (cases "?mn \<le> m'") auto
    with d e recurs_mono [OF e(4,2)] False show ?thesis by auto
  qed
qed

theorem ngram_draft_best_witness:
  "ngram_draft (Some [1, 2, 3, 9, 1, 2, 3, 7, 8, 2, 3]) 2 1 4 = ([7, 8], 7) \<and> recurs [1, 2, 3, 9, 1, 2, 3, 7, 8, 2, 3] 7 2"
proof -
  let ?h = "[1, 2, 3, 9, 1, 2, 3, 7, 8, 2, 3] :: token list"
  have v: "ngram_draft (Some ?h) 2 1 4 = ([7, 8], 7)" by code_simp
  have "recurs ?h 7 1" "recurs ?h 7 2" by (simp_all add: recurs_def numeral_2_eq_2 less_Suc_eq)
  then have "\<exists>e m. (7 :: int) = int e \<and> [7, 8] = take (nat 2) (drop e ?h) \<and> recurs ?h e m"
    using ngram_draft_best [OF v refl] by auto
  with v \<open>recurs ?h 7 2\<close> show ?thesis by simp
qed

end
