(* ===== verification/Residual.thy ===== *)
theory Residual
  imports KV_State
begin

text \<open>
  The residual FP16 ring of \<^verbatim>\<open>KVCacheManager\<close>
  (\<^verbatim>\<open>src/src/memory/kv_cache_manager.cpp\<close>, lines 66 to 226): the slot allocator, the ring
  state and the addresses of a slot's K and V rows. The device arrays of ring state are
  functions from the slot, \<open>None\<close> for a null pointer.
\<close>

section \<open>Operations\<close>

text \<open>
  \<open>alloc\<close> is the VRAM allocator (\<open>None\<close> for a null pointer; address 0 when it fails),
  \<open>ok1\<close> and \<open>ok2\<close> whether the two \<^verbatim>\<open>cudaMalloc\<close> calls succeed. The layer count and the
  head geometry come from the cache.
\<close>

definition enable_residual_buffer ::
  "int \<Rightarrow> int \<Rightarrow> int \<Rightarrow> int \<Rightarrow> int \<Rightarrow> (u64 \<Rightarrow> u64) option \<Rightarrow> bool \<Rightarrow> bool \<Rightarrow> residual \<Rightarrow>
   bool \<times> residual" where
  "enable_residual_buffer nl nkv hdim max_seqs residual_n alloc ok1 ok2 r =
     (if res_pool r \<noteq> 0 then (False, r)
      else if max_seqs \<le> 0 \<or> residual_n \<le> 0 \<or> alloc = None then (False, r)
      else
        let r1 = r\<lparr>res_n_layers := nl, res_n_kv_heads := nkv, res_head_dim := hdim\<rparr> in
        if nkv \<le> 0 \<or> hdim \<le> 0 then (False, r1)
        else
          let plb = word_of_int residual_n * word_of_int nkv * word_of_int hdim * 2;
              psb = word_of_int nl * 2 * plb;
              pool = the alloc (word_of_int max_seqs * psb);
              r2 = r1\<lparr>res_per_layer_bytes := plb, res_per_seq_bytes := psb\<rparr> in
          if pool = 0 then (False, r2)
          else
            let r3 = r2\<lparr>res_pool := pool, res_n_tokens := residual_n, res_max_seqs := max_seqs,
                        res_free_slots := rev [0..max_seqs - 1], res_seq_slot := []\<rparr> in
            if \<not> ok1 \<or> \<not> ok2
            then (False, r3\<lparr>res_d_widx := None, res_d_fc := None, res_pool := 0\<rparr>)
            else (True, r3\<lparr>res_d_widx := Some (\<lambda>_. 0), res_d_fc := Some (\<lambda>_. 0)\<rparr>))"

definition zero_device_slot :: "int \<Rightarrow> residual \<Rightarrow> residual" where
  "zero_device_slot slot r =
     (case res_d_widx r of
        None \<Rightarrow> r
      | Some w \<Rightarrow> r\<lparr>res_d_widx := Some (w(slot := 0)),
                    res_d_fc := map_option (\<lambda>f. f(slot := 0)) (res_d_fc r)\<rparr>)"

definition allocate_residual_slot :: "int \<Rightarrow> residual \<Rightarrow> int \<times> residual" where
  "allocate_residual_slot seq r =
     (if res_pool r = 0 then (-1, r)
      else case map_of (res_seq_slot r) seq of
        Some slot \<Rightarrow> (slot, r)
      | None \<Rightarrow>
          if res_free_slots r = [] then (-1, r)
          else let slot = last (res_free_slots r) in
            (slot, zero_device_slot slot
               (r\<lparr>res_free_slots := butlast (res_free_slots r),
                  res_seq_slot := AList.update seq slot (res_seq_slot r)\<rparr>)))"

definition release_residual_slot :: "int \<Rightarrow> residual \<Rightarrow> residual" where
  "release_residual_slot seq r =
     (if res_pool r = 0 then r
      else case map_of (res_seq_slot r) seq of
        None \<Rightarrow> r
      | Some slot \<Rightarrow>
          zero_device_slot slot
            (r\<lparr>res_free_slots := res_free_slots r @ [slot],
               res_seq_slot := AList.delete seq (res_seq_slot r),
               res_seq_state := (res_seq_state r)(seq := None)\<rparr>))"

definition residual_slot_of :: "int \<Rightarrow> residual \<Rightarrow> int" where
  "residual_slot_of seq r =
     (case map_of (res_seq_slot r) seq of None \<Rightarrow> -1 | Some slot \<Rightarrow> slot)"

definition residual_k_ptr :: "int \<Rightarrow> int \<Rightarrow> residual \<Rightarrow> u64" where
  "residual_k_ptr seq layer r =
     (if res_pool r = 0 then 0
      else let slot = residual_slot_of seq r in
        if slot < 0 then 0
        else if layer < 0 \<or> res_n_layers r \<le> layer then 0
        else res_pool r + word_of_int slot * res_per_seq_bytes r
             + word_of_int layer * 2 * res_per_layer_bytes r)"

definition residual_v_ptr :: "int \<Rightarrow> int \<Rightarrow> residual \<Rightarrow> u64" where
  "residual_v_ptr seq layer r =
     (if res_pool r = 0 then 0
      else let slot = residual_slot_of seq r in
        if slot < 0 then 0
        else if layer < 0 \<or> res_n_layers r \<le> layer then 0
        else res_pool r + word_of_int slot * res_per_seq_bytes r
             + word_of_int layer * 2 * res_per_layer_bytes r + res_per_layer_bytes r)"

definition residual_k_layer_base :: "int \<Rightarrow> residual \<Rightarrow> u64" where
  "residual_k_layer_base layer r =
     (if res_pool r = 0 then 0
      else if layer < 0 \<or> res_n_layers r \<le> layer then 0
      else res_pool r + word_of_int layer * 2 * res_per_layer_bytes r)"

definition residual_v_layer_base :: "int \<Rightarrow> residual \<Rightarrow> u64" where
  "residual_v_layer_base layer r =
     (if res_pool r = 0 then 0
      else if layer < 0 \<or> res_n_layers r \<le> layer then 0
      else res_pool r + word_of_int layer * 2 * res_per_layer_bytes r + res_per_layer_bytes r)"

definition residual_state :: "int \<Rightarrow> residual \<Rightarrow> ring_state" where
  "residual_state seq r =
     (case res_seq_state r seq of
        None \<Rightarrow> \<lparr>write_idx = 0, fill_count = 0\<rparr> | Some st \<Rightarrow> st)"

definition advance_residual :: "int \<Rightarrow> residual \<Rightarrow> residual" where
  "advance_residual seq r =
     (if res_pool r = 0 \<or> res_n_tokens r \<le> 0 then r
      else let st = residual_state seq r in
        r\<lparr>res_seq_state := (res_seq_state r)(seq \<mapsto>
          \<lparr>write_idx = (write_idx st + 1) mod res_n_tokens r,
           fill_count = (if fill_count st < res_n_tokens r then fill_count st + 1
                         else fill_count st)\<rparr>)\<rparr>)"

section \<open>The invariant\<close>

text \<open>
  Free and assigned slots partition the slot range, every ring index is in range, and no ring
  state exists before the buffer is enabled.
\<close>

definition ring_ok :: "int \<Rightarrow> ring_state \<Rightarrow> bool" where
  "ring_ok n st \<longleftrightarrow> 0 \<le> write_idx st \<and> write_idx st < n \<and> 0 \<le> fill_count st \<and> fill_count st \<le> n"

definition res_inv :: "residual \<Rightarrow> bool" where
  "res_inv r \<longleftrightarrow>
     (if res_pool r = 0 then res_seq_state r = Map.empty
      else 0 < res_max_seqs r \<and> 0 < res_n_tokens r \<and> distinct (map fst (res_seq_slot r)) \<and>
        mset (res_free_slots r) + mset (map snd (res_seq_slot r)) = mset [0..res_max_seqs r - 1] \<and>
        (\<forall>seq st. res_seq_state r seq = Some st \<longrightarrow> ring_ok (res_n_tokens r) st))"

lemma zero_device_slot_frame [simp]:
  "res_pool (zero_device_slot k r) = res_pool r"
  "res_max_seqs (zero_device_slot k r) = res_max_seqs r"
  "res_n_tokens (zero_device_slot k r) = res_n_tokens r"
  "res_seq_slot (zero_device_slot k r) = res_seq_slot r"
  "res_free_slots (zero_device_slot k r) = res_free_slots r"
  "res_seq_state (zero_device_slot k r) = res_seq_state r"
  "res_n_layers (zero_device_slot k r) = res_n_layers r"
  "res_per_layer_bytes (zero_device_slot k r) = res_per_layer_bytes r"
  "res_per_seq_bytes (zero_device_slot k r) = res_per_seq_bytes r"
  by (simp_all add: zero_device_slot_def split: option.splits)

lemma res_inv_new: "res_inv res_new"
  by (simp add: res_inv_def res_new_def)

lemma res_inv_enable:
  "res_inv r \<Longrightarrow> res_inv (snd (enable_residual_buffer nl nkv hdim m n alloc ok1 ok2 r))"
  by (auto simp: enable_residual_buffer_def res_inv_def Let_def)

lemma res_inv_allocate:
  assumes "res_inv r"
  shows "res_inv (snd (allocate_residual_slot seq r))"
proof (cases "res_pool r \<noteq> 0 \<and> map_of (res_seq_slot r) seq = None \<and> res_free_slots r \<noteq> []")
  case True
  let ?fl = "res_free_slots r" and ?al = "res_seq_slot r"
  have "mset ?fl = add_mset (last ?fl) (mset (butlast ?fl))"
    using True by (metis append_butlast_last_id mset.simps(2) mset_append union_mset_add_mset_right
        add.right_neutral mset.simps(1))
  moreover have "mset (map snd (AList.update seq (last ?fl) ?al)) =
      add_mset (last ?fl) (mset (map snd ?al))"
    using assms True alist_update_image [of ?al snd seq "last ?fl"]
    by (simp add: alist_delete_None res_inv_def)
  ultimately show ?thesis
    using assms True by (auto simp: allocate_residual_slot_def res_inv_def Let_def)
next
  case False
  with assms show ?thesis
    by (auto simp: allocate_residual_slot_def Let_def split: option.splits)
qed

lemma res_inv_release:
  assumes "res_inv r"
  shows "res_inv (release_residual_slot seq r)"
  using assms alist_delete_image [of "res_seq_slot r" seq _ snd]
  by (auto simp: release_residual_slot_def res_inv_def split: option.splits if_splits)

lemma res_inv_advance:
  assumes "res_inv r"
  shows "res_inv (advance_residual seq r)"
proof -
  have "ring_ok (res_n_tokens r) (residual_state seq r)" if "res_pool r \<noteq> 0"
    using assms that
    by (auto simp: res_inv_def residual_state_def ring_ok_def split: option.splits)
  then show ?thesis
    using assms by (auto simp: advance_residual_def res_inv_def ring_ok_def Let_def)
qed

inductive res_step :: "residual \<Rightarrow> residual \<Rightarrow> bool" where
  rs_enable: "res_step r (snd (enable_residual_buffer nl nkv hdim m n alloc ok1 ok2 r))"
| rs_allocate: "res_step r (snd (allocate_residual_slot seq r))"
| rs_release: "res_step r (release_residual_slot seq r)"
| rs_advance: "res_step r (advance_residual seq r)"

lemma res_step_inv: "res_step r r' \<Longrightarrow> res_inv r \<Longrightarrow> res_inv r'"
  by (induction rule: res_step.induct)
    (auto intro: res_inv_enable res_inv_allocate res_inv_release res_inv_advance)

lemma res_run_inv: "res_step\<^sup>*\<^sup>* r r' \<Longrightarrow> res_inv r \<Longrightarrow> res_inv r'"
  by (induction rule: rtranclp_induct) (auto intro: res_step_inv)

lemma res_inv_slots:
  assumes "res_inv r" "res_pool r \<noteq> 0"
  shows "distinct (res_free_slots r @ map snd (res_seq_slot r))"
    "set (res_free_slots r) \<union> snd ` set (res_seq_slot r) = {0..<res_max_seqs r}"
proof -
  have m: "mset (res_free_slots r @ map snd (res_seq_slot r)) = mset [0..res_max_seqs r - 1]"
    using assms by (simp add: res_inv_def)
  from mset_eq_imp_distinct_iff [OF m]
  show "distinct (res_free_slots r @ map snd (res_seq_slot r))" by simp
  from mset_eq_setD [OF m]
  show "set (res_free_slots r) \<union> snd ` set (res_seq_slot r) = {0..<res_max_seqs r}"
    by auto
qed

section \<open>Addresses\<close>

text \<open>The sizes \<^verbatim>\<open>enable_residual_buffer\<close> computes, when they do not overflow.\<close>

definition res_geom :: "residual \<Rightarrow> bool" where
  "res_geom r \<longleftrightarrow> unat (res_per_seq_bytes r) = nat (res_n_layers r) * 2 * unat (res_per_layer_bytes r) \<and>
     unat (res_pool r) + nat (res_max_seqs r) * unat (res_per_seq_bytes r) < 2 ^ 64 \<and>
     res_max_seqs r < 2 ^ 31 \<and> res_n_layers r < 2 ^ 31"

text \<open>The row of (slot, layer, K or V) counted in rows from the start of the pool.\<close>

definition row_index :: "residual \<Rightarrow> int \<Rightarrow> int \<Rightarrow> bool \<Rightarrow> nat" where
  "row_index r slot layer is_v =
     (nat slot * nat (res_n_layers r) + nat layer) * 2 + of_bool is_v"

definition residual_ptr :: "bool \<Rightarrow> int \<Rightarrow> int \<Rightarrow> residual \<Rightarrow> u64" where
  "residual_ptr is_v seq layer r =
     (if is_v then residual_v_ptr seq layer r else residual_k_ptr seq layer r)"

lemma row_index_less:
  assumes "slot \<in> {0..<res_max_seqs r}" "0 \<le> layer" "layer < res_n_layers r"
  shows "row_index r slot layer v + 1 \<le> nat (res_max_seqs r) * (nat (res_n_layers r) * 2)"
proof -
  let ?L = "nat (res_n_layers r)"
  have "nat slot * ?L + ?L \<le> nat (res_max_seqs r) * ?L"
    using assms(1) by (intro mult_disjoint) auto
  moreover have "nat layer < ?L" using assms(2,3) by auto
  ultimately have "nat slot * ?L + nat layer + 1 \<le> nat (res_max_seqs r) * ?L" by linarith
  from mult_le_mono1 [OF this, of 2]
  have "(nat slot * ?L + nat layer) * 2 + 2 \<le> nat (res_max_seqs r) * (?L * 2)"
    by (simp only: add_mult_distrib mult.assoc mult_1)
  then show ?thesis by (cases v) (simp_all add: row_index_def)
qed

lemma unat_residual_ptr:
  assumes geom: "res_geom r" and pool: "res_pool r \<noteq> 0"
    and slot: "residual_slot_of seq r \<in> {0..<res_max_seqs r}"
    and layer: "0 \<le> layer" "layer < res_n_layers r"
  shows "unat (residual_ptr is_v seq layer r) = unat (res_pool r) +
    row_index r (residual_slot_of seq r) layer is_v * unat (res_per_layer_bytes r)"
proof -
  let ?s = "residual_slot_of seq r" and ?p = "unat (res_pool r)"
  let ?L = "nat (res_n_layers r)" and ?b = "unat (res_per_layer_bytes r)"
  have "(row_index r ?s layer True + 1) * ?b \<le> nat (res_max_seqs r) * (?L * 2) * ?b"
    using row_index_less [OF slot layer, of True] by (rule mult_le_mono1)
  moreover have "(row_index r ?s layer True + 1) * ?b =
      nat ?s * (?L * 2 * ?b) + nat layer * (2 * ?b) + ?b + ?b"
    by (simp add: row_index_def algebra_simps)
  moreover have "nat (res_max_seqs r) * (?L * 2) * ?b = nat (res_max_seqs r) * (?L * 2 * ?b)"
    by (simp only: mult.assoc)
  moreover have "?p + nat (res_max_seqs r) * (?L * 2 * ?b) < 2 ^ 64"
    using geom by (auto simp: res_geom_def)
  ultimately have bound: "?p + nat ?s * (?L * 2 * ?b) + nat layer * (2 * ?b) + ?b + ?b < 2 ^ 64"
    by linarith
  have "?s < 2 ^ 64" "layer < 2 ^ 64" using slot layer geom by (auto simp: res_geom_def)
  then have n: "nat ?s < 2 ^ 64" "nat layer < 2 ^ 64"
    using slot layer by (auto simp: nat_less_iff)
  have a: "unat (res_pool r + word_of_int ?s * res_per_seq_bytes r) = ?p + nat ?s * (?L * 2 * ?b)"
    using unat_block_base [of ?s "res_pool r" "res_per_seq_bytes r"] slot n bound geom
    by (simp add: res_geom_def)
  show ?thesis
  proof (cases "?b = 0")
    case True
    then have "res_per_layer_bytes r = 0" by (simp add: unat_eq_0)
    with True a pool slot layer show ?thesis
      by (simp add: residual_ptr_def residual_k_ptr_def residual_v_ptr_def Let_def)
  next
    case False
    have "2 * ?b < 2 ^ 64" using bound by linarith
    then have two: "unat (2 * res_per_layer_bytes r) = 2 * ?b" by (simp add: unat_word_ariths)
    have k: "unat (res_pool r + word_of_int ?s * res_per_seq_bytes r
        + word_of_int layer * (2 * res_per_layer_bytes r)) =
        ?p + nat ?s * (?L * 2 * ?b) + nat layer * (2 * ?b)"
      using unat_block_base [of layer _ "2 * res_per_layer_bytes r", unfolded two] n layer(1)
        bound a by (metis add_lessD1)
    with bound have v: "unat (res_pool r + word_of_int ?s * res_per_seq_bytes r
        + word_of_int layer * (2 * res_per_layer_bytes r) + res_per_layer_bytes r) =
        ?p + nat ?s * (?L * 2 * ?b) + nat layer * (2 * ?b) + ?b"
      by (subst unat_plus_no_wrap) simp_all
    show ?thesis
      using k v pool slot layer
      by (simp add: residual_ptr_def residual_k_ptr_def residual_v_ptr_def Let_def
          row_index_def mult.assoc algebra_simps)
  qed
qed

lemma row_index_inj:
  assumes "row_index r s l v = row_index r s' l' v'" "0 \<le> s" "0 \<le> s'" "0 \<le> l" "0 \<le> l'"
    "l < res_n_layers r" "l' < res_n_layers r"
  shows "s = s' \<and> l = l' \<and> v = v'"
proof -
  let ?L = "nat (res_n_layers r)"
  have par: "even (row_index r t k w) \<longleftrightarrow> \<not> w" for t k w by (simp add: row_index_def)
  have v: "v = v'" using par [of s l v] par [of s' l' v'] assms(1) by auto
  with assms(1) have e: "nat s * ?L + nat l = nat s' * ?L + nat l'" by (simp add: row_index_def)
  have lt: "nat l < ?L" "nat l' < ?L" using assms by auto
  have "(nat s * ?L + nat l) div ?L = nat s" "(nat s' * ?L + nat l') div ?L = nat s'"
    using lt by simp_all
  with e have "nat s = nat s'" by simp
  moreover from this e have "nat l = nat l'" by simp
  ultimately show ?thesis using v assms by (simp add: eq_nat_nat_iff)
qed

section \<open>Properties\<close>

text \<open>
  C25. Slots: in every state reachable by enabling, admitting, releasing and advancing,
  distinct sequences hold distinct slots within the range, no held slot is free, held and
  free slots add up to the pool, and every ring position stays inside the ring.
\<close>

theorem residual_slots_conserved:
  assumes "res_step\<^sup>*\<^sup>* res_new r" "res_pool r \<noteq> 0"
  shows "distinct (res_free_slots r @ map snd (res_seq_slot r)) \<and>
    set (res_free_slots r) \<union> snd ` set (res_seq_slot r) = {0..<res_max_seqs r} \<and>
    int (length (res_free_slots r) + length (res_seq_slot r)) = res_max_seqs r \<and>
    ring_ok (res_n_tokens r) (residual_state seq r)"
proof -
  have inv: "res_inv r" using res_run_inv [OF assms(1) res_inv_new] .
  have "size (mset (res_free_slots r) + mset (map snd (res_seq_slot r))) =
      size (mset [0..res_max_seqs r - 1])" using inv assms(2) by (simp add: res_inv_def)
  then have "int (length (res_free_slots r) + length (res_seq_slot r)) = res_max_seqs r"
    using inv assms(2) by (simp add: res_inv_def)
  moreover have "ring_ok (res_n_tokens r) (residual_state seq r)"
    using inv assms(2)
    by (auto simp: res_inv_def residual_state_def ring_ok_def split: option.splits)
  ultimately show ?thesis using res_inv_slots [OF inv assms(2)] by blast
qed

definition res_example :: residual where
  "res_example = snd (allocate_residual_slot 7 (snd (enable_residual_buffer 2 4 8 3 16
     (Some (\<lambda>_. 4096)) True True res_new)))"

theorem residual_slots_conserved_witness:
  "res_pool res_example \<noteq> 0 \<and> length (res_free_slots res_example) = 2 \<and>
   distinct (res_free_slots res_example @ map snd (res_seq_slot res_example))"
proof -
  have "res_step\<^sup>*\<^sup>* res_new res_example" unfolding res_example_def
    by (rule rtranclp.rtrancl_into_rtrancl [OF r_into_rtranclp]) (rule rs_enable, rule rs_allocate)
  moreover have p: "res_pool res_example \<noteq> 0" "length (res_free_slots res_example) = 2"
    by (simp_all add: res_example_def enable_residual_buffer_def res_new_def Let_def
        allocate_residual_slot_def)
  ultimately show ?thesis using residual_slots_conserved by blast
qed

text \<open>
  C26. The K and V rows of different (sequence, layer, K or V) triples never overlap and lie
  inside the pool, for sequences that hold slots and a pool whose end is representable.
\<close>

theorem residual_rows_disjoint:
  assumes "res_inv r" "res_geom r" "res_pool r \<noteq> 0"
    and "map_of (res_seq_slot r) q = Some a" "map_of (res_seq_slot r) q' = Some a'"
    and "0 \<le> l" "l < res_n_layers r" "0 \<le> l'" "l' < res_n_layers r"
    and "(q, l, v) \<noteq> (q', l', v')"
  shows "let x = unat (residual_ptr v q l r); y = unat (residual_ptr v' q' l' r);
             n = unat (res_per_layer_bytes r)
    in (x + n \<le> y \<or> y + n \<le> x) \<and> unat (res_pool r) \<le> x \<and>
       x + n \<le> unat (res_pool r) + nat (res_max_seqs r) * unat (res_per_seq_bytes r)"
proof -
  let ?n = "unat (res_per_layer_bytes r)"
  have s: "residual_slot_of q r = a" "residual_slot_of q' r = a'"
    using assms(4,5) by (simp_all add: residual_slot_of_def)
  have in_snd: "a \<in> snd ` set (res_seq_slot r)" "a' \<in> snd ` set (res_seq_slot r)"
    using assms(4,5) by (auto dest!: map_of_SomeD intro: rev_image_eqI)
  then have rng: "a \<in> {0..<res_max_seqs r}" "a' \<in> {0..<res_max_seqs r}"
    using res_inv_slots(2) [OF assms(1,3)] by blast+
  have neq: "a \<noteq> a'" if "q \<noteq> q'"
  proof
    assume "a = a'"
    have "inj_on snd (set (res_seq_slot r))"
      using res_inv_slots(1) [OF assms(1,3)] by (simp add: distinct_map)
    from inj_onD [OF this, of "(q, a)" "(q', a')"] \<open>a = a'\<close> that
      map_of_SomeD [OF assms(4)] map_of_SomeD [OF assms(5)]
    show False by simp
  qed
  have "row_index r a l v \<noteq> row_index r a' l' v'"
    using row_index_inj [of r a l v a' l' v'] assms(6-10) neq rng by auto
  then consider "row_index r a l v < row_index r a' l' v'"
    | "row_index r a' l' v' < row_index r a l v" by linarith
  then have sep: "row_index r a l v * ?n + ?n \<le> row_index r a' l' v' * ?n \<or>
      row_index r a' l' v' * ?n + ?n \<le> row_index r a l v * ?n"
    using mult_disjoint by cases blast+
  have "(row_index r a l v + 1) * ?n \<le> nat (res_max_seqs r) * (nat (res_n_layers r) * 2) * ?n"
    using row_index_less [OF rng(1) assms(6,7)] by (rule mult_le_mono1)
  then have "row_index r a l v * ?n + ?n \<le> nat (res_max_seqs r) * unat (res_per_seq_bytes r)"
    using assms(2) by (simp add: res_geom_def mult.assoc)
  with sep show ?thesis
    using unat_residual_ptr [OF assms(2,3), of q l v] unat_residual_ptr [OF assms(2,3), of q' l' v']
      s rng assms(6-9) by (simp add: Let_def)
qed

theorem residual_rows_disjoint_witness:
  "unat (residual_ptr False 7 1 res_example) + unat (res_per_layer_bytes res_example) \<le>
   unat (residual_ptr True 7 1 res_example)"
proof -
  have "res_inv res_example" unfolding res_example_def
    by (intro res_inv_allocate res_inv_enable res_inv_new)
  moreover have "res_geom res_example" "res_pool res_example \<noteq> 0" "res_n_layers res_example = 2"
    "map_of (res_seq_slot res_example) 7 = Some 0"
    by (simp_all add: res_geom_def res_example_def enable_residual_buffer_def res_new_def Let_def
        allocate_residual_slot_def upto.simps)
  moreover have "residual_ptr False 7 1 res_example = 6144"
    "residual_ptr True 7 1 res_example = 7168" "res_per_layer_bytes res_example = 1024"
    by (simp_all add: residual_ptr_def residual_k_ptr_def residual_v_ptr_def residual_slot_of_def
        res_example_def enable_residual_buffer_def res_new_def Let_def
        allocate_residual_slot_def upto.simps)
  ultimately show ?thesis
    using residual_rows_disjoint [of res_example 7 0 7 0 1 1 False True] by (simp add: Let_def)
qed

end
