(* ===== verification/KV_Alloc.thy ===== *)
theory KV_Alloc
  imports Residual
begin

text \<open>
  Allocation, release and LRU order of \<^verbatim>\<open>KVCacheManager\<close>: \<^verbatim>\<open>reclaim_cached_block\<close>,
  \<^verbatim>\<open>allocate_block_ref_with_eviction\<close>, \<^verbatim>\<open>allocate_blocks\<close>, \<^verbatim>\<open>append_block\<close>,
  \<^verbatim>\<open>free_sequence\<close>, \<^verbatim>\<open>touch\<close>, \<^verbatim>\<open>evict_lru\<close>, \<^verbatim>\<open>can_allocate\<close>; then the ownership and cache
  invariants and what these operations do to them.
\<close>

section \<open>Reclaiming cached blocks\<close>

text \<open>The rotation past pinned blocks, bounded by the length of the list.\<close>

primrec rotate_pinned :: "nat \<Rightarrow> int set \<Rightarrow> int list \<Rightarrow> int list" where
  "rotate_pinned 0 pins l = l"
| "rotate_pinned (Suc n) pins l =
     (case l of
        [] \<Rightarrow> []
      | x # xs \<Rightarrow> if x \<notin> pins then l else rotate_pinned n pins (xs @ [x]))"

text \<open>Erasing an entry of \<^verbatim>\<open>cached_blocks_map_\<close> destroys the reference it holds.\<close>

definition erase_cached :: "int \<Rightarrow> kv_mgr \<Rightarrow> kv_mgr" where
  "erase_cached b s =
     (case map_of (cached_blocks_map s) b of
        None \<Rightarrow> s
      | Some r \<Rightarrow> drop_refs [r] (s\<lparr>cached_blocks_map := AList.delete b (cached_blocks_map s)\<rparr>))"

definition reclaim_cached_block :: "kv_mgr \<Rightarrow> int \<times> kv_mgr" where
  "reclaim_cached_block s =
     (if reclaimable_cached_count s \<le> 0 then (-1, s)
      else
        let l = rotate_pinned (length (cached_blocks_lru s)) (pinned_blocks s) (cached_blocks_lru s);
            s1 = s\<lparr>cached_blocks_lru := l\<rparr> in
        if l = [] \<or> hd l \<in> pinned_blocks s then (-1, s1)
        else
          let b = hd l;
              s2 = s1\<lparr>cached_blocks_lru := tl l,
                      reclaimable_cached_count := reclaimable_cached_count s - 1\<rparr>
          in (b, erase_cached b (erase_hash_of b s2)))"

definition evict_cached_block :: "kv_mgr \<Rightarrow> bool \<times> kv_mgr" where
  "evict_cached_block s = (case reclaim_cached_block s of (b, s') \<Rightarrow> (0 \<le> b, s'))"

lemma length_rotate_pinned [simp]: "length (rotate_pinned n pins l) = length l"
  by (induction n arbitrary: l) (auto split: list.splits)

lemma erase_hash_of_frame [simp]:
  "kv_pool (erase_hash_of b s) = kv_pool s"
  "cached_blocks_lru (erase_hash_of b s) = cached_blocks_lru s"
  "cached_blocks_map (erase_hash_of b s) = cached_blocks_map s"
  "seq_blocks (erase_hash_of b s) = seq_blocks s"
  "pinned_blocks (erase_hash_of b s) = pinned_blocks s"
  "reclaimable_cached_count (erase_hash_of b s) = reclaimable_cached_count s"
  "kv_block_size (erase_hash_of b s) = kv_block_size s"
  by (simp_all add: erase_hash_of_def split: option.splits)

lemma cached_lru_erase_cached [simp]:
  "cached_blocks_lru (erase_cached b s) = cached_blocks_lru s"
  by (simp add: erase_cached_def drop_refs_def split: option.splits)

lemma reclaim_shrinks:
  assumes "reclaim_cached_block s = (b, s')" "0 \<le> b"
  shows "length (cached_blocks_lru s') < length (cached_blocks_lru s)"
proof -
  let ?l = "rotate_pinned (length (cached_blocks_lru s)) (pinned_blocks s) (cached_blocks_lru s)"
  from assms have "?l \<noteq> []" "cached_blocks_lru s' = tl ?l"
    by (auto simp: reclaim_cached_block_def Let_def split: if_splits)
  then show ?thesis by (metis length_greater_0_conv length_rotate_pinned length_tl
        diff_less zero_less_one)
qed

section \<open>Allocation\<close>

text \<open>The loop of \<^verbatim>\<open>allocate_block_ref_with_eviction\<close>: each round reclaims one cached block.\<close>

function reclaim_until_acquired :: "kv_mgr \<Rightarrow> int \<times> kv_mgr" where
  "reclaim_until_acquired s =
     (if cached_blocks_lru s = [] then (-1, s)
      else case reclaim_cached_block s of (b, s1) \<Rightarrow>
        if b < 0 then (-1, s1)
        else case acquire_block_ref s1 of (r, s2) \<Rightarrow>
          if 0 \<le> r then (r, s2) else reclaim_until_acquired s2)"
  by pat_completeness auto

termination
proof (relation "measure (\<lambda>s. length (cached_blocks_lru s))")
  fix s b s1 r s2
  assume "(b, s1) = reclaim_cached_block s" "\<not> b < 0" "(r, s2) = acquire_block_ref s1"
  then show "(s2, s) \<in> measure (\<lambda>s. length (cached_blocks_lru s))"
    using reclaim_shrinks [of s b s1] by (auto simp: acquire_block_ref_def split: prod.splits)
qed auto

declare reclaim_until_acquired.simps [simp del]

definition allocate_block_ref_with_eviction :: "kv_mgr \<Rightarrow> int \<times> kv_mgr" where
  "allocate_block_ref_with_eviction s =
     (case acquire_block_ref s of (r, s1) \<Rightarrow>
        if 0 \<le> r then (r, s1) else reclaim_until_acquired s1)"

text \<open>The loop of \<^verbatim>\<open>allocate_blocks\<close>; the flag says whether it ran to its end.\<close>

primrec allocate_loop :: "nat \<Rightarrow> int \<Rightarrow> kv_mgr \<Rightarrow> bool \<times> kv_mgr" where
  "allocate_loop 0 seq s = (True, s)"
| "allocate_loop (Suc n) seq s =
     (case allocate_block_ref_with_eviction s of (r, s1) \<Rightarrow>
        if r < 0 then (False, s1) else allocate_loop n seq (push_ref seq r s1))"

definition erase_table :: "int \<Rightarrow> kv_mgr \<Rightarrow> kv_mgr" where
  "erase_table seq s = s\<lparr>seq_blocks := AList.delete seq (seq_blocks s)\<rparr>"

definition track_lru :: "int \<Rightarrow> kv_mgr \<Rightarrow> kv_mgr" where
  "track_lru seq s =
     (if seq \<in> set (lru_order s) then s else s\<lparr>lru_order := lru_order s @ [seq]\<rparr>)"

definition allocate_blocks :: "int \<Rightarrow> int \<Rightarrow> kv_mgr \<Rightarrow> bool \<times> kv_mgr" where
  "allocate_blocks seq n s =
     (if n \<le> 0 then (True, s)
      else
        let original_size = length (table_of seq s) in
        case allocate_loop (nat n) seq (set_table seq (table_of seq s) s) of
          (True, s1) \<Rightarrow> (True, track_lru seq s1)
        | (False, s1) \<Rightarrow>
            let s2 = shrink_table seq original_size s1
            in (False, if table_of seq s2 = [] then erase_table seq s2 else s2))"

definition append_block :: "int \<Rightarrow> kv_mgr \<Rightarrow> int \<times> kv_mgr" where
  "append_block seq s =
     (case map_of (seq_blocks s) seq of
        None \<Rightarrow> (-1, s)
      | Some t \<Rightarrow>
          case allocate_block_ref_with_eviction s of (r, s1) \<Rightarrow>
            if r < 0 then (-1, s1) else (r, push_ref seq r s1))"

section \<open>Freeing a sequence\<close>

definition cache_ref :: "int \<Rightarrow> int \<Rightarrow> kv_mgr \<Rightarrow> kv_mgr" where
  "cache_ref b r s =
     s\<lparr>cached_blocks_lru := cached_blocks_lru s @ [b],
       cached_blocks_map := AList.update b r (cached_blocks_map s)\<rparr>"

text \<open>One round of the loop: what is left in the slot, and the state.\<close>

definition free_slot :: "int \<Rightarrow> kv_mgr \<Rightarrow> int \<times> kv_mgr" where
  "free_slot b s =
     (if b < 0 then (b, s)
      else if b \<in> pinned_blocks s then
        (if map_of (cached_blocks_map s) b = None then (-1, cache_ref b b s) else (b, s))
      else if prefix_caching_enabled s \<and> cache_ref_count b s = 1 \<and>
              block_id_to_hash s b \<noteq> None then
        (if map_of (cached_blocks_map s) b = None
         then (-1, (cache_ref b b s)\<lparr>reclaimable_cached_count := reclaimable_cached_count s + 1\<rparr>)
         else (b, s))
      else (b, s))"

primrec free_slots :: "int list \<Rightarrow> kv_mgr \<Rightarrow> int list \<times> kv_mgr" where
  "free_slots [] s = ([], s)"
| "free_slots (b # bs) s =
     (case free_slot b s of (c, s1) \<Rightarrow>
        case free_slots bs s1 of (cs, s2) \<Rightarrow> (c # cs, s2))"

definition free_swa_table :: "int \<Rightarrow> kv_mgr \<Rightarrow> kv_mgr" where
  "free_swa_table seq s =
     (case map_of (seq_swa_blocks s) seq of
        None \<Rightarrow> s
      | Some t \<Rightarrow>
          (fold (\<lambda>b s. if 0 \<le> b then free_swa_block b s else s) t s)
            \<lparr>seq_swa_blocks := AList.delete seq (seq_swa_blocks s),
             swa_trim_cursor := (swa_trim_cursor s)(seq := None)\<rparr>)"

definition free_sequence :: "int \<Rightarrow> kv_mgr \<Rightarrow> kv_mgr" where
  "free_sequence seq s =
     (case map_of (seq_blocks s) seq of
        None \<Rightarrow> s
      | Some t \<Rightarrow>
          case free_slots t s of (t', s1) \<Rightarrow>
            let s2 = drop_refs t' (erase_table seq s1);
                s3 = s2\<lparr>seq_block_hashes := (seq_block_hashes s2)(seq := None)\<rparr>;
                s4 = free_swa_table seq s3;
                s5 = s4\<lparr>kv_res := release_residual_slot seq (kv_res s4)\<rparr>
            in s5\<lparr>lru_order := remove1 seq (lru_order s5)\<rparr>)"

section \<open>LRU order\<close>

definition touch :: "int \<Rightarrow> kv_mgr \<Rightarrow> kv_mgr" where
  "touch seq s = s\<lparr>lru_order := remove1 seq (lru_order s) @ [seq]\<rparr>"

definition evict_lru :: "kv_mgr \<Rightarrow> int \<times> kv_mgr" where
  "evict_lru s =
     (case List.find (\<lambda>q. pinned_seq_blocks s q = None) (lru_order s) of
        None \<Rightarrow> (-1, s)
      | Some q \<Rightarrow> (q, free_sequence q s))"

primrec can_allocate_loop :: "int list \<Rightarrow> int \<Rightarrow> int \<Rightarrow> kv_mgr \<Rightarrow> bool" where
  "can_allocate_loop [] reclaimable n s \<longleftrightarrow> False"
| "can_allocate_loop (q # qs) reclaimable n s \<longleftrightarrow>
     (if pinned_seq_blocks s q \<noteq> None then can_allocate_loop qs reclaimable n s
      else
        let r = (case map_of (seq_blocks s) q of
                   None \<Rightarrow> reclaimable | Some t \<Rightarrow> reclaimable + int (length t))
        in n \<le> r \<or> can_allocate_loop qs r n s)"

definition can_allocate :: "int \<Rightarrow> kv_mgr \<Rightarrow> bool" where
  "can_allocate n s \<longleftrightarrow>
     n \<le> 0 \<or>
     (let reclaimable = num_free_blocks s + reclaimable_cached_count s
      in n \<le> reclaimable \<or> can_allocate_loop (lru_order s) reclaimable n s)"

end
