(* ===== verification/KV_Own.thy ===== *)
theory KV_Own
  imports KV_Alloc
begin

text \<open>
  The invariants of \<^verbatim>\<open>KVCacheManager\<close>, one per concern, and what the allocation and release
  operations do to them. Ownership: the references the block pool counts are exactly those in
  the sequence tables and in the prefix cache. Cache: the LRU list is the key set of the cache
  map, and the reclaimable count is exact. Pins: owners, counts and the pinned set agree.
\<close>

section \<open>Invariants\<close>

definition live :: "int list \<Rightarrow> int list" where
  "live t = filter (\<lambda>b. 0 \<le> b) t"

definition table_refs :: "(int \<times> int list) list \<Rightarrow> int multiset" where
  "table_refs al = \<Sum>\<^sub># (image_mset (\<lambda>e. mset (live (snd e))) (mset al))"

definition kv_refs :: "kv_mgr \<Rightarrow> int multiset" where
  "kv_refs s = table_refs (seq_blocks s) + mset (map snd (cached_blocks_map s))"

text \<open>Ownership while an operation holds the references \<open>X\<close> in local variables.\<close>

definition own_with :: "int multiset \<Rightarrow> kv_mgr \<Rightarrow> bool" where
  "own_with X s \<longleftrightarrow> distinct (map fst (seq_blocks s)) \<and> distinct (map fst (cached_blocks_map s)) \<and>
     (\<forall>e \<in> set (cached_blocks_map s). snd e = fst e) \<and>
     pool_owned (kv_pool s) (kv_refs s + X)"

definition cache_inv :: "kv_mgr \<Rightarrow> bool" where
  "cache_inv s \<longleftrightarrow> distinct (cached_blocks_lru s) \<and>
     set (cached_blocks_lru s) = fst ` set (cached_blocks_map s) \<and>
     reclaimable_cached_count s = int (card (set (cached_blocks_lru s) - pinned_blocks s))"

definition swa_inv :: "kv_mgr \<Rightarrow> bool" where
  "swa_inv s \<longleftrightarrow> distinct (map fst (seq_swa_blocks s)) \<and>
     pool_owned (kv_swa_pool s) (table_refs (seq_swa_blocks s))"

definition hash_inv :: "kv_mgr \<Rightarrow> bool" where
  "hash_inv s \<longleftrightarrow> (\<forall>b h. block_id_to_hash s b = Some h \<longrightarrow> block_hash_to_id s h = Some b)"

text \<open>How often the owners in \<open>fifo\<close> pinned the block \<open>b\<close>.\<close>

definition pin_count :: "(int \<rightharpoonup> int list) \<Rightarrow> int list \<Rightarrow> int \<Rightarrow> nat" where
  "pin_count owners fifo b =
     sum_list (map (\<lambda>q. case owners q of None \<Rightarrow> 0 | Some bs \<Rightarrow> count (mset bs) b) fifo)"

definition pin_inv :: "kv_mgr \<Rightarrow> bool" where
  "pin_inv s \<longleftrightarrow> distinct (map fst (pin_refcount s)) \<and> distinct (pin_fifo s) \<and>
     set (pin_fifo s) = dom (pinned_seq_blocks s) \<and>
     pinned_blocks s = fst ` set (pin_refcount s) \<and>
     (\<forall>b. map_of (pin_refcount s) b =
        (let n = pin_count (pinned_seq_blocks s) (pin_fifo s) b
         in if n = 0 then None else Some (int n)))"

definition kv_inv :: "kv_mgr \<Rightarrow> bool" where
  "kv_inv s \<longleftrightarrow> 0 < kv_block_size s \<and> own_with {#} s \<and> cache_inv s \<and> swa_inv s \<and> hash_inv s \<and>
     pin_inv s \<and> res_inv (kv_res s) \<and> distinct (lru_order s)"

section \<open>Tables and references\<close>

lemma live_simps [simp]:
  "live [] = []" "live (t @ u) = live t @ live u" "0 \<le> b \<Longrightarrow> live (b # t) = b # live t"
  "b < 0 \<Longrightarrow> live (b # t) = live t"
  by (simp_all add: live_def)

lemma table_refs_Nil [simp]: "table_refs [] = {#}"
  by (simp add: table_refs_def)

lemma table_refs_delete:
  assumes "distinct (map fst al)" "map_of al k = Some t"
  shows "table_refs al = mset (live t) + table_refs (AList.delete k al)"
  using alist_delete_image [OF assms, of "\<lambda>e. mset (live (snd e))"] by (simp add: table_refs_def)

lemma table_refs_update:
  assumes "distinct (map fst al)"
  shows "table_refs (AList.update k t al) = mset (live t) + table_refs (AList.delete k al)"
  using alist_update_image [OF assms, of "\<lambda>e. mset (live (snd e))"] by (simp add: table_refs_def)

lemma table_refs_set_table:
  assumes "distinct (map fst (seq_blocks s))"
  shows "table_refs (seq_blocks (set_table seq t s)) + mset (live (table_of seq s)) =
    table_refs (seq_blocks s) + mset (live t)"
proof (cases "map_of (seq_blocks s) seq")
  case None
  with assms show ?thesis
    by (simp add: set_table_def table_refs_update table_of_def alist_delete_None)
next
  case (Some u)
  with assms table_refs_delete [OF assms Some] show ?thesis
    by (simp add: set_table_def table_refs_update table_of_def)
qed

lemma table_of_set_table [simp]: "table_of q (set_table seq t s) = (if q = seq then t else table_of q s)"
  by (simp add: table_of_def set_table_def)

section \<open>Ownership of single steps\<close>

lemma own_acquire_cases:
  assumes "own_with X s" "acquire_block_ref s = (r, s1)"
  obtains (got) p where "0 \<le> r" "own_with (add_mset r X) s1" "r \<notin># kv_refs s + X"
      "s1 = s\<lparr>kv_pool := p\<rparr>" "block_ids p = block_ids (kv_pool s)" "0 < free_blocks (kv_pool s)"
    | (empty) "r = -1" "s1 = s" "free_blocks (kv_pool s) = 0"
proof -
  have own: "pool_owned (kv_pool s) (kv_refs s + X)" using assms(1) by (simp add: own_with_def)
  obtain p where p: "pool_acquire (kv_pool s) = (r, p)" "s1 = s\<lparr>kv_pool := p\<rparr>"
    using assms(2) by (auto simp: acquire_block_ref_def split: prod.splits)
  show thesis
  proof (cases "free_blocks (kv_pool s) = 0")
    case True
    then show thesis using p pool_acquire_empty [OF True] by (intro empty) simp_all
  next
    case False
    from pool_owned_acquire [OF own _ p(1)] False
    have "pool_owned p (add_mset r (kv_refs s + X))" "r \<notin># kv_refs s + X" "0 \<le> r"
      "block_ids p = block_ids (kv_pool s)" by auto
    moreover from this assms(1) p(2) have "own_with (add_mset r X) s1"
      by (simp add: own_with_def kv_refs_def)
    ultimately show thesis using False p(2) by (intro got [of p]) simp_all
  qed
qed

lemma own_set_table:
  assumes "own_with X s" "mset (live t) + Y = mset (live (table_of seq s)) + X"
  shows "own_with Y (set_table seq t s)"
proof -
  have d: "distinct (map fst (seq_blocks s))" using assms(1) by (simp add: own_with_def)
  have "kv_refs (set_table seq t s) + mset (live (table_of seq s)) = kv_refs s + mset (live t)"
    using table_refs_set_table [OF d, of seq t] by (simp add: kv_refs_def set_table_def ac_simps)
  then have "kv_refs (set_table seq t s) + Y + (mset (live (table_of seq s)) + X) =
      kv_refs s + X + (mset (live t) + Y)" by (simp add: ac_simps)
  then have "kv_refs (set_table seq t s) + Y = kv_refs s + X"
    unfolding assms(2) by (rule add_right_imp_eq)
  with assms(1) show ?thesis by (simp add: own_with_def set_table_def)
qed

lemma own_push:
  "own_with (add_mset r X) s \<Longrightarrow> 0 \<le> r \<Longrightarrow> own_with X (push_ref seq r s)"
  unfolding push_ref_def by (rule own_set_table) simp_all

lemma own_drop_refs:
  assumes "own_with (mset (live bs) + X) s"
  shows "own_with X (drop_refs bs s)"
proof -
  have "pool_owned (kv_pool s) (mset (live bs) + (kv_refs s + X))"
    using assms by (simp add: own_with_def ac_simps)
  from pool_owned_release_all [OF this [unfolded live_def]] assms show ?thesis
    by (simp add: own_with_def drop_refs_def kv_refs_def)
qed

lemma own_shrink:
  assumes "own_with X s"
  shows "own_with X (shrink_table seq n s)"
proof -
  have "live (table_of seq s) =
      live (take n (table_of seq s)) @ live (drop n (table_of seq s))"
    by (metis append_take_drop_id live_simps(2))
  then have "own_with (mset (live (drop n (table_of seq s))) + X)
      (set_table seq (take n (table_of seq s)) s)"
    by (intro own_set_table [OF assms]) (simp add: ac_simps)
  then show ?thesis unfolding shrink_table_def by (rule own_drop_refs)
qed

lemma own_erase_table:
  assumes "own_with X s"
  shows "own_with (mset (live (table_of seq s)) + X) (erase_table seq s)"
proof (cases "map_of (seq_blocks s) seq")
  case None
  with assms show ?thesis by (simp add: erase_table_def table_of_def alist_delete_None)
next
  case (Some t)
  have "distinct (map fst (seq_blocks s))" using assms by (simp add: own_with_def)
  from table_refs_delete [OF this Some] assms Some show ?thesis
    by (simp add: own_with_def erase_table_def table_of_def kv_refs_def ac_simps)
qed

lemma own_erase_cached:
  assumes "own_with X s"
  shows "own_with X (erase_cached b s)"
proof (cases "map_of (cached_blocks_map s) b")
  case None
  with assms show ?thesis by (simp add: erase_cached_def)
next
  case (Some r)
  let ?s = "s\<lparr>cached_blocks_map := AList.delete b (cached_blocks_map s)\<rparr>"
  have d: "distinct (map fst (cached_blocks_map s))" using assms by (simp add: own_with_def)
  have m: "mset (map snd (cached_blocks_map s)) =
      add_mset r (mset (map snd (AList.delete b (cached_blocks_map s))))"
    using alist_delete_image [OF d Some, of snd] by simp
  have sub: "set (AList.delete b (cached_blocks_map s)) \<subseteq> set (cached_blocks_map s)"
    by (auto simp: AList.delete_eq)
  have "r \<in># kv_refs s + X" using m by (simp add: kv_refs_def)
  then have "0 \<le> r" using assms pool_ownedD(4) unfolding own_with_def by blast
  then have "own_with (mset (live [r]) + X) ?s"
    using assms m sub by (auto simp: own_with_def kv_refs_def)
  from own_drop_refs [OF this] Some show ?thesis by (simp add: erase_cached_def)
qed

lemma own_cache_ref:
  assumes "own_with (add_mset b X) s" "map_of (cached_blocks_map s) b = None"
  shows "own_with X (cache_ref b b s)"
proof -
  have d: "distinct (map fst (cached_blocks_map s))" using assms(1) by (simp add: own_with_def)
  have "mset (map snd (AList.update b b (cached_blocks_map s))) =
      add_mset b (mset (map snd (cached_blocks_map s)))"
    using alist_update_image [OF d, of snd b b] assms(2) by (simp add: alist_delete_None)
  moreover have "set (AList.update b b (cached_blocks_map s)) \<subseteq> insert (b, b) (set (cached_blocks_map s))"
    using arg_cong [OF alist_update_mset [OF d, of b b], of set_mset] assms(2)
    by (simp add: alist_delete_None)
  ultimately show ?thesis
    using assms(1) by (auto simp: own_with_def cache_ref_def kv_refs_def)
qed

section \<open>Frames\<close>

text \<open>What allocation leaves alone: everything but the pool, the cache and the hash tables.\<close>

definition alloc_frame :: "kv_mgr \<Rightarrow> kv_mgr \<Rightarrow> bool" where
  "alloc_frame s s' \<longleftrightarrow> block_ids (kv_pool s') = block_ids (kv_pool s) \<and>
     seq_blocks s' = seq_blocks s \<and> kv_swa_pool s' = kv_swa_pool s \<and>
     kv_block_size s' = kv_block_size s \<and> kv_swa_max_blocks s' = kv_swa_max_blocks s \<and>
     seq_swa_blocks s' = seq_swa_blocks s \<and> swa_trim_cursor s' = swa_trim_cursor s \<and>
     swa_window s' = swa_window s \<and> swa_slack s' = swa_slack s \<and> lru_order s' = lru_order s \<and>
     prefix_caching_enabled s' = prefix_caching_enabled s \<and>
     seq_block_hashes s' = seq_block_hashes s \<and> pinned_blocks s' = pinned_blocks s \<and>
     pinned_seq_blocks s' = pinned_seq_blocks s \<and> pin_refcount s' = pin_refcount s \<and>
     pin_fifo s' = pin_fifo s \<and> pin_budget_blocks s' = pin_budget_blocks s \<and> kv_res s' = kv_res s"

lemma alloc_frame_refl [simp]: "alloc_frame s s"
  by (simp add: alloc_frame_def)

lemma alloc_frame_trans: "alloc_frame s t \<Longrightarrow> alloc_frame t u \<Longrightarrow> alloc_frame s u"
  by (simp add: alloc_frame_def)

lemma alloc_frame_table [simp]: "alloc_frame s s' \<Longrightarrow> table_of q s' = table_of q s"
  by (simp add: alloc_frame_def table_of_def)

lemma block_ids_ref_reset [simp]: "block_ids (ref_reset b p) = block_ids p"
  by (simp add: block_ids_def ref_reset_def dec_ref_def dec_ref_impl_def Let_def)

lemma block_ids_fold_reset [simp]: "block_ids (fold ref_reset bs p) = block_ids p"
  by (induction bs arbitrary: p) simp_all

lemma alloc_frame_erase_hash [simp]: "alloc_frame s (erase_hash_of b s)"
  by (simp add: alloc_frame_def erase_hash_of_def split: option.splits)

lemma alloc_frame_erase_cached [simp]: "alloc_frame s (erase_cached b s)"
  by (simp add: alloc_frame_def erase_cached_def drop_refs_def split: option.splits)

lemma own_erase_hash [simp]: "own_with X (erase_hash_of b s) \<longleftrightarrow> own_with X s"
  by (simp add: own_with_def kv_refs_def)

lemma cache_inv_erase_hash [simp]: "cache_inv (erase_hash_of b s) \<longleftrightarrow> cache_inv s"
  by (simp add: cache_inv_def)

lemma hash_inv_erase_hash: "hash_inv s \<Longrightarrow> hash_inv (erase_hash_of b s)"
  unfolding hash_inv_def erase_hash_of_def
  by (auto split: option.splits) (metis option.inject)

lemma hash_fields_erase_cached [simp]:
  "block_hash_to_id (erase_cached b s) = block_hash_to_id s"
  "block_id_to_hash (erase_cached b s) = block_id_to_hash s"
  "reclaimable_cached_count (erase_cached b s) = reclaimable_cached_count s"
  "cached_blocks_map (erase_cached b s) = AList.delete b (cached_blocks_map s)"
  "pinned_blocks (erase_cached b s) = pinned_blocks s"
  by (simp_all add: erase_cached_def drop_refs_def alist_delete_None split: option.splits)

section \<open>Reclaiming\<close>

lemma rotate_pinned_first:
  "set us \<subseteq> pins \<Longrightarrow> x \<notin> pins \<Longrightarrow> length us \<le> n \<Longrightarrow>
     rotate_pinned n pins (us @ x # vs) = x # vs @ us"
proof (induction us arbitrary: n vs)
  case Nil
  then show ?case by (cases n) simp_all
next
  case (Cons u us)
  then obtain m where "n = Suc m" by (cases n) simp_all
  with Cons show ?case by simp
qed

lemma cache_inv_nonneg:
  assumes "own_with X s" "cache_inv s" "b \<in> set (cached_blocks_lru s)"
  shows "0 \<le> b" "b \<in># kv_refs s" "map_of (cached_blocks_map s) b = Some b"
proof -
  obtain r where r: "(b, r) \<in> set (cached_blocks_map s)" "r = b"
    using assms by (force simp: cache_inv_def own_with_def)
  then show "b \<in># kv_refs s" by (force simp: kv_refs_def)
  then show "0 \<le> b" using assms(1) pool_ownedD(4) unfolding own_with_def
    by (metis union_iff)
  show "map_of (cached_blocks_map s) b = Some b"
    using r assms(1) by (simp add: own_with_def)
qed

text \<open>
  With a positive count, the reclaimed block is the least recently cached one that is not
  pinned; the pinned ones before it move to the back.
\<close>

lemma reclaim_some:
  assumes own: "own_with X s" and ci: "cache_inv s" and pos: "0 < reclaimable_cached_count s"
  obtains us b vs s' where "cached_blocks_lru s = us @ b # vs" "set us \<subseteq> pinned_blocks s"
    "b \<notin> pinned_blocks s" "reclaim_cached_block s = (b, s')" "0 \<le> b"
    "cached_blocks_lru s' = vs @ us"
    "cached_blocks_map s' = AList.delete b (cached_blocks_map s)"
    "reclaimable_cached_count s' = reclaimable_cached_count s - 1"
    "own_with X s'" "alloc_frame s s'"
    "kv_refs s = add_mset b (kv_refs s')"
    "kv_pool s' = ref_reset b (kv_pool s)"
    "block_hash_to_id s' = block_hash_to_id (erase_hash_of b s)"
    "block_id_to_hash s' = block_id_to_hash (erase_hash_of b s)"
proof -
  have "card (set (cached_blocks_lru s) - pinned_blocks s) \<noteq> 0"
    using ci pos unfolding cache_inv_def by linarith
  then have "set (cached_blocks_lru s) - pinned_blocks s \<noteq> {}" by (metis card.empty)
  then have "\<exists>x \<in> set (cached_blocks_lru s). x \<notin> pinned_blocks s" by blast
  then obtain us b vs where l: "cached_blocks_lru s = us @ b # vs" "b \<notin> pinned_blocks s"
      "\<forall>u \<in> set us. \<not> u \<notin> pinned_blocks s" by (rule split_list_first_propE)
  then have us: "set us \<subseteq> pinned_blocks s" by blast
  have b: "0 \<le> b" "map_of (cached_blocks_map s) b = Some b"
    using cache_inv_nonneg [OF own ci, of b] l(1) by simp_all
  have rot: "rotate_pinned (length (cached_blocks_lru s)) (pinned_blocks s) (cached_blocks_lru s)
      = b # vs @ us"
    unfolding l(1) using us l(2) by (intro rotate_pinned_first) simp_all
  define t where "t = s\<lparr>cached_blocks_lru := vs @ us,
    reclaimable_cached_count := reclaimable_cached_count s - 1\<rparr>"
  have rc: "reclaim_cached_block s = (b, erase_cached b (erase_hash_of b t))"
    using pos rot l(2) by (simp add: reclaim_cached_block_def Let_def t_def)
  have "own_with X t" using own by (simp add: own_with_def kv_refs_def t_def)
  then have own': "own_with X (erase_cached b (erase_hash_of b t))"
    by (intro own_erase_cached) simp
  have d: "distinct (map fst (cached_blocks_map s))" using own by (simp add: own_with_def)
  have h: "block_hash_to_id (erase_hash_of b t) = block_hash_to_id (erase_hash_of b s)"
    "block_id_to_hash (erase_hash_of b t) = block_id_to_hash (erase_hash_of b s)"
    by (simp_all add: erase_hash_of_def t_def split: option.splits)
  have fr: "alloc_frame s (erase_cached b (erase_hash_of b t))"
    by (rule alloc_frame_trans [of _ t])
      (simp add: alloc_frame_def t_def, blast intro: alloc_frame_trans alloc_frame_erase_hash
        alloc_frame_erase_cached)
  show thesis
  proof (rule that [OF l(1) us l(2) rc b(1)])
    show "kv_refs s = add_mset b (kv_refs (erase_cached b (erase_hash_of b t)))"
      using alist_delete_image [OF d b(2), of snd] fr
      by (simp add: kv_refs_def t_def alloc_frame_def)
    show "kv_pool (erase_cached b (erase_hash_of b t)) = ref_reset b (kv_pool s)"
      using b(2) by (simp add: erase_cached_def drop_refs_def t_def)
  qed (use own' fr h in \<open>simp_all add: t_def\<close>)
qed

lemma cache_inv_reclaimed:
  assumes "cache_inv s" "cached_blocks_lru s = us @ b # vs" "b \<notin> pinned_blocks s"
    and "cached_blocks_lru s' = vs @ us" "pinned_blocks s' = pinned_blocks s"
    and "cached_blocks_map s' = AList.delete b (cached_blocks_map s)"
    and "reclaimable_cached_count s' = reclaimable_cached_count s - 1"
  shows "cache_inv s'"
proof -
  let ?L = "set (cached_blocks_lru s)"
  have l: "set (cached_blocks_lru s') = ?L - {b}" "b \<in> ?L"
    using assms(1,2,4) by (auto simp: cache_inv_def)
  have keys: "fst ` set (AList.delete b (cached_blocks_map s)) =
      fst ` set (cached_blocks_map s) - {b}"
    by (auto simp: AList.delete_eq image_iff)
  have crd: "card (?L - {b} - pinned_blocks s) + 1 = card (?L - pinned_blocks s)"
  proof -
    have "?L - {b} - pinned_blocks s = (?L - pinned_blocks s) - {b}" by blast
    moreover have "b \<in> ?L - pinned_blocks s" using l(2) assms(3) by blast
    ultimately show ?thesis by (metis List.finite_set Suc_eq_plus1 card.remove finite_Diff)
  qed
  show ?thesis unfolding cache_inv_def
  proof (intro conjI)
    show "distinct (cached_blocks_lru s')" using assms(1,2,4) by (auto simp: cache_inv_def)
    show "set (cached_blocks_lru s') = fst ` set (cached_blocks_map s')"
      using assms(1) by (simp add: l(1) assms(6) keys cache_inv_def)
    show "reclaimable_cached_count s' =
        int (card (set (cached_blocks_lru s') - pinned_blocks s'))"
      unfolding l(1) assms(5,7) using crd assms(1) unfolding cache_inv_def by linarith
  qed
qed

section \<open>Allocation of one block\<close>

definition alloc_inv :: "int multiset \<Rightarrow> kv_mgr \<Rightarrow> bool" where
  "alloc_inv X s \<longleftrightarrow> own_with X s \<and> cache_inv s \<and> hash_inv s"

text \<open>
  The blocks an allocation can obtain: those on the free list, and the unpinned cached ones
  whose only reference is the cache's.
\<close>

definition sole_cached :: "kv_mgr \<Rightarrow> int set" where
  "sole_cached s =
     {b \<in> set (cached_blocks_lru s). b \<notin> pinned_blocks s \<and> refs_of (kv_pool s) b = 1}"

definition avail :: "kv_mgr \<Rightarrow> nat" where
  "avail s = free_blocks (kv_pool s) + card (sole_cached s)"

lemma finite_sole_cached [simp]: "finite (sole_cached s)"
  by (simp add: sole_cached_def)

lemma pool_release_free:
  assumes "pool_owned p (add_mset b M)"
  shows "free_blocks (ref_reset b p) = free_blocks p + (if refs_of p b = 1 then 1 else 0)"
    "refs_of (ref_reset b p) = (refs_of p)(b := refs_of p b - 1)"
proof -
  have b: "b \<in># add_mset b M" by simp
  note i = pool_ownedD(1) [OF assms] pool_ownedD(2,3) [OF assms b]
  show "refs_of (ref_reset b p) = (refs_of p)(b := refs_of p b - 1)"
    using bp.release_live [OF i] by simp
  have own': "pool_owned (ref_reset b p) M" using pool_owned_release(1) [OF assms] .
  have c: "refs_of p b = count M b + 1" using pool_ownedD(5) [OF assms i(2)] by simp
  have "card (set_mset (add_mset b M)) =
      card (set_mset M) + (if refs_of p b = 1 then 1 else 0)"
    by (simp add: c card_insert_if count_eq_zero_iff)
  then show "free_blocks (ref_reset b p) = free_blocks p + (if refs_of p b = 1 then 1 else 0)"
    using pool_owned_conservation [OF assms] pool_owned_conservation [OF own']
    by (simp split: if_splits)
qed

lemma avail_reclaim:
  assumes "own_with X s" "cache_inv s"
    and "cached_blocks_lru s = us @ b # vs" "b \<notin> pinned_blocks s"
    and "cached_blocks_lru s' = vs @ us" "pinned_blocks s' = pinned_blocks s"
    and "kv_pool s' = ref_reset b (kv_pool s)"
  shows "avail s' = avail s"
    "free_blocks (kv_pool s') = free_blocks (kv_pool s) + (if b \<in> sole_cached s then 1 else 0)"
    "sole_cached s' = sole_cached s - {b}"
proof -
  have "b \<in># kv_refs s + X" using cache_inv_nonneg(2) [OF assms(1,2), of b] assms(3) by simp
  then obtain M where "kv_refs s + X = add_mset b M" by (meson multi_member_split)
  then have "pool_owned (kv_pool s) (add_mset b M)" using assms(1) by (simp add: own_with_def)
  note f = pool_release_free [OF this]
  have bs: "b \<in> sole_cached s \<longleftrightarrow> refs_of (kv_pool s) b = 1"
    using assms(3,4) by (simp add: sole_cached_def)
  then show fr: "free_blocks (kv_pool s') =
      free_blocks (kv_pool s) + (if b \<in> sole_cached s then 1 else 0)"
    using f(1) assms(7) by simp
  have d: "b \<notin> set us" "b \<notin> set vs" using assms(2,3) by (auto simp: cache_inv_def)
  then show sc: "sole_cached s' = sole_cached s - {b}"
    using assms(3,5,6,7) f(2) by (auto simp: sole_cached_def)
  show "avail s' = avail s"
  proof (cases "b \<in> sole_cached s")
    case True
    then have "card (sole_cached s) = card (sole_cached s - {b}) + 1"
      by (metis Suc_eq_plus1 card.remove finite_sole_cached)
    with True fr sc show ?thesis by (simp add: avail_def)
  qed (use fr sc in \<open>simp add: avail_def\<close>)
qed

lemma avail_acquire:
  assumes "own_with X s" "cache_inv s" "acquire_block_ref s = (r, s1)" "0 \<le> r"
  shows "avail s = avail s1 + 1" "alloc_frame s s1"
proof -
  have own: "pool_owned (kv_pool s) (kv_refs s + X)" using assms(1) by (simp add: own_with_def)
  from own_acquire_cases [OF assms(1,3)] obtain p where
    o: "own_with (add_mset r X) s1" "r \<notin># kv_refs s + X" "s1 = s\<lparr>kv_pool := p\<rparr>"
      "block_ids p = block_ids (kv_pool s)" "0 < free_blocks (kv_pool s)"
    using assms(4) by (auto elim: own_acquire_cases [OF assms(1,3)])
  show "alloc_frame s s1" using o by (simp add: alloc_frame_def)
  have pa: "pool_acquire (kv_pool s) = (r, p)"
    using assms(3) o(3) by (auto simp: acquire_block_ref_def split: prod.splits)
      (metis kv_mgr.ext_inject kv_mgr.surjective kv_mgr.update_convs(1))
  have rf: "refs_of p = (refs_of (kv_pool s))(r := 1)"
    using bp.acq_some [OF pool_ownedD(1) [OF own] o(5) pa] by simp
  have nr: "r \<notin> set (cached_blocks_lru s)"
    using cache_inv_nonneg(2) [OF assms(1,2), of r] o(2) by auto
  then have "sole_cached s1 = sole_cached s" using o(3) rf by (auto simp: sole_cached_def)
  moreover have "free_blocks (kv_pool s) = free_blocks p + 1"
  proof -
    have "pool_owned p (add_mset r (kv_refs s + X))"
      using o(1,3) by (simp add: own_with_def kv_refs_def)
    from pool_owned_conservation [OF this] pool_owned_conservation [OF own] o(2,4)
    show ?thesis by simp
  qed
  ultimately show "avail s = avail s1 + 1" using o(3) by (simp add: avail_def)
qed

lemma sole_cached_empty:
  assumes "cache_inv s" "reclaimable_cached_count s \<le> 0"
  shows "sole_cached s = {}"
proof -
  have "card (set (cached_blocks_lru s) - pinned_blocks s) = 0"
    using assms unfolding cache_inv_def by linarith
  then have "set (cached_blocks_lru s) \<subseteq> pinned_blocks s" by (simp only: card_0_eq finite_Diff
        List.finite_set Diff_eq_empty_iff)
  then show ?thesis by (auto simp: sole_cached_def)
qed

text \<open>The outcome of an allocation that starts from a state with invariants.\<close>

definition alloc_outcome :: "int multiset \<Rightarrow> kv_mgr \<Rightarrow> int \<Rightarrow> kv_mgr \<Rightarrow> bool" where
  "alloc_outcome X s r s' \<longleftrightarrow> alloc_frame s s' \<and>
     (if avail s = 0 then r = -1 \<and> alloc_inv X s' \<and> avail s' = 0
      else 0 \<le> r \<and> alloc_inv (add_mset r X) s' \<and> avail s = avail s' + 1 \<and>
           r \<notin># table_refs (seq_blocks s) + X)"

lemma alloc_outcome_acquire:
  assumes "alloc_inv X s" "acquire_block_ref s = (r, s1)" "0 \<le> r"
  shows "alloc_outcome X s r s1"
proof -
  have ai: "own_with X s" "cache_inv s" "hash_inv s" using assms(1) by (simp_all add: alloc_inv_def)
  note av = avail_acquire [OF ai(1,2) assms(2,3)]
  obtain p where o: "own_with (add_mset r X) s1" "r \<notin># kv_refs s + X" "s1 = s\<lparr>kv_pool := p\<rparr>"
    using assms(3) by (cases rule: own_acquire_cases [OF ai(1) assms(2)]) auto
  have "cache_inv s1" "hash_inv s1" using ai o(3) by (simp_all add: cache_inv_def hash_inv_def)
  with av o assms(3) show ?thesis
    by (auto simp: alloc_outcome_def alloc_inv_def kv_refs_def)
qed

lemma alloc_outcome_trans:
  assumes "alloc_outcome X s1 r s'" "alloc_frame s s1" "avail s1 = avail s"
  shows "alloc_outcome X s r s'"
  using assms alloc_frame_trans [of s s1 s'] by (auto simp: alloc_outcome_def alloc_frame_def)

lemma reclaim_until_outcome:
  "alloc_inv X s \<Longrightarrow> free_blocks (kv_pool s) = 0 \<Longrightarrow> reclaim_until_acquired s = (r, s') \<Longrightarrow>
     alloc_outcome X s r s'"
proof (induction s rule: reclaim_until_acquired.induct)
  case (1 s)
  have ai: "own_with X s" "cache_inv s" "hash_inv s" using 1(2) by (simp_all add: alloc_inv_def)
  show ?case
  proof (cases "0 < reclaimable_cached_count s")
    case False
    then have "sole_cached s = {}" using ai(2) by (intro sole_cached_empty) simp_all
    moreover have "reclaim_cached_block s = (-1, s)"
      using False by (simp add: reclaim_cached_block_def)
    ultimately show ?thesis
      using 1(2-4) by (auto simp: alloc_outcome_def avail_def reclaim_until_acquired.simps [of s]
          split: if_splits)
  next
    case True
    from reclaim_some [OF ai(1,2) True] obtain us b vs s1 where
      l: "cached_blocks_lru s = us @ b # vs" "b \<notin> pinned_blocks s" "0 \<le> b"
      and rc: "reclaim_cached_block s = (b, s1)"
      and l1: "cached_blocks_lru s1 = vs @ us"
        "cached_blocks_map s1 = AList.delete b (cached_blocks_map s)"
        "reclaimable_cached_count s1 = reclaimable_cached_count s - 1"
      and o: "own_with X s1" "alloc_frame s s1" "kv_pool s1 = ref_reset b (kv_pool s)"
      and h: "block_hash_to_id s1 = block_hash_to_id (erase_hash_of b s)"
        "block_id_to_hash s1 = block_id_to_hash (erase_hash_of b s)" by metis
    have pin: "pinned_blocks s1 = pinned_blocks s" using o(2) by (simp add: alloc_frame_def)
    have ai1: "alloc_inv X s1"
      using o(1) cache_inv_reclaimed [OF ai(2) l(1,2) l1(1) pin l1(2,3)]
        hash_inv_erase_hash [OF ai(3), of b] h by (simp add: alloc_inv_def hash_inv_def)
    note av = avail_reclaim(1) [OF ai(1,2) l(1,2) l1(1) pin o(3)]
    obtain r1 s2 where acq: "acquire_block_ref s1 = (r1, s2)" by fastforce
    have e: "(r, s') = (if 0 \<le> r1 then (r1, s2) else reclaim_until_acquired s2)"
      using 1(4) l rc acq by (simp add: reclaim_until_acquired.simps [of s])
    have "alloc_outcome X s1 r s'"
    proof (cases "0 \<le> r1")
      case True
      with e alloc_outcome_acquire [OF ai1 acq True] show ?thesis by simp
    next
      case False
      then have s2: "s2 = s1" "free_blocks (kv_pool s1) = 0"
        using own_acquire_cases [OF o(1) acq] by auto
      from 1(1) [OF _ rc [symmetric] _ acq [symmetric]] e False l ai1 s2 show ?thesis by simp
    qed
    then show ?thesis using alloc_outcome_trans o(2) av by blast
  qed
qed

lemma allocate_ref_outcome:
  assumes "alloc_inv X s" "allocate_block_ref_with_eviction s = (r, s')"
  shows "alloc_outcome X s r s'"
proof -
  obtain r1 s1 where acq: "acquire_block_ref s = (r1, s1)" by fastforce
  show ?thesis
  proof (cases "0 \<le> r1")
    case True
    with alloc_outcome_acquire [OF assms(1) acq True] assms(2) acq show ?thesis
      by (simp add: allocate_block_ref_with_eviction_def)
  next
    case False
    have "own_with X s" using assms(1) by (simp add: alloc_inv_def)
    from own_acquire_cases [OF this acq] False
    have "s1 = s" "free_blocks (kv_pool s) = 0" by auto
    with reclaim_until_outcome [OF assms(1)] assms(2) acq False show ?thesis
      by (simp add: allocate_block_ref_with_eviction_def)
  qed
qed

section \<open>Allocation of several blocks\<close>

text \<open>What an operation on one sequence leaves alone beyond the allocation frame.\<close>

definition table_frame :: "int \<Rightarrow> kv_mgr \<Rightarrow> kv_mgr \<Rightarrow> bool" where
  "table_frame seq s s' \<longleftrightarrow> alloc_frame (s\<lparr>seq_blocks := seq_blocks s'\<rparr>) s' \<and>
     (\<forall>q. q \<noteq> seq \<longrightarrow> map_of (seq_blocks s') q = map_of (seq_blocks s) q)"

lemma table_frame_refl [simp]: "table_frame seq s s"
  by (simp add: table_frame_def alloc_frame_def)

lemma table_frame_trans: "table_frame seq s t \<Longrightarrow> table_frame seq t u \<Longrightarrow> table_frame seq s u"
  by (simp add: table_frame_def alloc_frame_def)

lemma alloc_table_frame: "alloc_frame s s' \<Longrightarrow> table_frame seq s s'"
  by (simp add: table_frame_def alloc_frame_def)

lemma table_frame_set_table [simp]: "table_frame seq s (set_table seq t s)"
  by (simp add: table_frame_def alloc_frame_def set_table_def)

lemma table_frame_drop_refs [simp]: "table_frame seq s (drop_refs bs s)"
  by (simp add: table_frame_def alloc_frame_def drop_refs_def)

lemma table_frame_push [simp]: "table_frame seq s (push_ref seq r s)"
  by (simp add: push_ref_def)

lemma table_frame_shrink [simp]: "table_frame seq s (shrink_table seq n s)"
  unfolding shrink_table_def
  by (rule table_frame_trans [OF table_frame_set_table table_frame_drop_refs])

lemma table_frame_erase [simp]: "table_frame seq s (erase_table seq s)"
  by (simp add: table_frame_def alloc_frame_def erase_table_def)

lemma table_frame_other: "table_frame seq s s' \<Longrightarrow> q \<noteq> seq \<Longrightarrow> table_of q s' = table_of q s"
  by (simp add: table_frame_def table_of_def)

text \<open>The allocation invariant reads only the pool, the tables, the cache and the hashes.\<close>

lemma cache_inv_table_ops [simp]:
  "cache_inv (set_table seq t s) = cache_inv s" "cache_inv (drop_refs bs s) = cache_inv s"
  "cache_inv (erase_table seq s) = cache_inv s"
  "hash_inv (set_table seq t s) = hash_inv s" "hash_inv (drop_refs bs s) = hash_inv s"
  "hash_inv (erase_table seq s) = hash_inv s"
  by (simp_all add: cache_inv_def hash_inv_def set_table_def drop_refs_def erase_table_def)

lemma alloc_inv_push:
  "alloc_inv (add_mset r X) s \<Longrightarrow> 0 \<le> r \<Longrightarrow> alloc_inv X (push_ref seq r s)"
  using own_push [of r X s seq] by (simp add: alloc_inv_def push_ref_def)

lemma alloc_inv_shrink: "alloc_inv X s \<Longrightarrow> alloc_inv X (shrink_table seq n s)"
  using own_shrink [of X s seq n] by (simp add: alloc_inv_def shrink_table_def)

lemma avail_push [simp]: "avail (push_ref seq r s) = avail s"
  by (simp add: avail_def sole_cached_def push_ref_def set_table_def)

lemma table_of_push [simp]:
  "table_of q (push_ref seq r s) = (if q = seq then table_of seq s @ [r] else table_of q s)"
  by (simp add: push_ref_def)

lemma table_of_shrink [simp]:
  "table_of q (shrink_table seq n s) =
     (if q = seq then take n (table_of seq s) else table_of q s)"
  by (simp add: shrink_table_def drop_refs_def table_of_def set_table_def)

lemma table_refs_mono:
  assumes "distinct (map fst (seq_blocks s))"
  shows "mset (live (table_of seq s)) \<subseteq># table_refs (seq_blocks s)"
  using assms table_refs_delete [of "seq_blocks s" seq]
  by (cases "map_of (seq_blocks s) seq") (auto simp: table_of_def)

lemma table_refs_push:
  assumes "distinct (map fst (seq_blocks s))" "0 \<le> r"
  shows "table_refs (seq_blocks (push_ref seq r s)) = add_mset r (table_refs (seq_blocks s))"
  using table_refs_set_table [OF assms(1), of seq "table_of seq s @ [r]"] assms(2)
  by (simp add: push_ref_def)

lemma allocate_loop_outcome:
  "alloc_inv X s \<Longrightarrow> allocate_loop n seq s = (ok, s') \<Longrightarrow>
     \<exists>rs. table_of seq s' = table_of seq s @ rs \<and> alloc_inv X s' \<and> table_frame seq s s' \<and>
       ok = (n \<le> avail s) \<and> length rs = min n (avail s) \<and> avail s' = avail s - n \<and>
       distinct rs \<and> (\<forall>r \<in> set rs. 0 \<le> r \<and> r \<notin># table_refs (seq_blocks s) + X)"
proof (induction n arbitrary: s)
  case 0
  then show ?case by simp
next
  case (Suc n)
  obtain r s1 where a: "allocate_block_ref_with_eviction s = (r, s1)" by fastforce
  note o = allocate_ref_outcome [OF Suc.prems(1) a]
  show ?case
  proof (cases "avail s = 0")
    case True
    with o a Suc.prems(2) show ?thesis
      by (auto simp: alloc_outcome_def intro: alloc_table_frame)
  next
    case False
    let ?s2 = "push_ref seq r s1"
    have r: "0 \<le> r" "alloc_inv (add_mset r X) s1" "avail s = avail s1 + 1" "alloc_frame s s1"
      "r \<notin># table_refs (seq_blocks s) + X"
      using o False by (simp_all add: alloc_outcome_def)
    have ai: "alloc_inv X ?s2" using alloc_inv_push r(1,2) by blast
    have "allocate_loop n seq ?s2 = (ok, s')" using Suc.prems(2) a r(1) by simp
    from Suc.IH [OF ai this] obtain rs where rs:
      "table_of seq s' = table_of seq ?s2 @ rs" "alloc_inv X s'" "table_frame seq ?s2 s'"
      "ok = (n \<le> avail ?s2)" "length rs = min n (avail ?s2)" "avail s' = avail ?s2 - n"
      "distinct rs" "\<forall>c \<in> set rs. 0 \<le> c \<and> c \<notin># table_refs (seq_blocks ?s2) + X" by blast
    have d: "distinct (map fst (seq_blocks s1))" "seq_blocks s1 = seq_blocks s"
      using r(2,4) by (simp_all add: alloc_inv_def own_with_def alloc_frame_def)
    note tp = table_refs_push [OF d(1) r(1), of seq]
    have "table_frame seq s s'"
      using table_frame_trans [OF alloc_table_frame [OF r(4)]] rs(3) table_frame_trans
        table_frame_push by blast
    then show ?thesis
      using rs r d tp by (intro exI [of _ "r # rs"]) auto
  qed
qed

end
