(* ===== verification/KV_Alloc_Inv.thy ===== *)
theory KV_Alloc_Inv
  imports KV_Own
begin

text \<open>
  Allocation and release preserve the whole invariant of \<^verbatim>\<open>KVCacheManager\<close>, with what each
  does to the tables: \<^verbatim>\<open>allocate_blocks\<close> is all or nothing and succeeds exactly when enough
  blocks are free or solely cached, \<^verbatim>\<open>free_sequence\<close> hands hashed and pinned blocks to the
  cache and returns the rest.
\<close>

section \<open>Lifting to the whole invariant\<close>

lemma kv_inv_alloc_inv: "kv_inv s \<Longrightarrow> alloc_inv {#} s"
  by (simp add: kv_inv_def alloc_inv_def)

lemma kv_inv_table_frame:
  assumes "kv_inv s" "table_frame seq s s'" "alloc_inv {#} s'"
  shows "kv_inv s'"
  using assms by (auto simp: kv_inv_def alloc_inv_def table_frame_def alloc_frame_def swa_inv_def
      pin_inv_def)

lemma kv_inv_lru: "kv_inv s \<Longrightarrow> distinct l \<Longrightarrow> kv_inv (s\<lparr>lru_order := l\<rparr>)"
  by (simp add: kv_inv_def own_with_def kv_refs_def cache_inv_def swa_inv_def hash_inv_def
      pin_inv_def)

lemma kv_inv_track_lru: "kv_inv s \<Longrightarrow> kv_inv (track_lru seq s)"
  by (auto simp: track_lru_def intro!: kv_inv_lru) (simp add: kv_inv_def)

lemma alloc_inv_erase_table:
  assumes "alloc_inv X s" "table_of seq s = []"
  shows "alloc_inv X (erase_table seq s)"
  using own_erase_table [of X s seq] assms by (simp add: alloc_inv_def)

lemma alloc_inv_touch_entry: "alloc_inv X s \<Longrightarrow> alloc_inv X (set_table seq (table_of seq s) s)"
  using own_set_table [of X s "table_of seq s" X seq] by (simp add: alloc_inv_def)

lemma avail_set_table [simp]: "avail (set_table seq t s) = avail s"
  by (simp add: avail_def sole_cached_def set_table_def)

lemma table_of_track_lru [simp]: "table_of q (track_lru seq s) = table_of q s"
  by (simp add: track_lru_def table_of_def)

lemma table_of_erase_table [simp]:
  "table_of q (erase_table seq s) = (if q = seq then [] else table_of q s)"
  by (simp add: erase_table_def table_of_def)

lemma table_refs_touch_entry:
  "distinct (map fst (seq_blocks s)) \<Longrightarrow>
     table_refs (seq_blocks (set_table seq (table_of seq s) s)) = table_refs (seq_blocks s)"
  using table_refs_set_table [of s seq "table_of seq s"] by simp

section \<open>Allocating\<close>

lemma allocate_blocks_outcome:
  assumes inv: "kv_inv s" and al: "allocate_blocks seq n s = (ok, s')"
  shows "kv_inv s' \<and> ok = (n \<le> int (avail s)) \<and>
    (\<forall>q. q \<noteq> seq \<longrightarrow> table_of q s' = table_of q s) \<and>
    (if ok then \<exists>rs. table_of seq s' = table_of seq s @ rs \<and> length rs = nat n \<and> distinct rs \<and>
         (\<forall>r \<in> set rs. 0 \<le> r \<and> r \<notin># table_refs (seq_blocks s))
     else table_of seq s' = table_of seq s)"
proof (cases "n \<le> 0")
  case True
  with assms show ?thesis by (auto simp: allocate_blocks_def)
next
  case False
  let ?s0 = "set_table seq (table_of seq s) s"
  have ai: "alloc_inv {#} ?s0" using kv_inv_alloc_inv [OF inv] by (rule alloc_inv_touch_entry)
  have d: "distinct (map fst (seq_blocks s))"
    using inv by (simp add: kv_inv_def own_with_def)
  obtain ok1 s1 where l: "allocate_loop (nat n) seq ?s0 = (ok1, s1)" by fastforce
  from allocate_loop_outcome [OF ai l] obtain rs where rs:
    "table_of seq s1 = table_of seq s @ rs" "alloc_inv {#} s1" "table_frame seq ?s0 s1"
    "ok1 = (nat n \<le> avail s)" "length rs = min (nat n) (avail s)" "distinct rs"
    "\<forall>r \<in> set rs. 0 \<le> r \<and> r \<notin># table_refs (seq_blocks s)"
    using table_refs_touch_entry [OF d] by auto
  have fr: "table_frame seq s s1"
    using table_frame_trans [OF table_frame_set_table rs(3)] .
  note inv1 = kv_inv_table_frame [OF inv fr rs(2)]
  note others = table_frame_other [OF fr]
  have okn: "ok1 = (n \<le> int (avail s))" using rs(4) False by (simp add: nat_le_iff)
  show ?thesis
  proof (cases ok1)
    case True
    then have "ok" "s' = track_lru seq s1" using al False l by (simp_all add: allocate_blocks_def)
    with True inv1 kv_inv_track_lru okn others rs(1,4-7) show ?thesis by auto
  next
    case nok: False
    let ?s2 = "shrink_table seq (length (table_of seq s)) s1"
    let ?s3 = "if table_of seq s = [] then erase_table seq ?s2 else ?s2"
    have "\<not> ok" "s' = ?s3" using al False l nok rs(1) by (auto simp: allocate_blocks_def Let_def)
    moreover have "alloc_inv {#} ?s3"
      using alloc_inv_shrink [OF rs(2)] alloc_inv_erase_table rs(1) by auto
    moreover have "table_frame seq s ?s3"
      using fr table_frame_trans table_frame_shrink table_frame_erase by (metis (full_types))
    ultimately show ?thesis
      using kv_inv_table_frame [OF inv, of seq ?s3] okn nok others rs(1) by auto
  qed
qed

lemma append_block_outcome:
  assumes inv: "kv_inv s" and ap: "append_block seq s = (r, s')"
  shows "kv_inv s' \<and> (\<forall>q. q \<noteq> seq \<longrightarrow> table_of q s' = table_of q s) \<and>
    (if map_of (seq_blocks s) seq \<noteq> None \<and> 0 < avail s
     then 0 \<le> r \<and> r \<notin># table_refs (seq_blocks s) \<and> table_of seq s' = table_of seq s @ [r]
     else r = -1 \<and> table_of seq s' = table_of seq s)"
proof (cases "map_of (seq_blocks s) seq")
  case None
  with assms show ?thesis by (simp add: append_block_def)
next
  case (Some t)
  obtain c s1 where a: "allocate_block_ref_with_eviction s = (c, s1)" by fastforce
  note o = allocate_ref_outcome [OF kv_inv_alloc_inv [OF inv] a]
  have fr: "table_frame seq s s1" using o by (simp add: alloc_outcome_def alloc_table_frame)
  show ?thesis
  proof (cases "avail s = 0")
    case True
    with o Some a ap kv_inv_table_frame [OF inv fr] show ?thesis
      by (auto simp: append_block_def alloc_outcome_def)
  next
    case False
    then have c: "0 \<le> c" "alloc_inv {#c#} s1" "c \<notin># table_refs (seq_blocks s)" "alloc_frame s s1"
      using o by (simp_all add: alloc_outcome_def)
    then have "alloc_inv {#} (push_ref seq c s1)" by (intro alloc_inv_push)
    moreover have "table_frame seq s (push_ref seq c s1)"
      using fr table_frame_push by (rule table_frame_trans)
    ultimately have "kv_inv (push_ref seq c s1)" using kv_inv_table_frame [OF inv] by blast
    moreover have e: "r = c" "s' = push_ref seq c s1"
      using ap Some a c(1) by (auto simp: append_block_def)
    ultimately show ?thesis unfolding e using c Some False by simp
  qed
qed

section \<open>Freeing a sequence\<close>

text \<open>The loop touches the cache only.\<close>

definition cache_frame :: "kv_mgr \<Rightarrow> kv_mgr \<Rightarrow> bool" where
  "cache_frame s s' \<longleftrightarrow> alloc_frame s s' \<and> kv_pool s' = kv_pool s \<and>
     block_hash_to_id s' = block_hash_to_id s \<and> block_id_to_hash s' = block_id_to_hash s"

lemma cache_frame_refl [simp]: "cache_frame s s"
  by (simp add: cache_frame_def)

lemma cache_frame_trans: "cache_frame s t \<Longrightarrow> cache_frame t u \<Longrightarrow> cache_frame s u"
  unfolding cache_frame_def using alloc_frame_trans by auto

lemma free_slot_frame: "free_slot b s = (c, s') \<Longrightarrow> cache_frame s s'"
  by (auto simp: free_slot_def cache_ref_def cache_frame_def alloc_frame_def split: if_splits)

lemma free_slots_frame: "free_slots bs s = (cs, s') \<Longrightarrow> cache_frame s s'"
  by (induction bs arbitrary: s cs)
    (auto split: prod.splits dest!: free_slot_frame intro: cache_frame_trans)

lemma cache_inv_push:
  assumes "cache_inv s" "map_of (cached_blocks_map s) b = None" "distinct (map fst (cached_blocks_map s))"
  shows "b \<in> pinned_blocks s \<Longrightarrow> cache_inv (cache_ref b b s)"
    "b \<notin> pinned_blocks s \<Longrightarrow> cache_inv ((cache_ref b b s)
       \<lparr>reclaimable_cached_count := reclaimable_cached_count s + 1\<rparr>)"
proof -
  let ?L = "set (cached_blocks_lru s)"
  have nb: "b \<notin> ?L" using assms(1,2) by (simp add: cache_inv_def map_of_eq_None_iff)
  have keys: "fst ` set (AList.update b b (cached_blocks_map s)) =
      insert b (fst ` set (cached_blocks_map s))"
    by (metis dom_map_of_conv_image_fst alist_map_of_update dom_fun_upd option.distinct(1))
  have set_eq: "insert b ?L = fst ` set (AList.update b b (cached_blocks_map s))"
    using assms(1) unfolding keys by (simp add: cache_inv_def)
  show "cache_inv (cache_ref b b s)" if "b \<in> pinned_blocks s"
  proof -
    have "insert b ?L - pinned_blocks s = ?L - pinned_blocks s" using that by blast
    with assms(1) nb set_eq show ?thesis by (auto simp: cache_inv_def cache_ref_def)
  qed
  show "cache_inv ((cache_ref b b s)\<lparr>reclaimable_cached_count := reclaimable_cached_count s + 1\<rparr>)"
    if "b \<notin> pinned_blocks s"
  proof -
    have "insert b ?L - pinned_blocks s = insert b (?L - pinned_blocks s)" using that by blast
    then have "card (insert b ?L - pinned_blocks s) = card (?L - pinned_blocks s) + 1"
      using nb by simp
    with assms(1) nb set_eq show ?thesis unfolding cache_inv_def cache_ref_def by simp
  qed
qed

lemma free_slot_alloc_inv:
  assumes ai: "alloc_inv (mset (live [b]) + X) s" and fs: "free_slot b s = (c, s')"
  shows "alloc_inv (mset (live [c]) + X) s'"
proof (cases "s' = s \<and> c = b")
  case True
  with ai show ?thesis by simp
next
  case False
  then have b: "0 \<le> b" "c = -1" "map_of (cached_blocks_map s) b = None"
    and s': "s' = (if b \<in> pinned_blocks s then cache_ref b b s
       else (cache_ref b b s)\<lparr>reclaimable_cached_count := reclaimable_cached_count s + 1\<rparr>)"
    using fs by (auto simp: free_slot_def split: if_splits)
  have o: "own_with (add_mset b X) s" "cache_inv s" "hash_inv s"
    using ai b(1) by (simp_all add: alloc_inv_def)
  have d: "distinct (map fst (cached_blocks_map s))" using o(1) by (simp add: own_with_def)
  have "own_with X s'" using own_cache_ref [OF o(1) b(3)] unfolding s'
    by (simp add: own_with_def kv_refs_def)
  moreover have "cache_inv s'" unfolding s' using cache_inv_push [OF o(2) b(3) d] by simp
  moreover have "hash_inv s'" using o(3) unfolding s' by (simp add: hash_inv_def cache_ref_def)
  ultimately show ?thesis using b(2) by (simp add: alloc_inv_def)
qed

lemma free_slots_alloc_inv:
  "alloc_inv (mset (live bs) + X) s \<Longrightarrow> free_slots bs s = (cs, s') \<Longrightarrow>
     alloc_inv (mset (live cs) + X) s'"
proof (induction bs arbitrary: s cs X)
  case Nil
  then show ?case by simp
next
  case (Cons b bs)
  obtain c s1 where f: "free_slot b s = (c, s1)" by fastforce
  obtain ds where g: "free_slots bs s1 = (ds, s')" "cs = c # ds"
    using Cons.prems(2) f by (auto split: prod.splits)
  have split: "mset (live (x # xs)) = mset (live [x]) + mset (live xs)" for x xs
    by (simp add: live_def)
  have "alloc_inv (mset (live [b]) + (mset (live bs) + X)) s"
    using Cons.prems(1) unfolding split [of b bs] by (simp add: ac_simps)
  from free_slot_alloc_inv [OF this f]
  have "alloc_inv (mset (live bs) + (mset (live [c]) + X)) s1" by (simp add: ac_simps)
  from Cons.IH [OF this g(1)] show ?case
    unfolding g(2) split [of c ds] by (simp add: ac_simps)
qed

lemma free_slot_erase_table:
  "free_slot b (erase_table seq s) = map_prod id (erase_table seq) (free_slot b s)"
  by (auto simp: free_slot_def erase_table_def cache_ref_def cache_ref_count_def)

lemma free_slots_erase_table:
  "free_slots bs (erase_table seq s) = map_prod id (erase_table seq) (free_slots bs s)"
  by (induction bs arbitrary: s) (auto simp: free_slot_erase_table split: prod.splits)

section \<open>The sliding-window tables\<close>

lemma release_raw_eq: "release_raw b p = dec_ref b p"
  by (simp add: release_raw_def dec_ref_def dec_ref_impl_def Let_def)

lemma free_swa_fold:
  "fold (\<lambda>b s. if 0 \<le> b then free_swa_block b s else s) t s =
     s\<lparr>kv_swa_pool := fold ref_reset t (kv_swa_pool s)\<rparr>"
  by (induction t arbitrary: s)
    (simp_all add: free_swa_block_def release_raw_eq ref_reset_def)

lemma free_swa_table_inv:
  assumes "swa_inv s"
  shows "swa_inv (free_swa_table seq s)"
proof (cases "map_of (seq_swa_blocks s) seq")
  case None
  with assms show ?thesis by (simp add: free_swa_table_def)
next
  case (Some t)
  have d: "distinct (map fst (seq_swa_blocks s))" using assms by (simp add: swa_inv_def)
  have "pool_owned (kv_swa_pool s)
      (mset (live t) + table_refs (AList.delete seq (seq_swa_blocks s)))"
    using assms table_refs_delete [OF d Some] by (simp add: swa_inv_def)
  from pool_owned_release_all [OF this [unfolded live_def]] d Some show ?thesis
    by (simp add: swa_inv_def free_swa_table_def free_swa_fold)
qed

lemma free_swa_table_frame:
  "free_swa_table seq s = s\<lparr>kv_swa_pool := kv_swa_pool (free_swa_table seq s),
     seq_swa_blocks := seq_swa_blocks (free_swa_table seq s),
     swa_trim_cursor := swa_trim_cursor (free_swa_table seq s)\<rparr>"
  by (simp add: free_swa_table_def free_swa_fold split: option.splits)

section \<open>The whole operation\<close>

text \<open>The part of \<^verbatim>\<open>free_sequence\<close> that touches the global pool and the cache.\<close>

definition free_global :: "int \<Rightarrow> int list \<Rightarrow> kv_mgr \<Rightarrow> kv_mgr" where
  "free_global seq t s = (case free_slots t s of (t', s1) \<Rightarrow> drop_refs t' (erase_table seq s1))"

lemma free_global_inv:
  assumes inv: "kv_inv s" and t: "map_of (seq_blocks s) seq = Some t"
  shows "kv_inv (free_global seq t s)" "table_frame seq s (free_global seq t s)"
    "map_of (seq_blocks (free_global seq t s)) seq = None"
proof -
  obtain t' s1 where f: "free_slots t s = (t', s1)" by fastforce
  have tt: "table_of seq s = t" using t by (simp add: table_of_def)
  have "alloc_inv (mset (live t) + {#}) (erase_table seq s)"
    using kv_inv_alloc_inv [OF inv] own_erase_table [of "{#}" s seq] tt
    by (simp add: alloc_inv_def)
  from free_slots_alloc_inv [OF this, of t' "erase_table seq s1"] f
  have "alloc_inv (mset (live t') + {#}) (erase_table seq s1)"
    by (simp add: free_slots_erase_table)
  then have ai: "alloc_inv {#} (free_global seq t s)"
    using own_drop_refs [of t' "{#}" "erase_table seq s1"] f
    by (simp add: alloc_inv_def free_global_def)
  have "table_frame seq s s1"
    using free_slots_frame [OF f] by (simp add: cache_frame_def alloc_table_frame)
  then show fr: "table_frame seq s (free_global seq t s)"
    using f table_frame_trans [OF _ table_frame_trans [OF table_frame_erase table_frame_drop_refs]]
    by (simp add: free_global_def)
  from kv_inv_table_frame [OF inv fr ai] show "kv_inv (free_global seq t s)" .
  show "map_of (seq_blocks (free_global seq t s)) seq = None"
    using f by (simp add: free_global_def drop_refs_def erase_table_def)
qed

lemma free_sequence_eq:
  "map_of (seq_blocks s) seq = Some t \<Longrightarrow>
     free_sequence seq s =
       (let s2 = free_global seq t s;
            s3 = s2\<lparr>seq_block_hashes := (seq_block_hashes s2)(seq := None)\<rparr>;
            s4 = free_swa_table seq s3
        in s4\<lparr>kv_res := release_residual_slot seq (kv_res s4),
              lru_order := remove1 seq (lru_order s4)\<rparr>)"
  by (simp add: free_sequence_def free_global_def Let_def split: prod.splits)

lemma kv_inv_irrelevant:
  "kv_inv s \<Longrightarrow> kv_inv (s\<lparr>seq_block_hashes := h\<rparr>)"
  by (simp add: kv_inv_def own_with_def kv_refs_def cache_inv_def swa_inv_def hash_inv_def
      pin_inv_def)

lemma kv_inv_free_swa_table:
  assumes "kv_inv s"
  shows "kv_inv (free_swa_table seq s)"
proof -
  have "swa_inv (free_swa_table seq s)" using assms by (simp add: kv_inv_def free_swa_table_inv)
  moreover have "kv_inv s \<Longrightarrow> swa_inv s' \<Longrightarrow>
      s' = s\<lparr>kv_swa_pool := a, seq_swa_blocks := b, swa_trim_cursor := c\<rparr> \<Longrightarrow> kv_inv s'"
    for s' a b c
    by (simp add: kv_inv_def own_with_def kv_refs_def cache_inv_def hash_inv_def pin_inv_def)
  ultimately show ?thesis using assms free_swa_table_frame by blast
qed

lemma kv_inv_release_residual:
  "kv_inv s \<Longrightarrow> kv_inv (s\<lparr>kv_res := release_residual_slot seq (kv_res s)\<rparr>)"
  by (simp add: kv_inv_def own_with_def kv_refs_def cache_inv_def swa_inv_def hash_inv_def
      pin_inv_def res_inv_release)

lemma free_sequence_inv:
  assumes "kv_inv s"
  shows "kv_inv (free_sequence seq s)"
proof (cases "map_of (seq_blocks s) seq")
  case None
  with assms show ?thesis by (simp add: free_sequence_def)
next
  case (Some t)
  let ?s3 = "(free_global seq t s)\<lparr>seq_block_hashes :=
    (seq_block_hashes (free_global seq t s))(seq := None)\<rparr>"
  have i: "kv_inv (free_swa_table seq ?s3)"
    using free_global_inv(1) [OF assms Some] by (intro kv_inv_free_swa_table kv_inv_irrelevant)
  then have "distinct (lru_order (free_swa_table seq ?s3))" by (simp add: kv_inv_def)
  then have "distinct (remove1 seq (lru_order (free_swa_table seq ?s3)))" by simp
  from kv_inv_lru [OF kv_inv_release_residual [OF i, of seq] this] show ?thesis
    by (simp add: free_sequence_eq [OF Some] Let_def)
qed

lemma touch_inv: "kv_inv s \<Longrightarrow> kv_inv (touch seq s)"
  unfolding touch_def by (rule kv_inv_lru) (auto simp: kv_inv_def)

lemma evict_lru_inv: "kv_inv s \<Longrightarrow> kv_inv (snd (evict_lru s))"
  by (auto simp: evict_lru_def free_sequence_inv split: option.splits)

lemma evict_cached_block_inv:
  assumes inv: "kv_inv s"
  shows "kv_inv (snd (evict_cached_block s))"
proof (cases "0 < reclaimable_cached_count s")
  case False
  with inv show ?thesis by (simp add: evict_cached_block_def reclaim_cached_block_def)
next
  case True
  have ai: "own_with {#} s" "cache_inv s" "hash_inv s" using inv by (simp_all add: kv_inv_def)
  from reclaim_some [OF ai(1,2) True] obtain us b vs s1 where
    l: "cached_blocks_lru s = us @ b # vs" "b \<notin> pinned_blocks s"
    and rc: "reclaim_cached_block s = (b, s1)"
    and l1: "cached_blocks_lru s1 = vs @ us"
      "cached_blocks_map s1 = AList.delete b (cached_blocks_map s)"
      "reclaimable_cached_count s1 = reclaimable_cached_count s - 1"
    and o: "own_with {#} s1" "alloc_frame s s1"
    and h: "block_hash_to_id s1 = block_hash_to_id (erase_hash_of b s)"
      "block_id_to_hash s1 = block_id_to_hash (erase_hash_of b s)" by metis
  have "pinned_blocks s1 = pinned_blocks s" using o(2) by (simp add: alloc_frame_def)
  from cache_inv_reclaimed [OF ai(2) l l1(1) this l1(2,3)] o(1) h hash_inv_erase_hash [OF ai(3)]
  have "alloc_inv {#} s1" by (simp add: alloc_inv_def hash_inv_def)
  with kv_inv_table_frame [OF inv alloc_table_frame [OF o(2)]] rc show ?thesis
    by (simp add: evict_cached_block_def)
qed

end
