(* ===== verification/KV_Pin.thy ===== *)
theory KV_Pin
  imports KV_Alloc_Inv
begin

text \<open>
  Pinning, rollback and middle eviction of \<^verbatim>\<open>KVCacheManager\<close>: \<^verbatim>\<open>unpin_prefix\<close>,
  \<^verbatim>\<open>pin_prefix\<close>, \<^verbatim>\<open>rollback\<close>, \<^verbatim>\<open>evict_middle_blocks\<close>. The budget loop of \<^verbatim>\<open>pin_prefix\<close>
  unpins the oldest owner until the request fits. It would spin if the queue named an owner
  without a pin set, so it runs with as much fuel as the queue is long and returns \<open>None\<close>
  when that is not enough; under the invariant it always returns.
\<close>

section \<open>Unpinning\<close>

definition unpin_block :: "int \<Rightarrow> kv_mgr \<Rightarrow> kv_mgr" where
  "unpin_block b s =
     (case map_of (pin_refcount s) b of
        None \<Rightarrow> s
      | Some n \<Rightarrow>
          if 0 < n - 1 then s\<lparr>pin_refcount := AList.update b (n - 1) (pin_refcount s)\<rparr>
          else s\<lparr>pin_refcount := AList.delete b (pin_refcount s),
                 pinned_blocks := pinned_blocks s - {b},
                 reclaimable_cached_count :=
                   (if map_of (cached_blocks_map s) b \<noteq> None
                    then reclaimable_cached_count s + 1 else reclaimable_cached_count s)\<rparr>)"

definition unpin_prefix :: "int \<Rightarrow> kv_mgr \<Rightarrow> kv_mgr" where
  "unpin_prefix seq s =
     (case pinned_seq_blocks s seq of
        None \<Rightarrow> s
      | Some bs \<Rightarrow>
          let s1 = fold unpin_block bs s
          in s1\<lparr>pinned_seq_blocks := (pinned_seq_blocks s1)(seq := None),
                pin_fifo := removeAll seq (pin_fifo s1)\<rparr>)"

section \<open>Pinning\<close>

fun pin_budget_loop :: "nat \<Rightarrow> int \<Rightarrow> kv_mgr \<Rightarrow> kv_mgr option" where
  "pin_budget_loop fuel to_pin s =
     (if pin_budget_blocks s < int (length (pin_refcount s)) + to_pin \<and> pin_fifo s \<noteq> []
      then (case fuel of
              0 \<Rightarrow> None
            | Suc m \<Rightarrow> pin_budget_loop m to_pin (unpin_prefix (hd (pin_fifo s)) s))
      else Some s)"

declare pin_budget_loop.simps [simp del]

text \<open>One round of the pinning loop; the list collects the pinned ids.\<close>

definition pin_block :: "int \<Rightarrow> int list \<times> kv_mgr \<Rightarrow> int list \<times> kv_mgr" where
  "pin_block b = (\<lambda>(owned, s).
     if b < 0 then (owned, s)
     else
       let already_pinned = b \<in> pinned_blocks s;
           n = (case map_of (pin_refcount s) b of None \<Rightarrow> 0 | Some n \<Rightarrow> n) + 1;
           s1 = s\<lparr>pin_refcount := AList.update b n (pin_refcount s)\<rparr>;
           s2 = (if n = 1 \<and> \<not> already_pinned
                 then s1\<lparr>pinned_blocks := insert b (pinned_blocks s1),
                         reclaimable_cached_count :=
                           (if map_of (cached_blocks_map s1) b \<noteq> None
                            then reclaimable_cached_count s1 - 1
                            else reclaimable_cached_count s1)\<rparr>
                 else s1)
       in (owned @ [b], s2))"

definition pin_prefix :: "int \<Rightarrow> int \<Rightarrow> kv_mgr \<Rightarrow> kv_mgr option" where
  "pin_prefix seq num_blocks s =
     (case map_of (seq_blocks s) seq of
        None \<Rightarrow> Some s
      | Some t \<Rightarrow>
          let to_pin = min num_blocks (int (length t)) in
          if to_pin \<le> 0 then Some s
          else
            let s1 = (if pinned_seq_blocks s seq \<noteq> None then unpin_prefix seq s else s);
                capped = (if 0 < pin_budget_blocks s1 then min to_pin (pin_budget_blocks s1)
                          else to_pin) in
            case (if 0 < pin_budget_blocks s1
                  then pin_budget_loop (length (pin_fifo s1)) capped s1 else Some s1) of
              None \<Rightarrow> None
            | Some s2 \<Rightarrow>
                let (owned, s3) =
                  fold pin_block (map (id_at t) [0..<nat capped]) ([], s2) in
                if owned = [] then Some s3
                else Some (s3\<lparr>pinned_seq_blocks := (pinned_seq_blocks s3)(seq \<mapsto> owned),
                              pin_fifo := pin_fifo s3 @ [seq]\<rparr>))"

section \<open>Rollback\<close>

primrec pop_tail :: "nat \<Rightarrow> int \<Rightarrow> kv_mgr \<Rightarrow> kv_mgr" where
  "pop_tail 0 seq s = s"
| "pop_tail (Suc n) seq s =
     (let t = table_of seq s;
          s1 = drop_stale_hash_if_last (id_at t (length t - 1)) s
      in pop_tail n seq (drop_refs [last t] (set_table seq (butlast t) s1)))"

definition blocks_for :: "int \<Rightarrow> int \<Rightarrow> int" where
  "blocks_for tokens bs = (tokens + bs - 1) div bs"

definition rollback_swa :: "int \<Rightarrow> int \<Rightarrow> kv_mgr \<Rightarrow> kv_mgr" where
  "rollback_swa seq blocks_needed s =
     (case map_of (seq_swa_blocks s) seq of
        None \<Rightarrow> s
      | Some t \<Rightarrow>
          let s1 = fold (\<lambda>b s. if 0 \<le> b then free_swa_block b s else s)
                     (rev (drop (nat blocks_needed) t)) s
          in s1\<lparr>seq_swa_blocks := AList.update seq (take (nat blocks_needed) t) (seq_swa_blocks s1),
                swa_trim_cursor :=
                  (case swa_trim_cursor s1 seq of
                     None \<Rightarrow> swa_trim_cursor s1
                   | Some c \<Rightarrow> (swa_trim_cursor s1)(seq \<mapsto> min c blocks_needed))\<rparr>)"

definition rollback :: "int \<Rightarrow> int \<Rightarrow> kv_mgr \<Rightarrow> kv_mgr" where
  "rollback seq new_seq_len s =
     (case map_of (seq_blocks s) seq of
        None \<Rightarrow> s
      | Some t \<Rightarrow>
          if t = [] \<or> new_seq_len < 0 then s
          else
            let needed = blocks_for new_seq_len (kv_block_size s);
                s1 = pop_tail (length t - nat needed) seq s;
                s2 = s1\<lparr>seq_block_hashes :=
                  (case seq_block_hashes s1 seq of
                     None \<Rightarrow> seq_block_hashes s1
                   | Some hs \<Rightarrow> (seq_block_hashes s1)(seq \<mapsto> take (nat needed) hs))\<rparr>
            in rollback_swa seq needed s2)"

section \<open>Middle eviction\<close>

definition evict_slot :: "int \<Rightarrow> nat \<Rightarrow> int \<times> kv_mgr \<Rightarrow> int \<times> kv_mgr" where
  "evict_slot seq i = (\<lambda>(freed, s).
     let t = table_of seq s; b = id_at t i in
     if b < 0 then (freed, s)
     else (freed + 1,
           drop_refs [b] (set_table seq (t[i := -1]) (erase_hash_of b s))))"

definition clear_hash :: "int \<Rightarrow> nat \<Rightarrow> kv_mgr \<Rightarrow> kv_mgr" where
  "clear_hash seq i s =
     (let b = id_at (table_of seq s) i;
          s1 = (if 0 \<le> b then erase_hash_of b s else s)
      in s1\<lparr>seq_block_hashes := (seq_block_hashes s1)
             (seq := map_option (\<lambda>hs. hs[i := 0]) (seq_block_hashes s1 seq))\<rparr>)"

definition window_start_block :: "int \<Rightarrow> int \<Rightarrow> int \<Rightarrow> int" where
  "window_start_block n_blocks n_window bs = max 0 (n_blocks - blocks_for n_window bs - 1)"

definition evict_middle_blocks :: "int \<Rightarrow> int \<Rightarrow> int \<Rightarrow> kv_mgr \<Rightarrow> (int \<times> kv_mgr) option" where
  "evict_middle_blocks seq n_sink n_window s =
     (case map_of (seq_blocks s) seq of
        None \<Rightarrow> Some (0, s)
      | Some t \<Rightarrow>
          if n_sink \<le> 0 \<or> n_window \<le> 0 \<or> t = [] then Some (0, s)
          else
            let sink_end = blocks_for n_sink (kv_block_size s);
                window_start = window_start_block (int (length t)) n_window (kv_block_size s) in
            if window_start \<le> sink_end then Some (0, s)
            else
              let already = (case pinned_seq_blocks s seq of
                               None \<Rightarrow> 0 | Some bs \<Rightarrow> int (length bs)) in
              case (if already < sink_end then pin_prefix seq sink_end s else Some s) of
                None \<Rightarrow> None
              | Some s1 \<Rightarrow>
                  let (freed, s2) =
                    fold (evict_slot seq) [nat sink_end..<nat window_start] (0, s1);
                    s3 = (case seq_block_hashes s2 seq of
                            None \<Rightarrow> s2
                          | Some hs \<Rightarrow>
                              fold (clear_hash seq)
                                [nat sink_end..<min (length t) (length hs)] s2)
                  in Some (freed, s3))"

section \<open>Pin counts\<close>

text \<open>The pin tables represent the count \<open>f\<close> of pins per block.\<close>

definition pin_bal :: "(int \<Rightarrow> nat) \<Rightarrow> kv_mgr \<Rightarrow> bool" where
  "pin_bal f s \<longleftrightarrow> distinct (map fst (pin_refcount s)) \<and>
     pinned_blocks s = fst ` set (pin_refcount s) \<and>
     (\<forall>b. map_of (pin_refcount s) b = (if f b = 0 then None else Some (int (f b))))"

lemma pin_bal_pinned:
  assumes "pin_bal f s"
  shows "b \<in> pinned_blocks s \<longleftrightarrow> 0 < f b"
proof -
  have "b \<in> pinned_blocks s \<longleftrightarrow> map_of (pin_refcount s) b \<noteq> None"
    unfolding map_of_eq_None_iff using assms by (simp add: pin_bal_def)
  also have "\<dots> \<longleftrightarrow> 0 < f b" using assms by (simp add: pin_bal_def)
  finally show ?thesis .
qed

lemma pin_inv_bal:
  "pin_inv s \<longleftrightarrow> distinct (pin_fifo s) \<and> set (pin_fifo s) = dom (pinned_seq_blocks s) \<and>
     pin_bal (pin_count (pinned_seq_blocks s) (pin_fifo s)) s"
  by (auto simp: pin_inv_def pin_bal_def Let_def)

lemma keys_delete: "fst ` set (AList.delete k al) = fst ` set al - {k}"
  by (auto simp: AList.delete_eq image_iff)

lemma keys_update: "fst ` set (AList.update k v al) = insert k (fst ` set al)"
  by (metis dom_map_of_conv_image_fst alist_map_of_update dom_fun_upd option.distinct(1))

text \<open>What pinning may change, besides the queue and the owner map.\<close>

definition pin_frame :: "kv_mgr \<Rightarrow> kv_mgr \<Rightarrow> bool" where
  "pin_frame s s' \<longleftrightarrow> kv_pool s' = kv_pool s \<and> kv_swa_pool s' = kv_swa_pool s \<and>
     kv_block_size s' = kv_block_size s \<and> kv_swa_max_blocks s' = kv_swa_max_blocks s \<and>
     seq_blocks s' = seq_blocks s \<and> seq_swa_blocks s' = seq_swa_blocks s \<and>
     swa_trim_cursor s' = swa_trim_cursor s \<and> swa_window s' = swa_window s \<and>
     swa_slack s' = swa_slack s \<and> lru_order s' = lru_order s \<and>
     prefix_caching_enabled s' = prefix_caching_enabled s \<and>
     block_hash_to_id s' = block_hash_to_id s \<and> block_id_to_hash s' = block_id_to_hash s \<and>
     cached_blocks_lru s' = cached_blocks_lru s \<and> cached_blocks_map s' = cached_blocks_map s \<and>
     seq_block_hashes s' = seq_block_hashes s \<and> pinned_seq_blocks s' = pinned_seq_blocks s \<and>
     pin_fifo s' = pin_fifo s \<and> pin_budget_blocks s' = pin_budget_blocks s \<and> kv_res s' = kv_res s"

lemma pin_frame_refl [simp]: "pin_frame s s"
  by (simp add: pin_frame_def)

lemma pin_frame_trans: "pin_frame s t \<Longrightarrow> pin_frame t u \<Longrightarrow> pin_frame s u"
  by (simp add: pin_frame_def)

text \<open>The reclaimable count stays exact when one block enters or leaves the pinned set.\<close>

lemma cache_inv_unpin:
  assumes "cache_inv s" "b \<in> pinned_blocks s" "pinned_blocks s' = pinned_blocks s - {b}"
    and "cached_blocks_lru s' = cached_blocks_lru s" "cached_blocks_map s' = cached_blocks_map s"
    and "reclaimable_cached_count s' = reclaimable_cached_count s +
      (if map_of (cached_blocks_map s) b \<noteq> None then 1 else 0)"
  shows "cache_inv s'"
proof -
  let ?L = "set (cached_blocks_lru s)"
  have mem: "map_of (cached_blocks_map s) b \<noteq> None \<longleftrightarrow> b \<in> ?L"
    using assms(1) by (auto simp: cache_inv_def map_of_eq_None_iff)
  have "card (?L - (pinned_blocks s - {b})) = card (?L - pinned_blocks s) + (if b \<in> ?L then 1 else 0)"
  proof (cases "b \<in> ?L")
    case True
    then have "?L - (pinned_blocks s - {b}) = insert b (?L - pinned_blocks s)" by blast
    with True assms(2) show ?thesis by simp
  next
    case False
    then have "?L - (pinned_blocks s - {b}) = ?L - pinned_blocks s" by blast
    with False show ?thesis by simp
  qed
  with assms mem show ?thesis unfolding cache_inv_def by (simp split: if_splits)
qed

lemma cache_inv_pin:
  assumes "cache_inv s" "b \<notin> pinned_blocks s" "pinned_blocks s' = insert b (pinned_blocks s)"
    and "cached_blocks_lru s' = cached_blocks_lru s" "cached_blocks_map s' = cached_blocks_map s"
    and "reclaimable_cached_count s' = reclaimable_cached_count s -
      (if map_of (cached_blocks_map s) b \<noteq> None then 1 else 0)"
  shows "cache_inv s'"
proof -
  let ?L = "set (cached_blocks_lru s)"
  have mem: "map_of (cached_blocks_map s) b \<noteq> None \<longleftrightarrow> b \<in> ?L"
    using assms(1) by (auto simp: cache_inv_def map_of_eq_None_iff)
  have e: "?L - insert b (pinned_blocks s) = (?L - pinned_blocks s) - {b}" by blast
  have "card (?L - pinned_blocks s) =
      card (?L - insert b (pinned_blocks s)) + (if b \<in> ?L then 1 else 0)"
  proof (cases "b \<in> ?L")
    case True
    with assms(2) have "b \<in> ?L - pinned_blocks s" by blast
    then show ?thesis unfolding e using True
      by (metis List.finite_set Suc_eq_plus1 card.remove finite_Diff)
  qed (simp add: e)
  with assms mem show ?thesis unfolding cache_inv_def by (simp split: if_splits)
qed

lemma unpin_block_bal:
  assumes "pin_bal f s" "cache_inv s" "0 < f b"
  shows "pin_bal (f(b := f b - 1)) (unpin_block b s)" "cache_inv (unpin_block b s)"
    "pin_frame s (unpin_block b s)"
proof -
  have m: "map_of (pin_refcount s) b = Some (int (f b))" using assms(1,3) by (simp add: pin_bal_def)
  have p: "b \<in> pinned_blocks s" using pin_bal_pinned [OF assms(1)] assms(3) by blast
  show "pin_frame s (unpin_block b s)"
    by (cases "1 < f b") (auto simp: unpin_block_def m pin_frame_def)
  show "pin_bal (f(b := f b - 1)) (unpin_block b s)"
    using assms(1,3) m p
    by (auto simp: unpin_block_def pin_bal_def keys_delete keys_update of_nat_diff)
  show "cache_inv (unpin_block b s)"
  proof (cases "1 < f b")
    case True
    then have "unpin_block b s = s\<lparr>pin_refcount := AList.update b (int (f b) - 1) (pin_refcount s)\<rparr>"
      by (simp add: unpin_block_def m)
    with assms(2) show ?thesis by (simp add: cache_inv_def)
  next
    case False
    show ?thesis
      by (rule cache_inv_unpin [OF assms(2) p]) (use False in \<open>simp_all add: unpin_block_def m\<close>)
  qed
qed

lemma unpin_fold_bal:
  "pin_bal f s \<Longrightarrow> cache_inv s \<Longrightarrow> (\<And>b. count (mset bs) b \<le> f b) \<Longrightarrow>
     pin_bal (\<lambda>b. f b - count (mset bs) b) (fold unpin_block bs s) \<and>
     cache_inv (fold unpin_block bs s) \<and> pin_frame s (fold unpin_block bs s)"
proof (induction bs arbitrary: s f)
  case Nil
  then show ?case by simp
next
  case (Cons b bs)
  have fb: "0 < f b" using Cons.prems(3) [of b] by simp
  note u = unpin_block_bal [OF Cons.prems(1,2) fb]
  have le: "count (mset bs) c \<le> (f(b := f b - 1)) c" for c
    using Cons.prems(3) [of c] by (auto split: if_splits)
  have e: "(\<lambda>c. (f(b := f b - 1)) c - count (mset bs) c) = (\<lambda>c. f c - count (mset (b # bs)) c)"
    by (auto simp: fun_eq_iff)
  from Cons.IH [OF u(1,2) le] u(3) show ?case unfolding e by (auto intro: pin_frame_trans)
qed

section \<open>Pins keep the invariant\<close>

text \<open>The frame of whole pin operations, which also change the queue and the owner map.\<close>

definition pinq_frame :: "kv_mgr \<Rightarrow> kv_mgr \<Rightarrow> bool" where
  "pinq_frame s s' \<longleftrightarrow>
     pin_frame (s\<lparr>pinned_seq_blocks := pinned_seq_blocks s', pin_fifo := pin_fifo s'\<rparr>) s'"

lemma pinq_frame_refl [simp]: "pinq_frame s s"
  by (simp add: pinq_frame_def pin_frame_def)

lemma pinq_frame_trans: "pinq_frame s t \<Longrightarrow> pinq_frame t u \<Longrightarrow> pinq_frame s u"
  by (simp add: pinq_frame_def pin_frame_def)

lemma kv_inv_pinq_frame:
  "kv_inv s \<Longrightarrow> pinq_frame s s' \<Longrightarrow> pin_inv s' \<Longrightarrow> cache_inv s' \<Longrightarrow> kv_inv s'"
  by (auto simp: kv_inv_def pinq_frame_def pin_frame_def own_with_def kv_refs_def swa_inv_def
      hash_inv_def)

lemma pin_count_remove:
  assumes "distinct fifo" "q \<in> set fifo" "owners q = Some bs"
  shows "pin_count owners fifo b =
    count (mset bs) b + pin_count (owners(q := None)) (removeAll q fifo) b"
proof -
  let ?g = "\<lambda>ow q. case ow q of None \<Rightarrow> 0 | Some bs \<Rightarrow> count (mset bs) b"
  have "pin_count owners fifo b = sum (?g owners) (set fifo)"
    using assms(1) by (simp add: pin_count_def sum_list_distinct_conv_sum_set)
  also have "\<dots> = ?g owners q + sum (?g owners) (set fifo - {q})"
    using assms(2) by (simp add: sum.remove)
  also have "sum (?g owners) (set fifo - {q}) = sum (?g (owners(q := None))) (set fifo - {q})"
    by (rule sum.cong) auto
  also have "\<dots> = pin_count (owners(q := None)) (removeAll q fifo) b"
    using assms(1) by (simp add: pin_count_def sum_list_distinct_conv_sum_set distinct_removeAll)
  finally show ?thesis using assms(3) by simp
qed

lemma pin_count_add:
  assumes "q \<notin> set fifo"
  shows "pin_count (owners(q \<mapsto> bs)) (fifo @ [q]) b = pin_count owners fifo b + count (mset bs) b"
proof -
  have e: "map (\<lambda>k. case (owners(q \<mapsto> bs)) k of None \<Rightarrow> 0 | Some bs \<Rightarrow> count (mset bs) b) fifo =
      map (\<lambda>k. case owners k of None \<Rightarrow> 0 | Some bs \<Rightarrow> count (mset bs) b) fifo"
    using assms by (intro map_cong) auto
  show ?thesis unfolding pin_count_def map_append sum_list_append e by simp
qed

lemma unpin_prefix_inv:
  assumes inv: "kv_inv s" and p: "pinned_seq_blocks s q = Some bs"
  shows "kv_inv (unpin_prefix q s)" "pinq_frame s (unpin_prefix q s)"
    "length (pin_fifo (unpin_prefix q s)) < length (pin_fifo s)"
    "pinned_seq_blocks (unpin_prefix q s) q = None"
proof -
  let ?f = "pin_count (pinned_seq_blocks s) (pin_fifo s)"
  have pi: "distinct (pin_fifo s)" "set (pin_fifo s) = dom (pinned_seq_blocks s)" "pin_bal ?f s"
    and ci: "cache_inv s" using inv by (simp_all add: kv_inv_def pin_inv_bal)
  have q: "q \<in> set (pin_fifo s)" using p pi(2) by blast
  have split: "?f b = count (mset bs) b +
      pin_count ((pinned_seq_blocks s)(q := None)) (removeAll q (pin_fifo s)) b" for b
    using pin_count_remove [where owners = "pinned_seq_blocks s", OF pi(1) q p] .
  then have le: "count (mset bs) b \<le> ?f b" for b by simp
  from unpin_fold_bal [OF pi(3) ci le]
  have f: "pin_bal (\<lambda>b. ?f b - count (mset bs) b) (fold unpin_block bs s)"
    "cache_inv (fold unpin_block bs s)" "pin_frame s (fold unpin_block bs s)" by auto
  have e: "unpin_prefix q s = (fold unpin_block bs s)
      \<lparr>pinned_seq_blocks := (pinned_seq_blocks s)(q := None), pin_fifo := removeAll q (pin_fifo s)\<rparr>"
    using f(3) by (simp add: unpin_prefix_def p Let_def pin_frame_def)
  show fr: "pinq_frame s (unpin_prefix q s)"
    using f(3) unfolding e by (simp add: pinq_frame_def pin_frame_def)
  have "(\<lambda>b. ?f b - count (mset bs) b) =
      pin_count ((pinned_seq_blocks s)(q := None)) (removeAll q (pin_fifo s))"
    using split by auto
  then have "pin_inv (unpin_prefix q s)" "cache_inv (unpin_prefix q s)"
    using f(1,2) pi(1,2) unfolding e
    by (auto simp: pin_inv_bal pin_bal_def cache_inv_def distinct_removeAll)
  then show "kv_inv (unpin_prefix q s)" by (rule kv_inv_pinq_frame [OF inv fr])
  show "length (pin_fifo (unpin_prefix q s)) < length (pin_fifo s)"
    using q by (simp add: e length_removeAll_less)
  show "pinned_seq_blocks (unpin_prefix q s) q = None" by (simp add: e)
qed

lemma unpin_prefix_kv_inv: "kv_inv s \<Longrightarrow> kv_inv (unpin_prefix q s)"
  by (cases "pinned_seq_blocks s q") (auto simp: unpin_prefix_def dest: unpin_prefix_inv)

lemma pin_bal_zero: "pin_bal (\<lambda>_. 0) s \<Longrightarrow> pin_refcount s = []"
  by (cases "pin_refcount s") (auto simp: pin_bal_def split: if_splits dest: spec)

lemma pin_inv_empty_fifo:
  assumes "pin_inv s" "pin_fifo s = []"
  shows "pin_refcount s = []"
proof -
  have "pin_count owners [] = (\<lambda>_. 0)" for owners by (simp add: pin_count_def fun_eq_iff)
  moreover have "pin_bal (pin_count (pinned_seq_blocks s) (pin_fifo s)) s"
    using assms(1) unfolding pin_inv_bal by (elim conjE)
  ultimately show ?thesis using assms(2) pin_bal_zero by metis
qed

text \<open>The budget loop ends within its fuel, and leaves room for the new pins.\<close>

lemma pin_budget_loop_inv:
  "kv_inv s \<Longrightarrow> length (pin_fifo s) \<le> n \<Longrightarrow> to_pin \<le> pin_budget_blocks s \<Longrightarrow>
     \<exists>s'. pin_budget_loop n to_pin s = Some s' \<and> kv_inv s' \<and> pinq_frame s s' \<and>
       int (length (pin_refcount s')) + to_pin \<le> pin_budget_blocks s \<and>
       (\<forall>q. pinned_seq_blocks s q = None \<longrightarrow> pinned_seq_blocks s' q = None)"
proof (induction n arbitrary: s)
  case 0
  then have "pin_refcount s = []" by (simp add: kv_inv_def pin_inv_empty_fifo)
  with 0 show ?case by (auto simp: pin_budget_loop.simps)
next
  case (Suc n)
  show ?case
  proof (cases "pin_budget_blocks s < int (length (pin_refcount s)) + to_pin \<and> pin_fifo s \<noteq> []")
    case True
    let ?q = "hd (pin_fifo s)"
    have "?q \<in> dom (pinned_seq_blocks s)"
      using Suc.prems(1) True by (metis hd_in_set kv_inv_def pin_inv_bal)
    then obtain bs where "pinned_seq_blocks s ?q = Some bs" by blast
    note u = unpin_prefix_inv [OF Suc.prems(1) this]
    have bud: "pin_budget_blocks (unpin_prefix ?q s) = pin_budget_blocks s"
      using u(2) by (simp add: pinq_frame_def pin_frame_def)
    have keep: "pinned_seq_blocks s k = None \<Longrightarrow> pinned_seq_blocks (unpin_prefix ?q s) k = None" for k
    proof -
      have fr: "pinned_seq_blocks (fold unpin_block bs s) = pinned_seq_blocks s" for bs
        by (induction bs arbitrary: s) (simp_all add: unpin_block_def split: option.splits)
      show "pinned_seq_blocks s k = None \<Longrightarrow> pinned_seq_blocks (unpin_prefix ?q s) k = None"
        by (simp add: unpin_prefix_def Let_def fr split: option.splits)
    qed
    have "length (pin_fifo (unpin_prefix ?q s)) \<le> n" using u(3) Suc.prems(2) by simp
    from Suc.IH [OF u(1) this] Suc.prems(3) bud True u(2) keep show ?thesis
      by (subst pin_budget_loop.simps) (auto intro: pinq_frame_trans)
  next
    case False
    then show ?thesis
      using Suc.prems pin_inv_empty_fifo [of s]
      by (subst pin_budget_loop.simps) (auto simp: kv_inv_def)
  qed
qed

lemma length_alist_update:
  "distinct (map fst al) \<Longrightarrow> length (AList.update k v al) \<le> length al + 1"
  by (induction al) auto

lemma pin_block_bal:
  assumes "pin_bal f s" "cache_inv s" "pin_block b (owned, s) = (owned', s')"
  shows "pin_bal (\<lambda>c. f c + count (mset (live [b])) c) s' \<and> cache_inv s' \<and> pin_frame s s' \<and>
    owned' = owned @ live [b] \<and>
    length (pin_refcount s') \<le> length (pin_refcount s) + length (live [b])"
proof (cases "b < 0")
  case True
  with assms show ?thesis by (simp add: pin_block_def)
next
  case False
  have p: "b \<in> pinned_blocks s \<longleftrightarrow> 0 < f b" using pin_bal_pinned [OF assms(1)] .
  have m: "map_of (pin_refcount s) b = (if f b = 0 then None else Some (int (f b)))"
    and d: "distinct (map fst (pin_refcount s))" using assms(1) by (simp_all add: pin_bal_def)
  have o: "owned' = owned @ [b]" using assms(3) False by (simp add: pin_block_def Let_def)
  have rc: "pin_refcount s' = AList.update b (int (f b) + 1) (pin_refcount s)"
    using assms(3) False m by (auto simp: pin_block_def Let_def split: if_splits)
  have pb: "pinned_blocks s' = insert b (pinned_blocks s)"
    using assms(3) False m p by (auto simp: pin_block_def Let_def split: if_splits)
  have fr: "pin_frame s s'"
    using assms(3) False by (auto simp: pin_block_def Let_def pin_frame_def split: if_splits)
  have "cache_inv s'"
  proof (cases "f b = 0")
    case True
    then have "reclaimable_cached_count s' = reclaimable_cached_count s -
        (if map_of (cached_blocks_map s) b \<noteq> None then 1 else 0)"
      using assms(3) False m p by (auto simp: pin_block_def Let_def split: if_splits)
    with cache_inv_pin [OF assms(2) _ pb] True p fr show ?thesis by (simp add: pin_frame_def)
  next
    case nz: False
    then have "reclaimable_cached_count s' = reclaimable_cached_count s"
      using assms(3) False m p by (auto simp: pin_block_def Let_def split: if_splits)
    moreover have "pinned_blocks s' = pinned_blocks s" using pb p nz by auto
    ultimately show ?thesis using assms(2) fr by (simp add: cache_inv_def pin_frame_def)
  qed
  moreover have "pin_bal (\<lambda>c. f c + count (mset (live [b])) c) s'"
    using assms(1) False d by (auto simp: pin_bal_def rc pb keys_update)
  ultimately show ?thesis
    using fr o rc False length_alist_update [OF d] by simp
qed

lemma pin_fold_bal:
  "pin_bal f s \<Longrightarrow> cache_inv s \<Longrightarrow> fold pin_block bs (owned, s) = (owned', s') \<Longrightarrow>
     pin_bal (\<lambda>c. f c + count (mset (live bs)) c) s' \<and> cache_inv s' \<and> pin_frame s s' \<and>
     owned' = owned @ live bs \<and>
     length (pin_refcount s') \<le> length (pin_refcount s) + length (live bs)"
proof (induction bs arbitrary: s f owned)
  case Nil
  then show ?case by simp
next
  case (Cons b bs)
  obtain o1 s1 where b: "pin_block b (owned, s) = (o1, s1)" by fastforce
  from pin_block_bal [OF Cons.prems(1,2) b]
  have u: "pin_bal (\<lambda>c. f c + count (mset (live [b])) c) s1" "cache_inv s1" "pin_frame s s1"
    "o1 = owned @ live [b]"
    "length (pin_refcount s1) \<le> length (pin_refcount s) + length (live [b])" by blast+
  have split: "live (b # bs) = live [b] @ live bs" by (simp add: live_def)
  have "fold pin_block bs (o1, s1) = (owned', s')" using Cons.prems(3) b by simp
  from Cons.IH [OF u(1,2) this] u(3-5) show ?case
    unfolding split by (auto simp: ac_simps intro: pin_frame_trans)
qed

lemma length_live_le: "length (live t) \<le> length t"
  by (simp add: live_def)

text \<open>The pins of the first \<open>n\<close> slots go to the queue's end; the budget bounds the total.\<close>

lemma pin_slots_inv:
  assumes inv: "kv_inv s" and new: "pinned_seq_blocks s q = None"
    and f: "fold pin_block bs ([], s) = (owned, s')"
    and s'': "s'' = (if owned = [] then s' else s'\<lparr>pinned_seq_blocks :=
      (pinned_seq_blocks s')(q \<mapsto> owned), pin_fifo := pin_fifo s' @ [q]\<rparr>)"
  shows "kv_inv s''" "pinq_frame s s''"
    "length (pin_refcount s'') \<le> length (pin_refcount s) + length bs"
proof -
  let ?f = "pin_count (pinned_seq_blocks s) (pin_fifo s)"
  have pi: "distinct (pin_fifo s)" "set (pin_fifo s) = dom (pinned_seq_blocks s)" "pin_bal ?f s"
    and ci: "cache_inv s" using inv by (simp_all add: kv_inv_def pin_inv_bal)
  from pin_fold_bal [OF pi(3) ci f]
  have u: "pin_bal (\<lambda>c. ?f c + count (mset owned) c) s'" "cache_inv s'" "pin_frame s s'"
    "length (pin_refcount s') \<le> length (pin_refcount s) + length bs"
    using length_live_le [of bs] by auto
  show "length (pin_refcount s'') \<le> length (pin_refcount s) + length bs"
    using u(4) by (simp add: s'')
  show fr: "pinq_frame s s''" using u(3) by (simp add: s'' pinq_frame_def pin_frame_def)
  have q: "q \<notin> set (pin_fifo s)" using new pi(2) by blast
  have "cache_inv s''" using u(2) by (simp add: s'' cache_inv_def)
  moreover have "pin_inv s''"
  proof (cases "owned = []")
    case True
    with u(1,3) pi show ?thesis by (simp add: s'' pin_inv_bal pin_frame_def)
  next
    case False
    have "pin_count ((pinned_seq_blocks s)(q \<mapsto> owned)) (pin_fifo s @ [q]) =
        (\<lambda>c. ?f c + count (mset owned) c)" using pin_count_add [OF q] by (simp add: fun_eq_iff)
    with False u(1,3) pi q show ?thesis
      by (auto simp: s'' pin_inv_bal pin_frame_def pin_bal_def)
  qed
  ultimately show "kv_inv s''" using kv_inv_pinq_frame [OF inv fr] by blast
qed

lemma num_pinned_length: "kv_inv s \<Longrightarrow> num_pinned_blocks s = int (length (pin_refcount s))"
  using distinct_card [of "map fst (pin_refcount s)"]
  by (simp add: num_pinned_blocks_def kv_inv_def pin_inv_def)

lemma pin_prefix_outcome:
  assumes inv: "kv_inv s"
  shows "\<exists>s'. pin_prefix seq n s = Some s' \<and> kv_inv s' \<and> pinq_frame s s' \<and>
    (0 < pin_budget_blocks s \<and> num_pinned_blocks s \<le> pin_budget_blocks s \<longrightarrow>
       num_pinned_blocks s' \<le> pin_budget_blocks s)"
proof (cases "map_of (seq_blocks s) seq = None \<or>
    min n (int (length (the (map_of (seq_blocks s) seq)))) \<le> 0")
  case True
  with inv show ?thesis by (auto simp: pin_prefix_def split: option.splits)
next
  case False
  then obtain t where t: "map_of (seq_blocks s) seq = Some t" by auto
  with False have npos: "\<not> min n (int (length t)) \<le> 0" by simp
  then have pos: "0 < min n (int (length t))" by linarith
  have np: "(min n (int (length t)) \<le> 0) = False" using npos by blast
  let ?p = "min n (int (length t))"
  define s1 where "s1 = (if pinned_seq_blocks s seq \<noteq> None then unpin_prefix seq s else s)"
  have i1: "kv_inv s1" "pinq_frame s s1" "pinned_seq_blocks s1 seq = None"
    using inv unpin_prefix_inv [OF inv, of seq] by (auto simp: s1_def)
  have bud: "pin_budget_blocks s1 = pin_budget_blocks s"
    using i1(2) by (simp add: pinq_frame_def pin_frame_def)
  define c where "c = (if 0 < pin_budget_blocks s then min ?p (pin_budget_blocks s) else ?p)"
  define r where "r = (if 0 < pin_budget_blocks s
    then pin_budget_loop (length (pin_fifo s1)) c s1 else Some s1)"
  have c0: "0 \<le> c" using pos by (simp add: c_def)
  obtain s2 where s2: "r = Some s2" "kv_inv s2" "pinq_frame s1 s2"
    "pinned_seq_blocks s2 seq = None"
    "0 < pin_budget_blocks s \<longrightarrow> int (length (pin_refcount s2)) + c \<le> pin_budget_blocks s"
  proof (cases "0 < pin_budget_blocks s")
    case True
    then have "c \<le> pin_budget_blocks s1" unfolding bud c_def by simp
    from pin_budget_loop_inv [OF i1(1) order_refl this] that i1(3) True show thesis
      unfolding r_def bud by auto
  qed (use i1 that in \<open>simp add: r_def\<close>)
  obtain owned s3 where f: "fold pin_block (map (id_at t) [0..<nat c]) ([], s2) = (owned, s3)"
    by fastforce
  define s4 where "s4 = (if owned = [] then s3 else s3\<lparr>pinned_seq_blocks :=
      (pinned_seq_blocks s3)(seq \<mapsto> owned), pin_fifo := pin_fifo s3 @ [seq]\<rparr>)"
  note i4 = pin_slots_inv [OF s2(2,4) f s4_def]
  have "pin_prefix seq n s = Some s4"
    unfolding pin_prefix_def t option.case Let_def s1_def [symmetric] bud c_def [symmetric]
      r_def [symmetric] s2(1) f np if_False by (simp add: s4_def)
  moreover have "pinq_frame s s4" using i1(2) s2(3) i4(2) pinq_frame_trans by blast
  moreover have "0 < pin_budget_blocks s \<longrightarrow> num_pinned_blocks s4 \<le> pin_budget_blocks s"
    using i4(3) s2(5) c0 num_pinned_length [OF i4(1)] by auto
  ultimately show ?thesis using i4(1) by blast
qed

end
