(* ===== verification/KV_Truncate.thy ===== *)
theory KV_Truncate
  imports KV_Pin
begin

text \<open>
  \<^verbatim>\<open>rollback\<close> and \<^verbatim>\<open>evict_middle_blocks\<close> of \<^verbatim>\<open>KVCacheManager\<close>: both keep the invariant;
  rollback keeps exactly the blocks the new length needs, middle eviction keeps the sinks and
  the window, turns the slots between them into holes and does not change the table's length.
\<close>

section \<open>Rollback\<close>

lemma table_of_drop_refs [simp]: "table_of q (drop_refs bs s) = table_of q s"
  by (simp add: drop_refs_def table_of_def)

lemma table_of_erase_hash [simp]: "table_of q (erase_hash_of b s) = table_of q s"
  by (simp add: table_of_def)

lemma drop_stale_frame [simp]:
  "alloc_frame s (drop_stale_hash_if_last b s)"
  "own_with X (drop_stale_hash_if_last b s) = own_with X s"
  "cache_inv (drop_stale_hash_if_last b s) = cache_inv s"
  "table_of q (drop_stale_hash_if_last b s) = table_of q s"
  by (simp_all add: drop_stale_hash_if_last_def)

lemma hash_inv_drop_stale: "hash_inv s \<Longrightarrow> hash_inv (drop_stale_hash_if_last b s)"
  by (simp add: drop_stale_hash_if_last_def hash_inv_erase_hash)

lemma alloc_inv_drop_stale: "alloc_inv X s \<Longrightarrow> alloc_inv X (drop_stale_hash_if_last b s)"
  by (simp add: alloc_inv_def hash_inv_drop_stale)

lemma pop_tail_inv:
  "alloc_inv X s \<Longrightarrow> n \<le> length (table_of seq s) \<Longrightarrow>
     alloc_inv X (pop_tail n seq s) \<and> table_frame seq s (pop_tail n seq s) \<and>
     table_of seq (pop_tail n seq s) = take (length (table_of seq s) - n) (table_of seq s)"
proof (induction n arbitrary: s)
  case 0
  then show ?case by simp
next
  case (Suc n)
  let ?t = "table_of seq s"
  let ?s1 = "drop_stale_hash_if_last (id_at ?t (length ?t - 1)) s"
  let ?s2 = "set_table seq (butlast ?t) ?s1"
  have ne: "?t \<noteq> []" using Suc.prems(2) by auto
  have t: "live ?t = live (butlast ?t) @ live [last ?t]"
    using ne by (metis append_butlast_last_id live_simps(2))
  have ai1: "alloc_inv X ?s1" using Suc.prems(1) by (rule alloc_inv_drop_stale)
  then have "own_with (mset (live [last ?t]) + X) ?s2"
    using own_set_table [of X ?s1 "butlast ?t" "mset (live [last ?t]) + X" seq] t
    by (simp add: alloc_inv_def ac_simps)
  then have ai: "alloc_inv X (drop_refs [last ?t] ?s2)"
    using own_drop_refs [of "[last ?t]" X ?s2] ai1 by (simp add: alloc_inv_def)
  have tb: "table_of seq (drop_refs [last ?t] ?s2) = butlast ?t"
    by (simp add: drop_refs_def table_of_def set_table_def)
  have fr: "table_frame seq s (drop_refs [last ?t] ?s2)"
    using alloc_table_frame [OF drop_stale_frame(1)] table_frame_set_table table_frame_drop_refs
      table_frame_trans by metis
  have "n \<le> length (table_of seq (drop_refs [last ?t] ?s2))" using Suc.prems(2) unfolding tb by simp
  moreover have "take (length ?t - Suc n) (butlast ?t) = take (length ?t - Suc n) ?t"
    using ne by (intro take_butlast) simp
  ultimately show ?case
    using Suc.IH [OF ai] fr by (auto simp: Let_def intro: table_frame_trans)
qed

lemma rollback_swa_inv:
  assumes "kv_inv s"
  shows "kv_inv (rollback_swa seq n s)"
proof (cases "map_of (seq_swa_blocks s) seq")
  case None
  with assms show ?thesis by (simp add: rollback_swa_def)
next
  case (Some t)
  let ?d = "rev (drop (nat n) t)"
  have sw: "distinct (map fst (seq_swa_blocks s))"
    "pool_owned (kv_swa_pool s) (table_refs (seq_swa_blocks s))"
    using assms by (simp_all add: kv_inv_def swa_inv_def)
  have "live t = live (take (nat n) t) @ live (drop (nat n) t)"
    by (metis append_take_drop_id live_simps(2))
  then have "table_refs (seq_swa_blocks s) = mset (live ?d) +
      table_refs (AList.update seq (take (nat n) t) (seq_swa_blocks s))"
    using table_refs_delete [OF sw(1) Some] table_refs_update [OF sw(1)]
    by (simp add: live_def rev_filter [symmetric] ac_simps)
  with sw(2) have "pool_owned (kv_swa_pool s) (mset (live ?d) +
      table_refs (AList.update seq (take (nat n) t) (seq_swa_blocks s)))" by simp
  from pool_owned_release_all [OF this [unfolded live_def]] assms sw(1) Some show ?thesis
    by (simp add: rollback_swa_def free_swa_fold Let_def kv_inv_def swa_inv_def own_with_def
        kv_refs_def cache_inv_def hash_inv_def pin_inv_def)
qed

lemma rollback_swa_frame [simp]:
  "seq_blocks (rollback_swa seq n s) = seq_blocks s"
  by (simp add: rollback_swa_def free_swa_fold Let_def split: option.splits)

lemma table_of_seq_blocks: "seq_blocks s = seq_blocks s' \<Longrightarrow> table_of q s = table_of q s'"
  by (simp add: table_of_def)

lemma rollback_outcome:
  assumes inv: "kv_inv s"
  shows "kv_inv (rollback seq n s) \<and>
    (\<forall>q. q \<noteq> seq \<longrightarrow> table_of q (rollback seq n s) = table_of q s) \<and>
    table_of seq (rollback seq n s) =
      (if n < 0 then table_of seq s
       else take (nat (blocks_for n (kv_block_size s))) (table_of seq s))"
proof (cases "map_of (seq_blocks s) seq = None \<or> table_of seq s = [] \<or> n < 0")
  case True
  with inv show ?thesis by (auto simp: rollback_def table_of_def split: option.splits)
next
  case False
  then obtain t where t: "map_of (seq_blocks s) seq = Some t" "t \<noteq> []" "\<not> n < 0" "table_of seq s = t"
    by (auto simp: table_of_def)
  let ?k = "nat (blocks_for n (kv_block_size s))"
  let ?s1 = "pop_tail (length t - ?k) seq s"
  define s2 where "s2 = ?s1\<lparr>seq_block_hashes := (case seq_block_hashes ?s1 seq of
      None \<Rightarrow> seq_block_hashes ?s1 | Some hs \<Rightarrow> (seq_block_hashes ?s1)(seq \<mapsto> take ?k hs))\<rparr>"
  have p: "alloc_inv {#} ?s1" "table_frame seq s ?s1"
    "table_of seq ?s1 = take (length t - (length t - ?k)) t"
    using pop_tail_inv [OF kv_inv_alloc_inv [OF inv], of "length t - ?k" seq] t(4) by auto
  have "kv_inv s2" unfolding s2_def
    using kv_inv_table_frame [OF inv p(2,1)] by (rule kv_inv_irrelevant)
  then have i: "kv_inv (rollback_swa seq (blocks_for n (kv_block_size s)) s2)"
    by (rule rollback_swa_inv)
  have r: "rollback seq n s = rollback_swa seq (blocks_for n (kv_block_size s)) s2"
    using t by (simp add: rollback_def Let_def s2_def)
  have tb: "table_of q (rollback seq n s) = table_of q ?s1" for q
    by (rule table_of_seq_blocks) (simp add: r s2_def)
  have "take (length t - (length t - ?k)) t = take ?k t"
    by (cases "?k \<le> length t") simp_all
  with i r tb p(3) table_frame_other [OF p(2)] t(3,4) show ?thesis by simp
qed

section \<open>Middle eviction\<close>

text \<open>A table with the slots from \<open>a\<close> up to \<open>b\<close> turned into holes.\<close>

definition punch :: "nat \<Rightarrow> nat \<Rightarrow> int list \<Rightarrow> int list" where
  "punch a b t = map (\<lambda>j. if a \<le> j \<and> j < b \<and> 0 \<le> t ! j then -1 else t ! j) [0..<length t]"

lemma punch_length [simp]: "length (punch a b t) = length t"
  by (simp add: punch_def)

lemma punch_empty [simp]: "punch a a t = t"
  by (rule nth_equalityI) (auto simp: punch_def)

lemma punch_Suc:
  assumes "a \<le> b" "b < length t"
  shows "punch a (Suc b) t =
    (if 0 \<le> t ! b then (punch a b t)[b := -1] else punch a b t)"
  by (rule nth_equalityI) (use assms in \<open>auto simp: punch_def nth_list_update less_Suc_eq\<close>)

lemma live_update_hole:
  assumes "i < length t" "0 \<le> t ! i"
  shows "mset (live t) = add_mset (t ! i) (mset (live (t[i := -1])))"
proof -
  have "t = take i t @ t ! i # drop (Suc i) t" using assms(1) by (rule id_take_nth_drop)
  moreover have "t[i := -1] = take i t @ (-1) # drop (Suc i) t"
    using assms(1) by (rule upd_conv_take_nth_drop)
  ultimately show ?thesis using assms(2)
    by (metis add.commute live_simps(2,3,4) mset.simps(2) mset_append neg_less_0_iff_less
        union_mset_add_mset_right zero_less_one)
qed

lemma evict_slot_inv:
  assumes ai: "alloc_inv {#} s" and i: "i < length (table_of seq s)"
    and e: "evict_slot seq i (freed, s) = (freed', s')"
  shows "alloc_inv {#} s' \<and> table_frame seq s s' \<and>
    (if 0 \<le> table_of seq s ! i
     then freed' = freed + 1 \<and> table_of seq s' = (table_of seq s)[i := -1]
     else freed' = freed \<and> s' = s)"
proof (cases "0 \<le> table_of seq s ! i")
  case False
  with e i ai show ?thesis by (auto simp: evict_slot_def id_at_def Let_def)
next
  case True
  let ?t = "table_of seq s"
  let ?b = "?t ! i" and ?s1 = "erase_hash_of (?t ! i) s"
  let ?s2 = "set_table seq (?t[i := -1]) ?s1"
  have e': "freed' = freed + 1" "s' = drop_refs [?b] ?s2"
    using e True i by (auto simp: evict_slot_def id_at_def Let_def)
  have tb: "table_of seq ?s1 = ?t" by simp
  have "own_with {#} ?s1" using ai by (simp add: alloc_inv_def)
  then have "own_with (mset (live [?b]) + {#}) ?s2"
    using live_update_hole [OF i True] True by (intro own_set_table) (simp_all add: tb)
  from own_drop_refs [OF this] ai have "alloc_inv {#} s'"
    by (simp add: e' alloc_inv_def hash_inv_erase_hash)
  moreover have "table_frame seq s s'" unfolding e'
    using alloc_table_frame [OF alloc_frame_erase_hash] table_frame_set_table
      table_frame_drop_refs table_frame_trans by metis
  moreover have "table_of seq s' = ?t[i := -1]"
    by (simp add: e' drop_refs_def table_of_def set_table_def)
  ultimately show ?thesis using True e' by simp
qed

lemma evict_fold_inv:
  assumes ai: "alloc_inv {#} s" and a: "a \<le> b" and b: "b \<le> length (table_of seq s)"
    and f: "fold (evict_slot seq) [a..<b] (freed, s) = (freed', s')"
  shows "alloc_inv {#} s' \<and> table_frame seq s s' \<and> table_of seq s' = punch a b (table_of seq s) \<and>
    freed' = freed + int (length (live (drop a (take b (table_of seq s)))))"
  using a b f
proof (induction b arbitrary: freed' s' rule: dec_induct)
  case base
  with ai show ?case by simp
next
  case (step b)
  let ?t = "table_of seq s"
  obtain fr1 s1 where f1: "fold (evict_slot seq) [a..<b] (freed, s) = (fr1, s1)" by fastforce
  have e: "evict_slot seq b (fr1, s1) = (freed', s')" using step f1 by simp
  have b: "b \<le> length ?t" "b < length ?t" using step.prems(1) by simp_all
  have i: "alloc_inv {#} s1" "table_frame seq s s1" "table_of seq s1 = punch a b ?t"
    "fr1 = freed + int (length (live (drop a (take b ?t))))"
    using step.IH [OF b(1) f1] by simp_all
  have nb: "table_of seq s1 ! b = ?t ! b" using b(2) by (simp add: i(3) punch_def)
  have len: "b < length (table_of seq s1)" using b(2) by (simp add: i(3))
  note g = evict_slot_inv [OF i(1) len e]
  have "drop a (take (Suc b) ?t) = drop a (take b ?t) @ [?t ! b]"
    using b(2) step.hyps by (simp add: take_Suc_conv_app_nth)
  then have lv: "live (drop a (take (Suc b) ?t)) = live (drop a (take b ?t)) @ live [?t ! b]"
    by simp
  show ?case
  proof (cases "0 \<le> ?t ! b")
    case True
    then show ?thesis
      using g i lv nb punch_Suc [OF step.hyps(1) b(2)] table_frame_trans by auto
  next
    case False
    then show ?thesis
      using g i lv nb punch_Suc [OF step.hyps(1) b(2)] table_frame_trans by auto
  qed
qed

lemma clear_hash_inv:
  assumes "kv_inv s"
  shows "kv_inv (clear_hash seq i s)" "seq_blocks (clear_hash seq i s) = seq_blocks s"
proof -
  let ?b = "id_at (table_of seq s) i"
  let ?s1 = "if 0 \<le> ?b then erase_hash_of ?b s else s"
  have "alloc_inv {#} ?s1"
    using kv_inv_alloc_inv [OF assms] by (simp add: alloc_inv_def hash_inv_erase_hash)
  moreover have "table_frame seq s ?s1" using alloc_table_frame [OF alloc_frame_erase_hash] by simp
  ultimately have "kv_inv ?s1" using kv_inv_table_frame [OF assms] by blast
  from kv_inv_irrelevant [OF this] show "kv_inv (clear_hash seq i s)"
    by (simp only: clear_hash_def Let_def)
  show "seq_blocks (clear_hash seq i s) = seq_blocks s" by (simp add: clear_hash_def Let_def)
qed

lemma clear_hash_fold:
  "kv_inv s \<Longrightarrow> kv_inv (fold (clear_hash seq) is s) \<and>
     seq_blocks (fold (clear_hash seq) is s) = seq_blocks s"
  by (induction "is" arbitrary: s) (simp_all add: clear_hash_inv)

lemma blocks_for_pos: "0 < bs \<Longrightarrow> 0 < n \<Longrightarrow> 0 < blocks_for n bs"
  by (simp add: blocks_for_def pos_imp_zdiv_pos_iff)

lemma pinq_frame_alloc: "kv_inv s \<Longrightarrow> pinq_frame s s' \<Longrightarrow> table_of q s' = table_of q s"
  by (simp add: pinq_frame_def pin_frame_def table_of_def)

text \<open>What middle eviction leaves in the table and counts as freed.\<close>

definition evicts_middle :: "int \<Rightarrow> int \<Rightarrow> int \<Rightarrow> kv_mgr \<Rightarrow> bool" where
  "evicts_middle seq n_sink n_window s \<longleftrightarrow>
     table_of seq s \<noteq> [] \<and> 0 < n_sink \<and> 0 < n_window \<and> blocks_for n_sink (kv_block_size s) <
       window_start_block (int (length (table_of seq s))) n_window (kv_block_size s)"

lemma evict_middle_outcome:
  assumes inv: "kv_inv s"
  shows "\<exists>freed s'. evict_middle_blocks seq n_sink n_window s = Some (freed, s') \<and> kv_inv s' \<and>
    (\<forall>q. q \<noteq> seq \<longrightarrow> table_of q s' = table_of q s) \<and>
    (let t = table_of seq s; a = nat (blocks_for n_sink (kv_block_size s));
         b = nat (window_start_block (int (length t)) n_window (kv_block_size s))
     in if evicts_middle seq n_sink n_window s
        then table_of seq s' = punch a b t \<and> freed = int (length (live (drop a (take b t))))
        else s' = s \<and> freed = 0)"
proof (cases "evicts_middle seq n_sink n_window s")
  case False
  then show ?thesis
    using inv by (auto simp: evicts_middle_def evict_middle_blocks_def table_of_def Let_def not_less
        split: option.splits)
next
  case True
  let ?t = "table_of seq s" and ?bs = "kv_block_size s"
  let ?sk = "blocks_for n_sink ?bs" and ?w = "window_start_block (int (length (table_of seq s))) n_window ?bs"
  have c: "?t \<noteq> []" "0 < n_sink" "0 < n_window" "?sk < ?w" using True by (simp_all add: evicts_middle_def)
  then have m: "map_of (seq_blocks s) seq = Some ?t"
    by (auto simp: table_of_def split: option.splits)
  define r where "r = (if (case pinned_seq_blocks s seq of None \<Rightarrow> 0 | Some bs \<Rightarrow> int (length bs)) < ?sk
    then pin_prefix seq ?sk s else Some s)"
  obtain p1 where "pin_prefix seq ?sk s = Some p1" "kv_inv p1" "pinq_frame s p1"
    using pin_prefix_outcome [OF inv, of seq ?sk] by blast
  then have "\<exists>s1. r = Some s1 \<and> kv_inv s1 \<and> pinq_frame s s1" unfolding r_def using inv by simp
  then obtain s1 where s1: "r = Some s1" "kv_inv s1" "pinq_frame s s1" by blast
  have t1: "table_of q s1 = table_of q s" for q using pinq_frame_alloc [OF inv s1(3)] .
  obtain freed s2 where f: "fold (evict_slot seq) [nat ?sk..<nat ?w] (0, s1) = (freed, s2)" by fastforce
  have bs: "0 < ?bs" using inv by (simp add: kv_inv_def)
  have "0 < blocks_for n_window ?bs" using bs c(3) by (rule blocks_for_pos)
  then have le: "nat ?sk \<le> nat ?w" "nat ?w \<le> length (table_of seq s1)"
    using c(4) by (auto simp: t1 window_start_block_def)
  from evict_fold_inv [OF kv_inv_alloc_inv [OF s1(2)] le f]
  have i2: "alloc_inv {#} s2" "table_frame seq s1 s2" "table_of seq s2 = punch (nat ?sk) (nat ?w) ?t"
    "freed = int (length (live (drop (nat ?sk) (take (nat ?w) ?t))))" by (simp_all add: t1)
  have inv2: "kv_inv s2" using kv_inv_table_frame [OF s1(2) i2(2,1)] .
  define s3 where "s3 = (case seq_block_hashes s2 seq of None \<Rightarrow> s2
    | Some hs \<Rightarrow> fold (clear_hash seq) [nat ?sk..<min (length ?t) (length hs)] s2)"
  have i3: "kv_inv s3" "seq_blocks s3 = seq_blocks s2"
    using clear_hash_fold [OF inv2] inv2 by (auto simp: s3_def split: option.splits)
  have "evict_middle_blocks seq n_sink n_window s = Some (freed, s3)"
    using c by (simp add: evict_middle_blocks_def m Let_def r_def [symmetric] s1(1) f s3_def
        not_le)
  moreover have "table_of q s3 = table_of q s2" for q using i3(2) by (rule table_of_seq_blocks)
  moreover have "q \<noteq> seq \<Longrightarrow> table_of q s2 = table_of q s" for q
    using table_frame_other [OF i2(2)] t1 by simp
  ultimately show ?thesis using True i3(1) i2(3,4) by (simp add: Let_def)
qed

text \<open>
  The decode kernel's first window block, \<^verbatim>\<open>floor((ctx_len - window) / block_size)\<close>, is never
  before the first retained one when the last block of the table holds the last token.
\<close>

lemma window_covers_kernel:
  assumes "0 < bs" "0 < w" "(T - 1) * bs < ctx" "w \<le> ctx" "1 \<le> T"
  shows "window_start_block T w bs \<le> (ctx - w) div bs"
proof -
  have nn: "0 \<le> (ctx - w) div bs" using assms by (simp add: pos_imp_zdiv_nonneg_iff)
  let ?c = "(w + bs - 1) div bs"
  have "w \<le> ?c * bs"
  proof -
    have "w + bs - 1 = ?c * bs + (w + bs - 1) mod bs" by simp
    moreover have "(w + bs - 1) mod bs \<le> bs - 1" using pos_mod_bound [OF assms(1)] by (simp add: zle_diff1_eq)
    ultimately show ?thesis by linarith
  qed
  then have "(T - 1 - ?c) * bs \<le> ctx - w" using assms(3) by (simp add: algebra_simps)
  then have "(T - 1 - ?c) * bs div bs \<le> (ctx - w) div bs" using assms(1) by (rule zdiv_mono1)
  then have "T - ?c - 1 \<le> (ctx - w) div bs" using assms(1) by simp
  with nn show ?thesis by (simp add: window_start_block_def blocks_for_def)
qed

end
