(* ===== verification/KV_Prefix.thy ===== *)
theory KV_Prefix
  imports KV_Truncate
begin

text \<open>
  Content-addressed prefix caching of \<^verbatim>\<open>KVCacheManager\<close>: the chained block hash,
  \<^verbatim>\<open>longest_cached_prefix_blocks\<close>, \<^verbatim>\<open>allocate_blocks_with_prefix\<close>,
  \<^verbatim>\<open>rollback_partial_allocation\<close> and \<^verbatim>\<open>register_block_hashes\<close>, with the lemmas that they keep
  the invariant. Loops over block indices are recursions on the number of rounds left.
\<close>

section \<open>Hashes\<close>

definition compute_block_hash :: "token list \<Rightarrow> hash \<Rightarrow> hash" where
  "compute_block_hash tokens parent_hash =
     fold (\<lambda>tok h. (h XOR ucast tok) * 0x100000001b3) tokens (parent_hash XOR 0xcbf29ce484222325)"

text \<open>The tokens of block \<open>b\<close>; fewer than \<open>n\<close> when the block is partial.\<close>

definition block_tokens :: "nat \<Rightarrow> token list \<Rightarrow> nat \<Rightarrow> token list" where
  "block_tokens n toks b = take n (drop (b * n) toks)"

primrec longest_loop ::
  "nat \<Rightarrow> nat \<Rightarrow> nat \<Rightarrow> token list \<Rightarrow> (hash \<rightharpoonup> int) \<Rightarrow> hash \<Rightarrow> bool \<Rightarrow> int \<Rightarrow> hash list \<Rightarrow>
   int \<times> hash list" where
  "longest_loop 0 b n toks ids parent chain_intact cached acc = (cached, acc)"
| "longest_loop (Suc k) b n toks ids parent chain_intact cached acc =
     (let h = compute_block_hash (block_tokens n toks b) parent;
          hit = chain_intact \<and> ids h \<noteq> None
      in longest_loop k (Suc b) n toks ids h hit
           (if hit then int b + 1 else cached) (acc @ [h]))"

definition longest_cached_prefix_blocks ::
  "token list \<Rightarrow> hash \<Rightarrow> kv_mgr \<Rightarrow> int \<times> hash list" where
  "longest_cached_prefix_blocks toks salt s =
     (let n = nat (kv_block_size s)
      in longest_loop (length toks div n) 0 n toks (block_hash_to_id s) salt True 0 [])"

section \<open>Allocation with reuse\<close>

definition hashes_of :: "int \<Rightarrow> kv_mgr \<Rightarrow> hash list" where
  "hashes_of seq s = (case seq_block_hashes s seq of None \<Rightarrow> [] | Some hs \<Rightarrow> hs)"

definition set_hashes :: "int \<Rightarrow> hash list \<Rightarrow> kv_mgr \<Rightarrow> kv_mgr" where
  "set_hashes seq hs s = s\<lparr>seq_block_hashes := (seq_block_hashes s)(seq \<mapsto> hs)\<rparr>"

definition push_hash :: "int \<Rightarrow> hash \<Rightarrow> kv_mgr \<Rightarrow> kv_mgr" where
  "push_hash seq h s = set_hashes seq (hashes_of seq s @ [h]) s"

text \<open>A hit, unless the mapped block is free: then the stale entry is dropped.\<close>

definition prefix_lookup :: "hash \<Rightarrow> kv_mgr \<Rightarrow> int option \<times> kv_mgr" where
  "prefix_lookup h s =
     (case block_hash_to_id s h of
        None \<Rightarrow> (None, s)
      | Some b \<Rightarrow>
          if cache_ref_count b s = 0 \<and> map_of (cached_blocks_map s) b = None
          then (None, s\<lparr>block_id_to_hash := (block_id_to_hash s)(b := None),
                        block_hash_to_id := (block_hash_to_id s)(h := None)\<rparr>)
          else (Some b, s))"

text \<open>The reference moves out of the cache, or another one to the live block is taken.\<close>

definition reuse_block :: "int \<Rightarrow> int \<Rightarrow> kv_mgr \<Rightarrow> kv_mgr" where
  "reuse_block seq b s =
     (case map_of (cached_blocks_map s) b of
        Some r \<Rightarrow>
          push_ref seq r
            (s\<lparr>cached_blocks_lru := remove1 b (cached_blocks_lru s),
               cached_blocks_map := AList.delete b (cached_blocks_map s),
               reclaimable_cached_count :=
                 (if b \<notin> pinned_blocks s then reclaimable_cached_count s - 1
                  else reclaimable_cached_count s)\<rparr>)
      | None \<Rightarrow> (case share_block b s of (c, s1) \<Rightarrow> push_ref seq c s1))"

definition rollback_partial_allocation :: "int \<Rightarrow> nat \<Rightarrow> kv_mgr \<Rightarrow> kv_mgr" where
  "rollback_partial_allocation seq original_size s =
     (let t = table_of seq s;
          s1 = fold (\<lambda>j s. drop_stale_hash_if_last (id_at t j) s) [original_size..<length t] s;
          s2 = shrink_table seq original_size s1;
          s3 = set_hashes seq (take original_size (hashes_of seq s2) @
                 replicate (original_size - length (hashes_of seq s2)) 0) s2
      in if table_of seq s3 = []
         then (erase_table seq s3)\<lparr>seq_block_hashes := (seq_block_hashes s3)(seq := None)\<rparr>
         else s3)"

primrec prefix_loop ::
  "nat \<Rightarrow> nat \<Rightarrow> int \<Rightarrow> token list \<Rightarrow> int \<Rightarrow> nat \<Rightarrow> hash \<Rightarrow> bool \<Rightarrow> int \<Rightarrow> kv_mgr \<Rightarrow> int \<times> kv_mgr" where
  "prefix_loop 0 b seq toks max_reuse osz parent reuse_open reused s = (reused, s)"
| "prefix_loop (Suc k) b seq toks max_reuse osz parent reuse_open reused s =
     (let n = nat (kv_block_size s);
          bt = block_tokens n toks b;
          is_full = (length bt = n);
          h = compute_block_hash bt parent;
          reuse = (reuse_open \<and> \<not> (0 \<le> max_reuse \<and> max_reuse \<le> int b)) in
      if prefix_caching_enabled s \<and> is_full then
        (case (if reuse then prefix_lookup h s else (None, s)) of
           (Some c, s1) \<Rightarrow>
             prefix_loop k (Suc b) seq toks max_reuse osz h reuse (reused + 1)
               (push_hash seq h (reuse_block seq c s1))
         | (None, s1) \<Rightarrow>
             (case allocate_block_ref_with_eviction s1 of (r, s2) \<Rightarrow>
                if r < 0 then (-1, rollback_partial_allocation seq osz s2)
                else prefix_loop k (Suc b) seq toks max_reuse osz h False reused
                       (push_hash seq h (push_ref seq r s2))))
      else
        (case allocate_block_ref_with_eviction s of (r, s2) \<Rightarrow>
           if r < 0 then (-1, rollback_partial_allocation seq osz s2)
           else prefix_loop k (Suc b) seq toks max_reuse osz
                  (if is_full then h else parent) reuse reused
                  (push_hash seq (if is_full then h else 0) (push_ref seq r s2))))"

definition allocate_blocks_with_prefix ::
  "int \<Rightarrow> token list \<Rightarrow> int \<Rightarrow> hash \<Rightarrow> kv_mgr \<Rightarrow> int \<times> kv_mgr" where
  "allocate_blocks_with_prefix seq toks max_reuse salt s =
     (let num = int (length toks) in
      if num \<le> 0 then (0, s)
      else
        let n_blocks = blocks_for num (kv_block_size s);
            s0 = set_table seq (table_of seq s) s in
        if table_of seq s \<noteq> [] then
          let additional = n_blocks - int (length (table_of seq s)) in
          if 0 < additional
          then (case allocate_blocks seq additional s0 of (ok, s1) \<Rightarrow> (if ok then 0 else -1, s1))
          else (0, s0)
        else
          (case prefix_loop (nat n_blocks) 0 seq toks max_reuse 0 salt True 0
                  (set_hashes seq (hashes_of seq s0) s0) of
             (r, s1) \<Rightarrow> (r, if r < 0 then s1 else track_lru seq s1)))"

section \<open>Registration\<close>

definition put_hash :: "hash \<Rightarrow> int \<Rightarrow> kv_mgr \<Rightarrow> kv_mgr" where
  "put_hash h b s =
     (if block_hash_to_id s h = None
      then s\<lparr>block_hash_to_id := (block_hash_to_id s)(h \<mapsto> b),
             block_id_to_hash := (block_id_to_hash s)(b \<mapsto> h)\<rparr>
      else s)"

primrec register_loop :: "nat \<Rightarrow> nat \<Rightarrow> int \<Rightarrow> token list \<Rightarrow> hash \<Rightarrow> kv_mgr \<Rightarrow> kv_mgr" where
  "register_loop 0 b seq toks parent s = s"
| "register_loop (Suc k) b seq toks parent s =
     (let n = nat (kv_block_size s); bt = block_tokens n toks b; hs = hashes_of seq s;
          block_id = id_at (table_of seq s) b in
      if length bt < n then s
      else if b < length hs \<and> hs ! b \<noteq> 0 then
        register_loop k (Suc b) seq toks (hs ! b) (put_hash (hs ! b) block_id s)
      else
        let h = compute_block_hash bt parent;
            s1 = set_hashes seq (if b < length hs then hs[b := h] else hs @ [h]) s
        in register_loop k (Suc b) seq toks h (put_hash h block_id s1))"

definition register_block_hashes :: "int \<Rightarrow> token list \<Rightarrow> hash \<Rightarrow> kv_mgr \<Rightarrow> kv_mgr" where
  "register_block_hashes seq toks salt s =
     (if \<not> prefix_caching_enabled s then s
      else case map_of (seq_blocks s) seq of
        None \<Rightarrow> s
      | Some t \<Rightarrow> register_loop (length t) 0 seq toks salt (set_hashes seq (hashes_of seq s) s))"

section \<open>Single steps\<close>

text \<open>The frame of operations on one sequence that also write its hashes.\<close>

definition hash_frame :: "int \<Rightarrow> kv_mgr \<Rightarrow> kv_mgr \<Rightarrow> bool" where
  "hash_frame seq s s' \<longleftrightarrow> table_frame seq (s\<lparr>seq_block_hashes := seq_block_hashes s'\<rparr>) s'"

lemma hash_frame_refl [simp]: "hash_frame seq s s"
  by (simp add: hash_frame_def table_frame_def alloc_frame_def)

lemma hash_frame_trans: "hash_frame seq s t \<Longrightarrow> hash_frame seq t u \<Longrightarrow> hash_frame seq s u"
  by (simp add: hash_frame_def table_frame_def alloc_frame_def)

lemma table_hash_frame: "table_frame seq s s' \<Longrightarrow> hash_frame seq s s'"
  by (simp add: hash_frame_def table_frame_def alloc_frame_def)

lemma hash_frame_set_hashes [simp]: "hash_frame seq s (set_hashes seq hs s)"
  by (simp add: hash_frame_def set_hashes_def table_frame_def alloc_frame_def)

lemma hash_frame_push_hash [simp]: "hash_frame seq s (push_hash seq h s)"
  by (simp add: push_hash_def)

lemma hash_frame_other: "hash_frame seq s s' \<Longrightarrow> q \<noteq> seq \<Longrightarrow> table_of q s' = table_of q s"
  by (simp add: hash_frame_def table_frame_def table_of_def)

lemma hash_frame_fields:
  assumes "hash_frame seq s s'"
  shows "kv_block_size s' = kv_block_size s" "prefix_caching_enabled s' = prefix_caching_enabled s"
    "pinned_blocks s' = pinned_blocks s"
  using assms by (simp_all add: hash_frame_def table_frame_def alloc_frame_def)

lemma kv_inv_hash_frame:
  assumes "kv_inv s" "hash_frame seq s s'" "alloc_inv {#} s'"
  shows "kv_inv s'"
  by (rule kv_inv_table_frame [OF kv_inv_irrelevant [OF assms(1)]
        assms(2) [unfolded hash_frame_def] assms(3)])

lemma alloc_inv_set_hashes [simp]: "alloc_inv X (set_hashes seq hs s) = alloc_inv X s"
  by (simp add: alloc_inv_def set_hashes_def own_with_def kv_refs_def cache_inv_def hash_inv_def)

lemma push_hash_simps [simp]:
  "alloc_inv X (push_hash seq h s) = alloc_inv X s"
  "table_of q (push_hash seq h s) = table_of q s"
  "table_of q (set_hashes seq hs s) = table_of q s"
  "block_hash_to_id (push_hash seq h s) = block_hash_to_id s"
  "kv_pool (push_hash seq h s) = kv_pool s"
  "seq_blocks (push_hash seq h s) = seq_blocks s"
  by (simp_all add: push_hash_def) (simp_all add: set_hashes_def table_of_def)

lemma own_hash_fields [simp]:
  "own_with X (s\<lparr>block_id_to_hash := a\<rparr>) = own_with X s"
  "own_with X (s\<lparr>block_hash_to_id := c\<rparr>) = own_with X s"
  "cache_inv (s\<lparr>block_id_to_hash := a\<rparr>) = cache_inv s"
  "cache_inv (s\<lparr>block_hash_to_id := c\<rparr>) = cache_inv s"
  by (simp_all add: own_with_def kv_refs_def cache_inv_def)

lemma prefix_lookup_frame:
  assumes "alloc_inv X s" "prefix_lookup h s = (hit, s1)"
  shows "alloc_inv X s1" "alloc_frame s s1" "kv_pool s1 = kv_pool s"
    "cached_blocks_map s1 = cached_blocks_map s"
proof -
  show "alloc_frame s s1" "kv_pool s1 = kv_pool s" "cached_blocks_map s1 = cached_blocks_map s"
    using assms(2)
    by (auto simp: prefix_lookup_def alloc_frame_def split: option.splits if_splits)
  have "hash_inv s1"
    using assms unfolding alloc_inv_def hash_inv_def prefix_lookup_def
    by (auto split: option.splits if_splits)
  moreover have "s1 = s \<or> (\<exists>a b. s1 = s\<lparr>block_id_to_hash := a, block_hash_to_id := b\<rparr>)"
    using assms(2) by (auto simp: prefix_lookup_def split: option.splits if_splits)
  then have "own_with X s1" "cache_inv s1"
    using assms(1) by (auto simp: alloc_inv_def)
  ultimately show "alloc_inv X s1" by (simp add: alloc_inv_def)
qed

text \<open>The registered blocks somebody still references.\<close>

definition live_ids :: "kv_mgr \<Rightarrow> hash \<rightharpoonup> int" where
  "live_ids s h = (case block_hash_to_id s h of
     None \<Rightarrow> None | Some b \<Rightarrow> if 0 < refs_of (kv_pool s) b then Some b else None)"

lemma cached_refs_pos:
  assumes "own_with X s" "map_of (cached_blocks_map s) b = Some r"
  shows "r = b" "0 < refs_of (kv_pool s) b" "b \<in># kv_refs s" "0 \<le> b"
proof -
  have e: "(b, r) \<in> set (cached_blocks_map s)" using assms(2) by (rule map_of_SomeD)
  then show "r = b" using assms(1) by (force simp: own_with_def)
  then show m: "b \<in># kv_refs s" using e by (force simp: kv_refs_def)
  then show "0 < refs_of (kv_pool s) b" "0 \<le> b"
    using pool_ownedD(3,4) [of "kv_pool s" "kv_refs s + X" b] assms(1) by (simp_all add: own_with_def)
qed

lemma ref_count_refs:
  assumes "own_with X s"
  shows "cache_ref_count b s = 0 \<longleftrightarrow> refs_of (kv_pool s) b = 0"
proof (cases "b \<in> block_ids (kv_pool s)")
  case True
  have "pool_inv (kv_pool s)" using assms by (simp add: own_with_def pool_owned_def)
  with refs_zero_iff [OF this True] True show ?thesis
    by (simp add: cache_ref_count_def ref_count_def block_ids_def)
next
  case False
  then show ?thesis
    by (auto simp: cache_ref_count_def refs_of_def ref_count_def block_ids_def)
qed

lemma prefix_lookup_live:
  assumes "own_with X s" "prefix_lookup h s = (hit, s1)"
  shows "hit = live_ids s h"
proof (cases "block_hash_to_id s h")
  case None
  with assms(2) show ?thesis by (simp add: prefix_lookup_def live_ids_def)
next
  case (Some b)
  have "map_of (cached_blocks_map s) b \<noteq> None \<Longrightarrow> 0 < refs_of (kv_pool s) b"
    using cached_refs_pos(2) [OF assms(1)] by blast
  with assms(2) Some ref_count_refs [OF assms(1), of b] show ?thesis
    by (auto simp: prefix_lookup_def live_ids_def split: if_splits)
qed

lemma cache_inv_remove:
  assumes ci: "cache_inv s" and m: "map_of (cached_blocks_map s) b \<noteq> None"
  shows "cache_inv (s\<lparr>cached_blocks_lru := remove1 b (cached_blocks_lru s),
    cached_blocks_map := AList.delete b (cached_blocks_map s),
    reclaimable_cached_count := (if b \<notin> pinned_blocks s then reclaimable_cached_count s - 1
       else reclaimable_cached_count s)\<rparr>)"
proof -
  let ?L = "set (cached_blocks_lru s)"
  have d: "distinct (cached_blocks_lru s)" using ci by (simp add: cache_inv_def)
  have b: "b \<in> ?L" using ci m by (auto simp: cache_inv_def map_of_eq_None_iff)
  have r: "set (remove1 b (cached_blocks_lru s)) = ?L - {b}" using d by simp
  have "card (?L - pinned_blocks s) =
      card (?L - {b} - pinned_blocks s) + (if b \<notin> pinned_blocks s then 1 else 0)"
  proof (cases "b \<in> pinned_blocks s")
    case True
    then have "?L - {b} - pinned_blocks s = ?L - pinned_blocks s" by blast
    with True show ?thesis by simp
  next
    case False
    have "?L - {b} - pinned_blocks s = (?L - pinned_blocks s) - {b}" by blast
    moreover have "b \<in> ?L - pinned_blocks s" using b False by blast
    ultimately show ?thesis using False
      by (metis List.finite_set Suc_eq_plus1 card.remove finite_Diff)
  qed
  moreover have "?L - {b} = fst ` set (AList.delete b (cached_blocks_map s))"
    using ci unfolding keys_delete by (simp add: cache_inv_def)
  moreover have "reclaimable_cached_count s = int (card (?L - pinned_blocks s))"
    using ci unfolding cache_inv_def by blast
  ultimately show ?thesis using d unfolding cache_inv_def by (simp add: r)
qed

end
