(* ===== verification/KV_Prefix_Inv.thy ===== *)
theory KV_Prefix_Inv
  imports KV_Prefix
begin

text \<open>
  Prefix reuse is sound: \<^verbatim>\<open>allocate_blocks_with_prefix\<close> keeps the invariant, reuses exactly the
  longest run of leading full blocks whose chained hash names a referenced block (up to the
  caller's cap), takes fresh blocks for the rest, and on failure leaves every table as it was.
\<close>

section \<open>Reusing one block\<close>

lemma push_ref_fields [simp]:
  "kv_pool (push_ref seq b s) = kv_pool s"
  "block_hash_to_id (push_ref seq b s) = block_hash_to_id s"
  by (simp_all add: push_ref_def set_table_def)

lemma reuse_block_inv:
  assumes ai: "alloc_inv X s" and live: "0 < refs_of (kv_pool s) b" and b: "b \<in> block_ids (kv_pool s)"
  shows "alloc_inv X (reuse_block seq b s) \<and> table_frame seq s (reuse_block seq b s) \<and>
    table_of seq (reuse_block seq b s) = table_of seq s @ [b] \<and>
    block_hash_to_id (reuse_block seq b s) = block_hash_to_id s \<and>
    seq_blocks (reuse_block seq b s) = seq_blocks (push_ref seq b s) \<and>
    (\<forall>c. 0 < refs_of (kv_pool (reuse_block seq b s)) c \<longleftrightarrow> 0 < refs_of (kv_pool s) c)"
proof (cases "map_of (cached_blocks_map s) b")
  case (Some r)
  have o: "own_with X s" "cache_inv s" "hash_inv s" using ai by (simp_all add: alloc_inv_def)
  note c = cached_refs_pos [OF o(1) Some]
  define s1 where "s1 = s\<lparr>cached_blocks_lru := remove1 b (cached_blocks_lru s),
    cached_blocks_map := AList.delete b (cached_blocks_map s),
    reclaimable_cached_count := (if b \<notin> pinned_blocks s then reclaimable_cached_count s - 1
       else reclaimable_cached_count s)\<rparr>"
  have d: "distinct (map fst (cached_blocks_map s))" using o(1) by (simp add: own_with_def)
  have "set (AList.delete b (cached_blocks_map s)) \<subseteq> set (cached_blocks_map s)"
    by (auto simp: AList.delete_eq)
  then have "own_with (add_mset b X) s1"
    using o(1) alist_delete_image [OF d Some, of snd] c(1)
    by (auto simp: own_with_def kv_refs_def s1_def)
  moreover have "cache_inv s1" unfolding s1_def using Some by (intro cache_inv_remove [OF o(2)]) simp
  moreover have "hash_inv s1" using o(3) by (simp add: s1_def hash_inv_def)
  ultimately have "alloc_inv X (push_ref seq b s1)" using c(4) by (intro alloc_inv_push) (simp_all add: alloc_inv_def)
  moreover have e: "reuse_block seq b s = push_ref seq b s1"
    using Some c(1) by (simp add: reuse_block_def s1_def)
  moreover have "table_frame seq s s1" by (simp add: s1_def table_frame_def alloc_frame_def)
  then have "table_frame seq s (push_ref seq b s1)" using table_frame_push by (rule table_frame_trans)
  moreover have "table_of seq s1 = table_of seq s" "kv_pool s1 = kv_pool s"
    "block_hash_to_id s1 = block_hash_to_id s" by (simp_all add: s1_def table_of_def)
  moreover have "seq_blocks (push_ref seq b s1) = seq_blocks (push_ref seq b s)"
    by (simp add: s1_def push_ref_def set_table_def table_of_def)
  ultimately show ?thesis by simp
next
  case None
  have o: "own_with X s" "cache_inv s" "hash_inv s" using ai by (simp_all add: alloc_inv_def)
  have own: "pool_owned (kv_pool s) (kv_refs s + X)" using o(1) by (simp add: own_with_def)
  have mem: "b \<in># kv_refs s + X"
    using pool_ownedD(5) [OF own b] live by (metis count_greater_zero_iff)
  obtain c p where sh: "share_by_id b (kv_pool s) = (c, p)" by fastforce
  note q = pool_owned_share [OF own mem sh]
  have nn: "0 \<le> b" using pool_ownedD(4) [OF own mem] .
  have "own_with (add_mset b X) (s\<lparr>kv_pool := p\<rparr>)"
    using o(1) q(2) by (simp add: own_with_def kv_refs_def)
  then have "alloc_inv X (push_ref seq b (s\<lparr>kv_pool := p\<rparr>))"
    using o(2,3) nn by (intro alloc_inv_push) (simp_all add: alloc_inv_def cache_inv_def hash_inv_def)
  moreover have e: "reuse_block seq b s = push_ref seq b (s\<lparr>kv_pool := p\<rparr>)"
    using None sh q(1) by (simp add: reuse_block_def share_block_def)
  moreover have "table_frame seq s (s\<lparr>kv_pool := p\<rparr>)"
    using q(3) by (simp add: table_frame_def alloc_frame_def)
  then have "table_frame seq s (push_ref seq b (s\<lparr>kv_pool := p\<rparr>))"
    using table_frame_push by (rule table_frame_trans)
  moreover have "refs_of p = (refs_of (kv_pool s))(b := refs_of (kv_pool s) b + 1)"
    using bp.share_live [OF pool_ownedD(1) [OF own] b live sh] by simp
  moreover have "table_of seq (s\<lparr>kv_pool := p\<rparr>) = table_of seq s" by (simp add: table_of_def)
  moreover have "seq_blocks (push_ref seq b (s\<lparr>kv_pool := p\<rparr>)) = seq_blocks (push_ref seq b s)"
    by (simp add: push_ref_def set_table_def table_of_def)
  ultimately show ?thesis using live by simp
qed

lemma refs_pos_in_ids: "0 < refs_of p b \<Longrightarrow> b \<in> block_ids p"
  by (auto simp: refs_of_def ref_count_def block_ids_def split: if_splits)

lemma live_ids_Some: "live_ids s h = Some b \<Longrightarrow> 0 < refs_of (kv_pool s) b"
  by (auto simp: live_ids_def split: option.splits if_splits)

lemma live_ids_cong:
  assumes "block_hash_to_id s' = block_hash_to_id s"
    and "\<And>c. 0 < refs_of (kv_pool s') c \<longleftrightarrow> 0 < refs_of (kv_pool s) c"
  shows "live_ids s' = live_ids s"
  using assms by (simp add: live_ids_def fun_eq_iff split: option.splits)

section \<open>Rolling back\<close>

lemma drop_stale_fold:
  "alloc_inv X s \<Longrightarrow> alloc_inv X (fold (\<lambda>j s. drop_stale_hash_if_last (f j) s) js s) \<and>
     alloc_frame s (fold (\<lambda>j s. drop_stale_hash_if_last (f j) s) js s)"
proof (induction js arbitrary: s)
  case (Cons j js)
  have "alloc_inv X (drop_stale_hash_if_last (f j) s)"
    using Cons.prems by (rule alloc_inv_drop_stale)
  from Cons.IH [OF this] show ?case
    using alloc_frame_trans [OF drop_stale_frame(1)] by auto
qed simp

lemma rollback_partial_inv:
  assumes "alloc_inv X s"
  shows "alloc_inv X (rollback_partial_allocation seq n s) \<and>
    hash_frame seq s (rollback_partial_allocation seq n s) \<and>
    table_of seq (rollback_partial_allocation seq n s) = take n (table_of seq s)"
proof -
  let ?t = "table_of seq s"
  define s1 where "s1 = fold (\<lambda>j s. drop_stale_hash_if_last (id_at ?t j) s) [n..<length ?t] s"
  have i1: "alloc_inv X s1" "alloc_frame s s1" 
    using drop_stale_fold [OF assms, of "id_at ?t" "[n..<length ?t]"] by (simp_all add: s1_def)
  define s2 where "s2 = shrink_table seq n s1"
  define s3 where "s3 = set_hashes seq (take n (hashes_of seq s2) @
    replicate (n - length (hashes_of seq s2)) 0) s2"
  have i3: "alloc_inv X s3" using alloc_inv_shrink [OF i1(1)] by (simp add: s3_def s2_def)
  have t1: "table_of seq s1 = ?t" using i1(2) by simp
  have t3: "table_of seq s3 = take n ?t" by (simp add: s3_def s2_def t1)
  have f3: "hash_frame seq s s3"
    using table_hash_frame [OF table_frame_trans [OF alloc_table_frame [OF i1(2)] table_frame_shrink]]
      hash_frame_trans hash_frame_set_hashes unfolding s3_def s2_def by blast
  have e: "rollback_partial_allocation seq n s =
      (if take n ?t = [] then (erase_table seq s3)\<lparr>seq_block_hashes := (seq_block_hashes s3)(seq := None)\<rparr>
       else s3)"
    unfolding rollback_partial_allocation_def Let_def s1_def [symmetric] s2_def [symmetric]
      s3_def [symmetric] t3 ..
  show ?thesis
  proof (cases "take n ?t = []")
    case True
    then have "alloc_inv X (erase_table seq s3)"
      using alloc_inv_erase_table [OF i3] t3 by simp
    then have "alloc_inv X ((erase_table seq s3)\<lparr>seq_block_hashes := (seq_block_hashes s3)(seq := None)\<rparr>)"
      by (simp add: alloc_inv_def own_with_def kv_refs_def cache_inv_def hash_inv_def)
    moreover have "hash_frame seq s3 ((erase_table seq s3)\<lparr>seq_block_hashes := (seq_block_hashes s3)(seq := None)\<rparr>)"
      by (simp add: hash_frame_def table_frame_def alloc_frame_def erase_table_def)
    ultimately show ?thesis
      unfolding e using True f3 hash_frame_trans by (auto simp: table_of_def erase_table_def)
  next
    case False
    then show ?thesis unfolding e using i3 f3 t3 by simp
  qed
qed

section \<open>The loop\<close>

text \<open>The reference answer: the ids of the longest run of leading hits, up to the cap.\<close>

primrec live_hits ::
  "nat \<Rightarrow> nat \<Rightarrow> nat \<Rightarrow> token list \<Rightarrow> int \<Rightarrow> (hash \<rightharpoonup> int) \<Rightarrow> hash \<Rightarrow> int list" where
  "live_hits 0 b n toks max_reuse ids parent = []"
| "live_hits (Suc k) b n toks max_reuse ids parent =
     (if length (block_tokens n toks b) = n \<and> \<not> (0 \<le> max_reuse \<and> max_reuse \<le> int b)
      then (let h = compute_block_hash (block_tokens n toks b) parent in
            case ids h of
              None \<Rightarrow> [] | Some c \<Rightarrow> c # live_hits k (Suc b) n toks max_reuse ids h)
      else [])"

lemma block_tokens_partial:
  assumes "length (block_tokens n toks b) \<noteq> n"
  shows "length (block_tokens n toks (Suc b)) \<noteq> n"
  using assms by (simp add: block_tokens_def)

lemma live_hits_partial:
  "length (block_tokens n toks b) \<noteq> n \<Longrightarrow> live_hits k b n toks mr ids parent = []"
  by (cases k) simp_all

lemma live_hits_capped:
  "0 \<le> mr \<Longrightarrow> mr \<le> int b \<Longrightarrow> live_hits k b n toks mr ids parent = []"
  by (cases k) simp_all

text \<open>What a run of the loop that started in \<open>s\<close> with the hits \<open>hs\<close> must have produced.\<close>

definition prefix_outcome :: "int \<Rightarrow> nat \<Rightarrow> int list \<Rightarrow> int \<Rightarrow> kv_mgr \<Rightarrow> int \<Rightarrow> kv_mgr \<Rightarrow> bool" where
  "prefix_outcome seq k hs reused s r s' \<longleftrightarrow> alloc_inv {#} s' \<and> hash_frame seq s s' \<and>
     (if r < 0 then r = -1 \<and> table_of seq s' = [] \<and> length hs < k
      else r = reused + int (length hs) \<and>
        (\<exists>fresh. table_of seq s' = table_of seq s @ hs @ fresh \<and> length (hs @ fresh) = k \<and>
           distinct fresh \<and> (\<forall>c \<in> set fresh. 0 \<le> c \<and> c \<notin># table_refs (seq_blocks s))))"

lemma prefix_outcome_fail:
  assumes "alloc_inv {#} s2" "hash_frame seq s s2" "length hs < k"
  shows "prefix_outcome seq k hs reused s (-1) (rollback_partial_allocation seq 0 s2)"
  using rollback_partial_inv [OF assms(1), of seq 0] hash_frame_trans [OF assms(2)] assms(3)
  by (simp add: prefix_outcome_def)

lemma prefix_outcome_fresh:
  assumes fr: "alloc_frame s s2" and ai: "alloc_inv {#c#} s2" and c: "0 \<le> c" "c \<notin># table_refs (seq_blocks s)"
    and out: "prefix_outcome seq k [] reused (push_hash seq h (push_ref seq c s2)) r s'"
  shows "prefix_outcome seq (Suc k) [] reused s r s'"
proof -
  let ?s3 = "push_hash seq h (push_ref seq c s2)"
  have fr3: "hash_frame seq s ?s3"
    using hash_frame_trans [OF table_hash_frame [OF table_frame_trans [OF alloc_table_frame [OF fr]
          table_frame_push]] hash_frame_push_hash] .
  have d: "distinct (map fst (seq_blocks s2))" "seq_blocks s2 = seq_blocks s"
    using ai fr by (simp_all add: alloc_inv_def own_with_def alloc_frame_def)
  have tr: "table_refs (seq_blocks ?s3) = add_mset c (table_refs (seq_blocks s))"
    using table_refs_push [OF d(1) c(1), of seq] d(2) by simp
  have tb: "table_of seq ?s3 = table_of seq s @ [c]" using fr by simp
  show ?thesis
  proof (cases "r < 0")
    case True
    with out hash_frame_trans [OF fr3] show ?thesis by (simp add: prefix_outcome_def)
  next
    case False
    with out obtain fresh where f: "table_of seq s' = table_of seq ?s3 @ fresh" "length fresh = k"
      "distinct fresh" "\<forall>e \<in> set fresh. 0 \<le> e \<and> e \<notin># table_refs (seq_blocks ?s3)"
      by (auto simp: prefix_outcome_def)
    have "\<exists>fr. table_of seq s' = table_of seq s @ [] @ fr \<and> length ([] @ fr) = Suc k \<and> distinct fr \<and>
        (\<forall>e \<in> set fr. 0 \<le> e \<and> e \<notin># table_refs (seq_blocks s))"
      using f [unfolded tb tr] c by (intro exI [of _ "c # fresh"]) auto
    with out False hash_frame_trans [OF fr3] show ?thesis by (auto simp: prefix_outcome_def)
  qed
qed

lemma prefix_outcome_reuse:
  assumes ai: "alloc_inv {#} s" and live: "live_ids s h = Some c"
    and out: "prefix_outcome seq k hs (reused + 1) (push_hash seq h (reuse_block seq c s)) r s'"
  shows "prefix_outcome seq (Suc k) (c # hs) reused s r s'"
proof -
  let ?s3 = "push_hash seq h (reuse_block seq c s)"
  have pos: "0 < refs_of (kv_pool s) c" using live by (rule live_ids_Some)
  note u = reuse_block_inv [OF ai pos refs_pos_in_ids [OF pos], of seq]
  have fr3: "hash_frame seq s ?s3"
    using u hash_frame_trans [OF table_hash_frame hash_frame_push_hash] by blast
  have d: "distinct (map fst (seq_blocks s))" using ai by (simp add: alloc_inv_def own_with_def)
  have "0 \<le> c" using refs_pos_in_ids [OF pos] by (simp add: block_ids_def)
  then have tr: "table_refs (seq_blocks ?s3) = add_mset c (table_refs (seq_blocks s))"
    using table_refs_push [OF d, of c seq] u by simp
  have tb: "table_of seq ?s3 = table_of seq s @ [c]" using u by simp
  show ?thesis
  proof (cases "r < 0")
    case True
    with out hash_frame_trans [OF fr3] show ?thesis by (simp add: prefix_outcome_def)
  next
    case False
    with out obtain fresh where f: "table_of seq s' = table_of seq ?s3 @ hs @ fresh" "length (hs @ fresh) = k"
      "distinct fresh" "\<forall>e \<in> set fresh. 0 \<le> e \<and> e \<notin># table_refs (seq_blocks ?s3)"
      by (auto simp: prefix_outcome_def)
    have "\<exists>fr. table_of seq s' = table_of seq s @ (c # hs) @ fr \<and> length ((c # hs) @ fr) = Suc k \<and>
        distinct fr \<and> (\<forall>e \<in> set fr. 0 \<le> e \<and> e \<notin># table_refs (seq_blocks s))"
      using f [unfolded tb tr] by (intro exI [of _ fresh]) auto
    with out False hash_frame_trans [OF fr3] show ?thesis by (auto simp: prefix_outcome_def)
  qed
qed

lemma prefix_loop_outcome:
  "alloc_inv {#} s \<Longrightarrow> 0 < kv_block_size s \<Longrightarrow> 0 \<le> reused \<Longrightarrow>
     prefix_loop k b seq toks mr 0 parent reuse_open reused s = (r, s') \<Longrightarrow>
     prefix_outcome seq k (if reuse_open \<and> prefix_caching_enabled s
       then live_hits k b (nat (kv_block_size s)) toks mr (live_ids s) parent else []) reused s r s'"
proof (induction k arbitrary: b parent reuse_open reused s)
  case 0
  then show ?case by (auto simp: prefix_outcome_def)
next
  case (Suc k)
  let ?n = "nat (kv_block_size s)"
  let ?bt = "block_tokens ?n toks b"
  let ?full = "length ?bt = ?n"
  let ?h = "compute_block_hash ?bt parent"
  let ?reuse = "reuse_open \<and> \<not> (0 \<le> mr \<and> mr \<le> int b)"
  let ?hits = "if reuse_open \<and> prefix_caching_enabled s
    then live_hits (Suc k) b ?n toks mr (live_ids s) parent else []"
  have fresh_step: "prefix_outcome seq (Suc k) [] reused s r s'"
    if a: "allocate_block_ref_with_eviction s1 = (c, s2)" and i1: "alloc_inv {#} s1" "alloc_frame s s1"
      and run: "(r, s') = (if c < 0 then (-1, rollback_partial_allocation seq 0 s2)
        else prefix_loop k (Suc b) seq toks mr 0 pa opn reused
               (push_hash seq ha (push_ref seq c s2)))"
      and closed: "\<not> opn \<or> \<not> prefix_caching_enabled s \<or> \<not> ?full"
    for s1 s2 c pa opn ha
  proof -
    note o = allocate_ref_outcome [OF i1(1) a]
    have fr: "alloc_frame s s2" using o i1(2) alloc_frame_trans by (auto simp: alloc_outcome_def)
    show ?thesis
    proof (cases "c < 0")
      case True
      then have "alloc_inv {#} s2" using o by (auto simp: alloc_outcome_def split: if_splits)
      from prefix_outcome_fail [OF this table_hash_frame [OF alloc_table_frame [OF fr]]] run True
      show ?thesis by simp
    next
      case False
      then have c: "0 \<le> c" "alloc_inv {#c#} s2" "c \<notin># table_refs (seq_blocks s)"
        using o i1(2) by (auto simp: alloc_outcome_def alloc_frame_def split: if_splits)
      let ?s3 = "push_hash seq ha (push_ref seq c s2)"
      have f3: "hash_frame seq s ?s3"
        using hash_frame_trans [OF table_hash_frame [OF table_frame_trans [OF
              alloc_table_frame [OF fr] table_frame_push]] hash_frame_push_hash] .
      have "alloc_inv {#} ?s3" using alloc_inv_push [OF c(2,1)] by simp
      note ih = Suc.IH [OF this _ Suc.prems(3)]
      have e: "kv_block_size ?s3 = kv_block_size s"
        "prefix_caching_enabled ?s3 = prefix_caching_enabled s"
        using hash_frame_fields [OF f3] by simp_all
      have "prefix_loop k (Suc b) seq toks mr 0 pa opn reused ?s3 = (r, s')"
        using run False by simp
      from ih [OF _ this] closed live_hits_partial [OF block_tokens_partial] Suc.prems(2)
      have "prefix_outcome seq k [] reused ?s3 r s'" by (auto simp: e split: if_splits)
      from prefix_outcome_fresh [OF fr c(2,1,3) this] show ?thesis .
    qed
  qed
  show ?case
  proof (cases "prefix_caching_enabled s \<and> ?full")
    case False
    obtain c s2 where a: "allocate_block_ref_with_eviction s = (c, s2)" by fastforce
    have "?hits = []" using False by auto
    moreover have "prefix_outcome seq (Suc k) [] reused s r s'"
      by (rule fresh_step [OF a Suc.prems(1) alloc_frame_refl,
              where pa = "if ?full then ?h else parent" and ha = "if ?full then ?h else 0"
                and opn = ?reuse])
        (use Suc.prems(4) False a in \<open>auto simp: Let_def split: if_splits\<close>)
    ultimately show ?thesis by simp
  next
    case en: True
    obtain hit s1 where lk: "(if ?reuse then prefix_lookup ?h s else (None, s)) = (hit, s1)" by fastforce
    have ow: "own_with {#} s" using Suc.prems(1) by (simp add: alloc_inv_def)
    have hit: "hit = (if ?reuse then live_ids s ?h else None)"
      using lk prefix_lookup_live [OF ow] by (auto split: if_splits)
    have i1: "alloc_inv {#} s1" "alloc_frame s s1"
      using lk prefix_lookup_frame(1,2) [OF Suc.prems(1)] Suc.prems(1) by (auto split: if_splits)
    show ?thesis
    proof (cases hit)
      case None
      obtain c s2 where a: "allocate_block_ref_with_eviction s1 = (c, s2)" by fastforce
      have "?hits = []" using hit None en by (auto simp: Let_def)
      moreover have "prefix_outcome seq (Suc k) [] reused s r s'"
        by (rule fresh_step [OF a i1, where pa = ?h and ha = ?h and opn = False])
          (use Suc.prems(4) en lk None a in \<open>auto simp: Let_def split: if_splits\<close>)
      ultimately show ?thesis by simp
    next
      case (Some c)
      then have lv: "live_ids s ?h = Some c" and reuse: "?reuse" using hit by (auto split: if_splits)
      have s1: "s1 = s" using lk reuse Some
        by (auto simp: prefix_lookup_def split: option.splits if_splits)
      let ?s3 = "push_hash seq ?h (reuse_block seq c s)"
      have pos: "0 < refs_of (kv_pool s) c" using lv by (rule live_ids_Some)
      note u = reuse_block_inv [OF Suc.prems(1) pos refs_pos_in_ids [OF pos], of seq]
      have f3: "hash_frame seq s ?s3"
        using u hash_frame_trans [OF table_hash_frame hash_frame_push_hash] by blast
      have ids: "live_ids ?s3 = live_ids s" using u by (intro live_ids_cong) simp_all
      have i3: "alloc_inv {#} ?s3" using u by simp
      have run: "prefix_loop k (Suc b) seq toks mr 0 ?h True (reused + 1) ?s3 = (r, s')"
        using Suc.prems(4) en lk Some s1 reuse by (simp add: Let_def)
      have e: "kv_block_size ?s3 = kv_block_size s"
        "prefix_caching_enabled ?s3 = prefix_caching_enabled s"
        using hash_frame_fields [OF f3] by simp_all
      have "prefix_outcome seq k (live_hits k (Suc b) ?n toks mr (live_ids s) ?h)
          (reused + 1) ?s3 r s'"
        using Suc.IH [OF i3 _ _ run] Suc.prems(2,3) en by (simp only: e ids) simp
      from prefix_outcome_reuse [OF Suc.prems(1) lv this] show ?thesis
        using en reuse lv by (simp add: Let_def)
    qed
  qed
qed

end
