(* ===== verification/KV_Register.thy ===== *)
theory KV_Register
  imports KV_Prefix_Inv
begin

text \<open>
  The content-addressed prefix cache as a whole: what \<^verbatim>\<open>allocate_blocks_with_prefix\<close> returns,
  what \<^verbatim>\<open>register_block_hashes\<close> publishes, and the round trip from one sequence that
  registered its blocks to another that reuses them. The reference for both is the chain of
  block hashes of the token sequence.
\<close>

section \<open>Allocation with reuse\<close>

lemma hash_frame_set_table [simp]: "hash_frame seq s (set_table seq t s)"
  by (rule table_hash_frame) simp

lemma live_ids_set [simp]:
  "live_ids (set_hashes seq hs s) = live_ids s" "live_ids (set_table seq t s) = live_ids s"
  by (auto simp: live_ids_def set_hashes_def set_table_def fun_eq_iff split: option.splits)

lemma seq_blocks_set_hashes [simp]: "seq_blocks (set_hashes seq hs s) = seq_blocks s"
  by (simp add: set_hashes_def)

lemma blocks_for_exact: "0 < b \<Longrightarrow> blocks_for (n * b) b = n"
proof -
  assume "0 < b"
  then have "(n * b + b - 1) div b = n + (b - 1) div b"
    by (metis add_diff_eq div_mult_self3 add.commute less_irrefl)
  with \<open>0 < b\<close> show ?thesis by (simp add: blocks_for_def)
qed

definition reuse_ids :: "token list \<Rightarrow> int \<Rightarrow> hash \<Rightarrow> kv_mgr \<Rightarrow> int list" where
  "reuse_ids toks max_reuse salt s =
     (if prefix_caching_enabled s
      then live_hits (nat (blocks_for (int (length toks)) (kv_block_size s))) 0
             (nat (kv_block_size s)) toks max_reuse (live_ids s) salt
      else [])"

lemma allocate_with_prefix_outcome:
  assumes inv: "kv_inv s" and new: "table_of seq s = []" and ne: "toks \<noteq> []"
    and al: "allocate_blocks_with_prefix seq toks mr salt s = (r, s')"
  shows "kv_inv s' \<and> (\<forall>q. q \<noteq> seq \<longrightarrow> table_of q s' = table_of q s) \<and>
    (if r < 0 then r = -1 \<and> table_of seq s' = [] \<and>
       int (length (reuse_ids toks mr salt s)) < blocks_for (int (length toks)) (kv_block_size s)
     else r = int (length (reuse_ids toks mr salt s)) \<and>
       (\<exists>fresh. table_of seq s' = reuse_ids toks mr salt s @ fresh \<and>
          int (length (table_of seq s')) = blocks_for (int (length toks)) (kv_block_size s) \<and>
          distinct fresh \<and> (\<forall>c \<in> set fresh. 0 \<le> c \<and> c \<notin># table_refs (seq_blocks s))))"
proof -
  let ?k = "blocks_for (int (length toks)) (kv_block_size s)"
  let ?t0 = "set_table seq (table_of seq s) s"
  let ?s0 = "set_hashes seq (hashes_of seq ?t0) ?t0"
  obtain r1 s1 where l: "prefix_loop (nat ?k) 0 seq toks mr 0 salt True 0 ?s0 = (r1, s1)" by fastforce
  have bs: "0 < kv_block_size s" using inv by (simp add: kv_inv_def)
  have kp: "0 < ?k" using ne bs by (intro blocks_for_pos) simp_all
  have ai: "alloc_inv {#} ?s0"
    using alloc_inv_touch_entry [OF kv_inv_alloc_inv [OF inv]] by simp
  have f0: "hash_frame seq s ?s0"
    by (rule hash_frame_trans [OF hash_frame_set_table hash_frame_set_hashes])
  note e = hash_frame_fields [OF f0]
  have bs0: "0 < kv_block_size ?s0" unfolding e(1) by (rule bs)
  have d: "distinct (map fst (seq_blocks s))" using inv by (simp add: kv_inv_def own_with_def)
  have "prefix_outcome seq (nat ?k) (reuse_ids toks mr salt s) 0 ?s0 r1 s1"
    using prefix_loop_outcome [OF ai bs0 order_refl l]
    unfolding e(1,2) live_ids_set reuse_ids_def simp_thms .
  then have o: "alloc_inv {#} s1" "hash_frame seq ?s0 s1"
    "if r1 < 0 then r1 = -1 \<and> table_of seq s1 = [] \<and> length (reuse_ids toks mr salt s) < nat ?k
     else r1 = int (length (reuse_ids toks mr salt s)) \<and>
       (\<exists>fresh. table_of seq s1 = reuse_ids toks mr salt s @ fresh \<and>
          length (reuse_ids toks mr salt s @ fresh) = nat ?k \<and> distinct fresh \<and>
          (\<forall>c \<in> set fresh. 0 \<le> c \<and> c \<notin># table_refs (seq_blocks s)))"
    using new table_refs_touch_entry [OF d, of seq] by (auto simp: prefix_outcome_def)
  have f1: "hash_frame seq s s1" using f0 o(2) by (rule hash_frame_trans)
  have i1: "kv_inv s1" using kv_inv_hash_frame [OF inv f1 o(1)] .
  have "(r, s') = (r1, if r1 < 0 then s1 else track_lru seq s1)"
    unfolding al [symmetric] using new ne l by (simp add: allocate_blocks_with_prefix_def Let_def)
  then show ?thesis
    using o(3) i1 kv_inv_track_lru [OF i1] hash_frame_other [OF f1] kp
    by (auto split: if_splits)
qed

lemma allocate_with_prefix_inv:
  assumes inv: "kv_inv s"
  shows "kv_inv (snd (allocate_blocks_with_prefix seq toks mr salt s))"
proof (cases "toks = [] \<or> table_of seq s \<noteq> []")
  case False
  obtain r s' where "allocate_blocks_with_prefix seq toks mr salt s = (r, s')" by fastforce
  with allocate_with_prefix_outcome [OF inv _ _ this, THEN conjunct1] False show ?thesis by simp
next
  case True
  let ?s0 = "set_table seq (table_of seq s) s"
  have i0: "kv_inv ?s0"
    using kv_inv_table_frame [OF inv table_frame_set_table
        alloc_inv_touch_entry [OF kv_inv_alloc_inv [OF inv]]] .
  have "kv_inv (snd (allocate_blocks seq n ?s0))" for n
    by (rule allocate_blocks_outcome [OF i0 prod.collapse [symmetric], THEN conjunct1])
  then have "kv_inv (snd (case allocate_blocks seq n ?s0 of (ok, s1) \<Rightarrow> (if ok then 0 else -1 :: int, s1)))"
    for n by (simp add: case_prod_unfold)
  with True inv i0 show ?thesis by (auto simp: allocate_blocks_with_prefix_def Let_def)
qed

section \<open>The chain of hashes\<close>

primrec hash_chain :: "nat \<Rightarrow> nat \<Rightarrow> nat \<Rightarrow> token list \<Rightarrow> hash \<Rightarrow> hash list" where
  "hash_chain 0 b n toks parent = []"
| "hash_chain (Suc k) b n toks parent =
     (if length (block_tokens n toks b) < n then []
      else let h = compute_block_hash (block_tokens n toks b) parent
           in h # hash_chain k (Suc b) n toks h)"

lemma length_block_tokens: "length (block_tokens n toks b) = min n (length toks - b * n)"
  by (simp add: block_tokens_def)

lemma length_hash_chain:
  "0 < n \<Longrightarrow> length (hash_chain k b n toks parent) = min k (length toks div n - b)"
proof (induction k arbitrary: b parent)
  case (Suc k)
  have "length (block_tokens n toks b) < n \<longleftrightarrow> length toks div n \<le> b"
  proof -
    have "length toks div n \<le> b \<longleftrightarrow> length toks < Suc b * n"
      using Suc.prems by (metis less_Suc_eq_le div_less_iff_less_mult)
    with Suc.prems show ?thesis by (auto simp: length_block_tokens)
  qed
  with Suc show ?case by (auto simp: Let_def)
qed simp


lemma hash_chain_more:
  "length toks div n \<le> b + k \<Longrightarrow> 0 < n \<Longrightarrow>
     hash_chain (k + j) b n toks parent = hash_chain k b n toks parent"
proof (induction k arbitrary: b parent)
  case 0
  then show ?case using length_hash_chain [of n j b toks parent] by simp
qed (simp add: Let_def)

text \<open>
  The multiplier is odd, so one round of the hash is a bijection of the running value: blocks
  with the same tokens have the same hash only if their parents have.
\<close>

lemma xor_cancel_right:
  fixes a b c :: u64
  shows "a XOR c = b XOR c \<longleftrightarrow> a = b"
  by (auto simp: bit_eq_iff bit_simps)

lemma fnv_prime_cancel:
  fixes a b :: u64
  assumes "a * 0x100000001b3 = b * 0x100000001b3"
  shows "a = b"
proof -
  have one: "(0x100000001b3 * 0xce965057aff6957b :: u64) = 1" by simp
  have "(x * 0x100000001b3) * 0xce965057aff6957b = x" for x :: u64
    by (simp only: mult.assoc one mult_1_right)
  with assms show ?thesis by metis
qed

lemma fold_hash_inj:
  "fold (\<lambda>tok h. (h XOR ucast tok) * 0x100000001b3) toks a =
     fold (\<lambda>tok h. (h XOR ucast tok) * 0x100000001b3) toks (b :: u64) \<Longrightarrow> a = b"
proof (induction toks arbitrary: a b)
  case (Cons t toks)
  from Cons.IH [OF Cons.prems [unfolded fold_simps]] have "a XOR ucast t = b XOR ucast t"
    by (rule fnv_prime_cancel)
  then show ?case by (simp only: xor_cancel_right)
qed simp

lemma compute_block_hash_parent_inj:
  "compute_block_hash toks p = compute_block_hash toks q \<longleftrightarrow> p = q"
proof
  assume "compute_block_hash toks p = compute_block_hash toks q"
  then have "p XOR 0xcbf29ce484222325 = q XOR 0xcbf29ce484222325"
    unfolding compute_block_hash_def by (rule fold_hash_inj)
  then show "p = q" by (simp only: xor_cancel_right)
qed simp

text \<open>\<^verbatim>\<open>longest_cached_prefix_blocks\<close> returns the chain and the length of its longest known prefix.\<close>

lemma longest_loop_eq:
  assumes "0 < n" "b + k \<le> length toks div n"
  shows "longest_loop k b n toks ids parent intact c acc =
    (if intact \<and> takeWhile (\<lambda>h. ids h \<noteq> None) (hash_chain k b n toks parent) \<noteq> []
     then int b + int (length (takeWhile (\<lambda>h. ids h \<noteq> None) (hash_chain k b n toks parent))) else c,
     acc @ hash_chain k b n toks parent)"
  using assms
proof (induction k arbitrary: b parent intact c acc)
  case (Suc k)
  have "Suc b * n \<le> length toks"
    using Suc.prems less_eq_div_iff_mult_less_eq [of n "Suc b" "length toks"] by simp
  then have "\<not> length (block_tokens n toks b) < n" by (auto simp: length_block_tokens)
  with Suc show ?case by (auto simp: Let_def)
qed simp

lemma longest_cached_prefix_eq:
  assumes "0 < kv_block_size s"
  shows "longest_cached_prefix_blocks toks salt s =
    (let n = nat (kv_block_size s); ch = hash_chain (length toks div n) 0 n toks salt
     in (int (length (takeWhile (\<lambda>h. block_hash_to_id s h \<noteq> None) ch)), ch))"
  using longest_loop_eq [of "nat (kv_block_size s)" 0 "length toks div nat (kv_block_size s)" toks] assms
  by (simp add: longest_cached_prefix_blocks_def Let_def)

section \<open>Registration\<close>

text \<open>Publishing the pairs of a list: an entry that exists is kept.\<close>

definition publish :: "hash \<times> int \<Rightarrow> (hash \<rightharpoonup> int) \<Rightarrow> (hash \<rightharpoonup> int)" where
  "publish e m = (if m (fst e) = None then m(fst e \<mapsto> snd e) else m)"

lemma publish_known: "m h = Some b \<Longrightarrow> publish e m h = Some b"
  by (auto simp: publish_def)

lemma publish_new: "m h = None \<Longrightarrow> publish (h, b) m h = Some b"
  by (simp add: publish_def)

lemma fold_publish_known: "m h = Some b \<Longrightarrow> fold publish es m h = Some b"
  by (induction es arbitrary: m) (simp_all add: publish_known)

lemma fold_publish_dom: "dom (fold publish es m) = dom m \<union> fst ` set es"
  by (induction es arbitrary: m) (auto simp: publish_def)

lemma fold_publish_zip:
  assumes "distinct hs" "\<forall>h \<in> set hs. m h = None" "i < length hs" "length bs = length hs"
  shows "fold publish (zip hs bs) m (hs ! i) = Some (bs ! i)"
  using assms
proof (induction hs arbitrary: bs m i)
  case (Cons h hs)
  then obtain b bs' where bs: "bs = b # bs'" by (cases bs) simp_all
  show ?case
  proof (cases i)
    case 0
    then show ?thesis using Cons.prems bs
      by (simp add: publish_new fold_publish_known)
  next
    case (Suc j)
    have "\<forall>g \<in> set hs. (publish (h, b) m) g = None"
      using Cons.prems by (auto simp: publish_def)
    with Suc Cons.prems bs Cons.IH [of "publish (h, b) m" j bs'] show ?thesis by simp
  qed
qed simp

lemma put_hash_simps [simp]:
  "block_hash_to_id (put_hash h b s) = publish (h, b) (block_hash_to_id s)"
  "table_of q (put_hash h b s) = table_of q s" "kv_pool (put_hash h b s) = kv_pool s"
  "hashes_of q (put_hash h b s) = hashes_of q s" "kv_block_size (put_hash h b s) = kv_block_size s"
  "prefix_caching_enabled (put_hash h b s) = prefix_caching_enabled s"
  by (simp_all add: put_hash_def publish_def table_of_def hashes_of_def)

lemma set_hashes_simps [simp]:
  "block_hash_to_id (set_hashes seq hs s) = block_hash_to_id s"
  "kv_pool (set_hashes seq hs s) = kv_pool s"
  "hashes_of seq (set_hashes seq hs s) = hs" "kv_block_size (set_hashes seq hs s) = kv_block_size s"
  "prefix_caching_enabled (set_hashes seq hs s) = prefix_caching_enabled s"
  by (simp_all add: set_hashes_def hashes_of_def)

text \<open>The hashes a sequence remembers agree with the chain of its tokens, or are not known yet.\<close>

definition chain_agrees :: "hash list \<Rightarrow> nat \<Rightarrow> hash list \<Rightarrow> bool" where
  "chain_agrees hs b ch \<longleftrightarrow> b \<le> length hs \<and>
     (\<forall>i < length ch. b + i < length hs \<longrightarrow> hs ! (b + i) = 0 \<or> hs ! (b + i) = ch ! i)"

lemma chain_agrees_step:
  assumes "chain_agrees hs b (h # ch)"
  shows "chain_agrees (if b < length hs then hs[b := h] else hs @ [h]) (Suc b) ch"
proof -
  have "hs ! (Suc b + i) = 0 \<or> hs ! (Suc b + i) = ch ! i"
    if "i < length ch" "Suc b + i < length hs" for i
    using assms that unfolding chain_agrees_def by (auto dest!: spec [of _ "Suc i"])
  with assms show ?thesis by (auto simp: chain_agrees_def)
qed

lemma register_loop_publishes:
  "chain_agrees (hashes_of seq s) b (hash_chain k b (nat (kv_block_size s)) toks parent) \<Longrightarrow>
     0 < kv_block_size s \<Longrightarrow>
     block_hash_to_id (register_loop k b seq toks parent s) =
       fold publish (zip (hash_chain k b (nat (kv_block_size s)) toks parent)
         (map (id_at (table_of seq s)) [b..<b + k])) (block_hash_to_id s)"
proof (induction k arbitrary: b parent s)
  case (Suc k)
  let ?n = "nat (kv_block_size s)"
  let ?bt = "block_tokens ?n toks b"
  let ?h = "compute_block_hash ?bt parent"
  let ?hs = "hashes_of seq s"
  show ?case
  proof (cases "length ?bt < ?n")
    case True
    then show ?thesis by (simp add: Let_def)
  next
    case False
    let ?hs' = "if b < length ?hs then ?hs[b := ?h] else ?hs @ [?h]"
    let ?s1 = "if b < length ?hs \<and> ?hs ! b \<noteq> 0 then s else set_hashes seq ?hs' s"
    have ag: "chain_agrees ?hs b (?h # hash_chain k (Suc b) ?n toks ?h)"
      using Suc.prems(1) False by (simp add: Let_def)
    then have known: "b < length ?hs \<Longrightarrow> ?hs ! b \<noteq> 0 \<Longrightarrow> ?hs ! b = ?h"
      by (auto simp: chain_agrees_def dest!: spec [of _ "0::nat"])
    then have hs1: "hashes_of seq ?s1 = ?hs'"
      by (auto simp: list_update_same_conv)
    have run: "register_loop (Suc k) b seq toks parent s =
        register_loop k (Suc b) seq toks ?h (put_hash ?h (id_at (table_of seq s) b) ?s1)"
      using False known by (auto simp: Let_def)
    have e: "kv_block_size ?s1 = kv_block_size s" "table_of seq ?s1 = table_of seq s"
      "block_hash_to_id ?s1 = block_hash_to_id s" by simp_all
    have up: "[b..<Suc (b + k)] = b # [Suc b..<Suc (b + k)]" by (simp add: upt_conv_Cons del: upt_Suc)
    show ?thesis
      unfolding run using Suc.IH [of "put_hash ?h (id_at (table_of seq s) b) ?s1" "Suc b" ?h]
        chain_agrees_step [OF ag] Suc.prems(2) False
      by (simp add: hs1 e Let_def up del: upt_Suc)
  qed
qed simp

text \<open>Registration touches the hash tables and the hashes of the sequence, nothing else.\<close>

lemma hash_inv_put_hash: "hash_inv s \<Longrightarrow> hash_inv (put_hash h b s)"
  by (auto simp: hash_inv_def put_hash_def)

lemma kv_inv_put_hash: "kv_inv s \<Longrightarrow> kv_inv (put_hash h b s)"
proof -
  assume "kv_inv s"
  moreover from this have "hash_inv (put_hash h b s)" by (simp add: kv_inv_def hash_inv_put_hash)
  moreover have "put_hash h b s = s\<lparr>block_hash_to_id := block_hash_to_id (put_hash h b s),
      block_id_to_hash := block_id_to_hash (put_hash h b s)\<rparr>" by (simp add: put_hash_def)
  moreover have "kv_inv s \<Longrightarrow> hash_inv s' \<Longrightarrow>
      s' = s\<lparr>block_hash_to_id := m, block_id_to_hash := n\<rparr> \<Longrightarrow> kv_inv s'" for s' m n
    by (simp add: kv_inv_def swa_inv_def pin_inv_def)
  ultimately show ?thesis by blast
qed

lemma kv_inv_set_hashes: "kv_inv s \<Longrightarrow> kv_inv (set_hashes seq hs s)"
  by (simp add: set_hashes_def kv_inv_irrelevant)

lemma register_loop_inv: "kv_inv s \<Longrightarrow> kv_inv (register_loop k b seq toks parent s)"
  by (induction k arbitrary: b parent s)
    (simp_all add: Let_def kv_inv_put_hash kv_inv_set_hashes)

lemma register_block_hashes_inv: "kv_inv s \<Longrightarrow> kv_inv (register_block_hashes seq toks salt s)"
  by (simp add: register_block_hashes_def register_loop_inv kv_inv_set_hashes split: option.split)

lemma register_loop_frame:
  "table_of q (register_loop k b seq toks parent s) = table_of q s"
  "kv_pool (register_loop k b seq toks parent s) = kv_pool s"
  "kv_block_size (register_loop k b seq toks parent s) = kv_block_size s"
  "prefix_caching_enabled (register_loop k b seq toks parent s) = prefix_caching_enabled s"
  by (induction k arbitrary: b parent s) (simp_all add: Let_def)

lemma register_frame [simp]:
  "table_of q (register_block_hashes seq toks salt s) = table_of q s"
  "kv_pool (register_block_hashes seq toks salt s) = kv_pool s"
  "kv_block_size (register_block_hashes seq toks salt s) = kv_block_size s"
  "prefix_caching_enabled (register_block_hashes seq toks salt s) = prefix_caching_enabled s"
  by (simp_all add: register_block_hashes_def register_loop_frame split: option.split)

lemma register_publishes:
  assumes "prefix_caching_enabled s" "0 < kv_block_size s" "map_of (seq_blocks s) seq = Some t"
    "chain_agrees (hashes_of seq s) 0 (hash_chain (length t) 0 (nat (kv_block_size s)) toks salt)"
  shows "block_hash_to_id (register_block_hashes seq toks salt s) =
    fold publish (zip (hash_chain (length t) 0 (nat (kv_block_size s)) toks salt)
      (map (id_at t) [0..<length t])) (block_hash_to_id s)"
proof -
  have "table_of seq s = t" using assms(3) by (simp add: table_of_def)
  with register_loop_publishes [of seq "set_hashes seq (hashes_of seq s) s" 0 "length t" toks salt]
    assms show ?thesis by (simp add: register_block_hashes_def)
qed

section \<open>From one sequence to the next\<close>

lemma block_tokens_full: "length (block_tokens n toks b) = n \<longleftrightarrow> \<not> length (block_tokens n toks b) < n"
  by (auto simp: length_block_tokens)

lemma live_hits_chain:
  "mr < 0 \<Longrightarrow> live_hits k b n toks mr ids parent =
     map (\<lambda>h. the (ids h)) (takeWhile (\<lambda>h. ids h \<noteq> None) (hash_chain k b n toks parent))"
  by (induction k arbitrary: b parent) (auto simp: Let_def block_tokens_full split: option.splits)

lemma live_hits_all:
  assumes "mr < 0" "length ch = length t" "ch = hash_chain k b n toks parent"
    "\<And>i. i < length t \<Longrightarrow> ids (ch ! i) = Some (t ! i)"
  shows "live_hits k b n toks mr ids parent = t"
proof -
  have "takeWhile (\<lambda>h. ids h \<noteq> None) ch = ch"
    using assms(2,4) by (auto simp: takeWhile_eq_all_conv in_set_conv_nth)
  then show ?thesis
    unfolding live_hits_chain [OF assms(1)] assms(3) [symmetric]
    using assms(2,4) by (simp only: list_eq_iff_nth_eq) simp
qed

lemma table_live_refs:
  assumes "kv_inv s" "map_of (seq_blocks s) seq = Some t" "b \<in> set t" "0 \<le> b"
  shows "0 < refs_of (kv_pool s) b"
proof -
  have o: "pool_owned (kv_pool s) (kv_refs s)" "distinct (map fst (seq_blocks s))"
    using assms(1) by (simp_all add: kv_inv_def own_with_def)
  have "b \<in># kv_refs s"
    using table_refs_delete [OF o(2) assms(2)] assms(3,4) by (auto simp: kv_refs_def live_def)
  with pool_ownedD(3) [OF o(1)] show ?thesis by blast
qed

lemma registered_reused:
  assumes inv: "kv_inv s" and en: "prefix_caching_enabled s"
    and t: "map_of (seq_blocks s) seq = Some t" "\<forall>b \<in> set t. 0 \<le> b" "t \<noteq> []"
    and toks: "length toks = length t * nat (kv_block_size s)"
    and ch: "ch = hash_chain (length t) 0 (nat (kv_block_size s)) toks salt"
    and ag: "chain_agrees (hashes_of seq s) 0 ch"
    and new: "distinct ch" "\<forall>h \<in> set ch. block_hash_to_id s h = None"
    and q: "table_of q s = []"
    and al: "allocate_blocks_with_prefix q toks (-1) salt (register_block_hashes seq toks salt s) = (r, s')"
  shows "r = int (length t) \<and> table_of q s' = t \<and> kv_inv s'"
proof -
  let ?n = "nat (kv_block_size s)"
  let ?s1 = "register_block_hashes seq toks salt s"
  have n: "0 < ?n" "0 < kv_block_size s" using inv by (simp_all add: kv_inv_def)
  have lc: "length ch = length t" unfolding ch length_hash_chain [OF n(1)] toks using n by simp
  have "block_hash_to_id ?s1 = fold publish (zip ch (map (id_at t) [0..<length t])) (block_hash_to_id s)"
    using register_publishes [OF en n(2) t(1)] ag ch by simp
  then have pub: "block_hash_to_id ?s1 (ch ! i) = Some (t ! i)" if "i < length t" for i
    using fold_publish_zip [OF new, of i "map (id_at t) [0..<length t]"] that lc t(2)
    by (simp add: id_at_def)
  have ids: "live_ids ?s1 (ch ! i) = Some (t ! i)" if "i < length t" for i
    using pub [OF that] table_live_refs [OF inv t(1), of "t ! i"] that t(2)
    by (simp add: live_ids_def)
  have nb: "blocks_for (int (length toks)) (kv_block_size s) = int (length t)"
    using n unfolding toks by (simp add: blocks_for_exact)
  have all: "reuse_ids toks (-1) salt ?s1 = t"
    using live_hits_all [OF _ lc ch ids] en by (simp add: reuse_ids_def nb)
  have "toks \<noteq> []" using toks t(3) n by auto
  from allocate_with_prefix_outcome [OF register_block_hashes_inv [OF inv] _ this al] q all nb
  show ?thesis by (auto split: if_splits)
qed

end
