(* ===== verification/KV_Swa.thy ===== *)
theory KV_Swa
  imports KV_Register
begin

text \<open>
  Sliding-window sizing of \<^verbatim>\<open>KVCacheManager\<close>: \<^verbatim>\<open>enable_swa_sizing\<close>, \<^verbatim>\<open>swa_prepare\<close>,
  \<^verbatim>\<open>swa_trim\<close> and \<^verbatim>\<open>swa_first_live_block\<close>. The second table of a sequence runs parallel to
  its global one and holds physical blocks only for the trailing window. The lemmas say which
  token positions stay backed by a block across prepare, trim and rollback, and that the pool
  of the group stays exactly accounted for.
\<close>

section \<open>Operations\<close>

definition enable_swa_sizing :: "int \<Rightarrow> int \<Rightarrow> kv_mgr \<Rightarrow> kv_mgr" where
  "enable_swa_sizing window_tokens slack_tokens s =
     (if \<not> swa_enabled s \<or> window_tokens \<le> 0 then s
      else s\<lparr>swa_window := window_tokens, swa_slack := max slack_tokens (kv_block_size s)\<rparr>)"

definition set_swa :: "int \<Rightarrow> int list \<Rightarrow> kv_mgr \<Rightarrow> kv_mgr" where
  "set_swa seq t s = s\<lparr>seq_swa_blocks := AList.update seq t (seq_swa_blocks s)\<rparr>"

definition pad_holes :: "nat \<Rightarrow> int list \<Rightarrow> int list" where
  "pad_holes n t = (if length t < n then t @ replicate (n - length t) (-1) else t)"

text \<open>The filling loop, from block \<open>b\<close>, with the number of rounds left; blocks are taken for holes.\<close>

primrec swa_fill :: "nat \<Rightarrow> nat \<Rightarrow> int \<Rightarrow> kv_mgr \<Rightarrow> bool \<times> kv_mgr" where
  "swa_fill 0 b seq s = (True, s)"
| "swa_fill (Suc k) b seq s =
     (if 0 \<le> swa_block_table seq s ! b then swa_fill k (Suc b) seq s
      else case allocate_swa_block s of (c, s1) \<Rightarrow>
        if c < 0 then (False, s1)
        else swa_fill k (Suc b) seq (set_swa seq ((swa_block_table seq s1)[b := c]) s1))"

definition swa_first_live_block :: "int \<Rightarrow> kv_mgr \<Rightarrow> int" where
  "swa_first_live_block upto_tokens s =
     (let dead = upto_tokens - swa_window s - swa_slack s
      in if 0 < dead then dead div kv_block_size s else 0)"

definition swa_prepare :: "int \<Rightarrow> int \<Rightarrow> int \<Rightarrow> kv_mgr \<Rightarrow> bool \<times> kv_mgr" where
  "swa_prepare seq from_tokens upto_tokens s =
     (if swa_window s \<le> 0 \<or> upto_tokens \<le> 0 then (True, s)
      else case map_of (seq_blocks s) seq of
        None \<Rightarrow> (True, s)
      | Some g \<Rightarrow>
          let bs = kv_block_size s;
              t = pad_holes (length g) (swa_block_table seq s);
              live_start_tok = min from_tokens upto_tokens - swa_window s - swa_slack s;
              first_live = (if 0 < live_start_tok then live_start_tok div bs else 0);
              end_block = min ((upto_tokens + bs - 1) div bs) (int (length t))
          in swa_fill (nat (end_block - first_live)) (nat first_live) seq (set_swa seq t s))"

definition trim_slot :: "int \<Rightarrow> nat \<Rightarrow> kv_mgr \<Rightarrow> kv_mgr" where
  "trim_slot seq b s =
     (let t = swa_block_table seq s in
      if 0 \<le> t ! b then set_swa seq (t[b := -1]) (free_swa_block (t ! b) s) else s)"

definition swa_trim :: "int \<Rightarrow> int \<Rightarrow> kv_mgr \<Rightarrow> kv_mgr" where
  "swa_trim seq committed_tokens s =
     (if swa_window s \<le> 0 then s
      else case map_of (seq_swa_blocks s) seq of
        None \<Rightarrow> s
      | Some t \<Rightarrow>
          let dead_end_tok = committed_tokens - swa_window s - swa_slack s in
          if dead_end_tok \<le> 0 then s
          else
            let dead_blocks = min (dead_end_tok div kv_block_size s) (int (length t));
                cursor = (case swa_trim_cursor s seq of None \<Rightarrow> 0 | Some c \<Rightarrow> c);
                s1 = fold (trim_slot seq) [nat cursor..<nat dead_blocks] s
            in s1\<lparr>swa_trim_cursor := (swa_trim_cursor s1)(seq \<mapsto> max cursor dead_blocks)\<rparr>)"

section \<open>Frame and accounting\<close>

definition swa_frame :: "kv_mgr \<Rightarrow> kv_mgr \<Rightarrow> bool" where
  "swa_frame s s' \<longleftrightarrow> s' = s\<lparr>kv_swa_pool := kv_swa_pool s', seq_swa_blocks := seq_swa_blocks s',
     swa_trim_cursor := swa_trim_cursor s'\<rparr> \<and>
     block_ids (kv_swa_pool s') = block_ids (kv_swa_pool s)"

lemma swa_frame_refl [simp]: "swa_frame s s"
  by (simp add: swa_frame_def)

lemma swa_frame_trans: "swa_frame s t \<Longrightarrow> swa_frame t u \<Longrightarrow> swa_frame s u"
  unfolding swa_frame_def by (cases s, cases t, cases u) simp

lemma block_ids_release [simp]: "block_ids (release_raw b p) = block_ids p"
  by (simp add: release_raw_def dec_ref_impl_def block_ids_def Let_def)

lemma swa_frame_steps [simp]:
  "swa_frame s (set_swa seq t s)" "swa_frame s (free_swa_block b s)"
  "block_ids p = block_ids (kv_swa_pool s) \<Longrightarrow> swa_frame s (s\<lparr>kv_swa_pool := p\<rparr>)"
  "swa_frame s (s\<lparr>swa_trim_cursor := c\<rparr>)"
  by (simp_all add: swa_frame_def set_swa_def free_swa_block_def)

lemma kv_inv_swa_frame: "kv_inv s \<Longrightarrow> swa_frame s s' \<Longrightarrow> swa_inv s' \<Longrightarrow> kv_inv s'"
  unfolding swa_frame_def
  by (cases s, cases s')
    (simp add: kv_inv_def own_with_def kv_refs_def cache_inv_def hash_inv_def pin_inv_def)

lemma swa_frame_fields:
  assumes "swa_frame s s'"
  shows "swa_window s' = swa_window s" "swa_slack s' = swa_slack s"
    "kv_block_size s' = kv_block_size s" "seq_blocks s' = seq_blocks s"
  using assms unfolding swa_frame_def by (cases s, cases s', simp)+

lemma swa_table_set_swa [simp]:
  "swa_block_table q (set_swa seq t s) = (if q = seq then t else swa_block_table q s)"
  by (simp add: swa_block_table_def set_swa_def)

lemma swa_fields [simp]:
  "kv_swa_pool (set_swa seq t s) = kv_swa_pool s"
  "swa_block_table q (s\<lparr>kv_swa_pool := p\<rparr>) = swa_block_table q s"
  "swa_block_table q (s\<lparr>swa_trim_cursor := c\<rparr>) = swa_block_table q s"
  "swa_block_table q (free_swa_block b s) = swa_block_table q s"
  by (simp_all add: set_swa_def swa_block_table_def free_swa_block_def)

text \<open>
  The accounting of the group: the invariant, and no block in two slots, while an operation
  holds the blocks \<open>X\<close>.
\<close>

definition swa_own :: "int multiset \<Rightarrow> kv_mgr \<Rightarrow> bool" where
  "swa_own X s \<longleftrightarrow> distinct (map fst (seq_swa_blocks s)) \<and>
     pool_owned (kv_swa_pool s) (table_refs (seq_swa_blocks s) + X) \<and>
     (\<forall>b. count (table_refs (seq_swa_blocks s) + X) b \<le> 1)"

definition swa_solo :: "kv_mgr \<Rightarrow> bool" where
  "swa_solo s \<longleftrightarrow> (\<forall>b. count (table_refs (seq_swa_blocks s)) b \<le> 1)"

lemma swa_own_iff: "swa_own {#} s \<longleftrightarrow> swa_inv s \<and> swa_solo s"
  by (auto simp: swa_own_def swa_inv_def swa_solo_def)

lemma swa_refs_set_swa:
  assumes "distinct (map fst (seq_swa_blocks s))"
  shows "table_refs (seq_swa_blocks (set_swa seq t s)) + mset (live (swa_block_table seq s)) =
    table_refs (seq_swa_blocks s) + mset (live t)"
proof (cases "map_of (seq_swa_blocks s) seq")
  case None
  with assms show ?thesis
    by (simp add: set_swa_def table_refs_update swa_block_table_def alist_delete_None)
next
  case (Some u)
  with assms table_refs_delete [OF assms Some] show ?thesis
    by (simp add: set_swa_def table_refs_update swa_block_table_def)
qed

lemma swa_own_set_swa:
  assumes "swa_own X s" "mset (live t) + Y = mset (live (swa_block_table seq s)) + X"
  shows "swa_own Y (set_swa seq t s)"
proof -
  let ?R = "table_refs (seq_swa_blocks s)" and ?R' = "table_refs (seq_swa_blocks (set_swa seq t s))"
  have d: "distinct (map fst (seq_swa_blocks s))" using assms(1) by (simp add: swa_own_def)
  have "?R' + Y + (mset (live (swa_block_table seq s)) + X) = ?R + X + (mset (live t) + Y)"
    using swa_refs_set_swa [OF d, of seq t] by (simp add: ac_simps)
  then have "?R' + Y = ?R + X" unfolding assms(2) by (rule add_right_imp_eq)
  with assms(1) show ?thesis by (simp add: swa_own_def) (simp add: set_swa_def)
qed

lemma swa_acquire_cases:
  assumes "swa_own X s" "allocate_swa_block s = (c, s1)"
  obtains (got) p where "0 \<le> c" "swa_own (add_mset c X) s1" "s1 = s\<lparr>kv_swa_pool := p\<rparr>"
      "free_blocks (kv_swa_pool s) = Suc (free_blocks p)" "block_ids p = block_ids (kv_swa_pool s)"
    | (empty) "c = -1" "s1 = s" "free_blocks (kv_swa_pool s) = 0"
proof -
  let ?R = "table_refs (seq_swa_blocks s) + X"
  have own: "pool_owned (kv_swa_pool s) ?R" using assms(1) by (simp add: swa_own_def)
  obtain b p where p: "pool_acquire (kv_swa_pool s) = (b, p)" by fastforce
  show thesis
  proof (cases "free_blocks (kv_swa_pool s) = 0")
    case True
    then show thesis using assms(2) pool_acquire_empty [OF True]
      by (intro empty) (simp_all add: allocate_swa_block_def)
  next
    case False
    then have q: "pool_owned p (add_mset b ?R)" "b \<notin># ?R" "0 \<le> b"
      "block_ids p = block_ids (kv_swa_pool s)"
      using pool_owned_acquire [OF own _ p] by auto
    have fb: "free_blocks (kv_swa_pool s) = Suc (free_blocks p)"
      using p False by (auto simp: pool_acquire_def free_blocks_def Let_def split: if_splits)
    have e: "c = b" "s1 = s\<lparr>kv_swa_pool := p\<rparr>"
      using assms(2) p q(3) by (simp_all add: allocate_swa_block_def)
    have "swa_own (add_mset c X) s1"
      using assms(1) q by (auto simp: swa_own_def e count_eq_zero_iff)
    with e q(3,4) fb show thesis by (intro got [of p]) simp_all
  qed
qed

lemma swa_own_free:
  assumes "swa_own (add_mset b X) s" "0 \<le> b"
  shows "swa_own X (free_swa_block b s)"
proof -
  have "pool_owned (kv_swa_pool s) (add_mset b (table_refs (seq_swa_blocks s) + X))"
    using assms(1) by (simp add: swa_own_def)
  note own = pool_owned_release(1) [OF this]
  have "count (table_refs (seq_swa_blocks s) + X) c \<le> 1" for c
  proof -
    have "count (table_refs (seq_swa_blocks s) + X) c \<le>
        count (table_refs (seq_swa_blocks s) + add_mset b X) c" by simp
    also have "\<dots> \<le> 1" using assms(1) unfolding swa_own_def by blast
    finally show ?thesis .
  qed
  with own assms show ?thesis
    by (simp add: swa_own_def free_swa_block_def release_raw_eq ref_reset_def)
qed

section \<open>Filling\<close>

text \<open>The holes a run of the loop would fill.\<close>

definition holes :: "nat \<Rightarrow> nat \<Rightarrow> int list \<Rightarrow> nat" where
  "holes k b t = length (filter (\<lambda>i. t ! i < 0) [b..<b + k])"

lemma holes_Suc: "holes (Suc k) b t = (if t ! b < 0 then 1 else 0) + holes k (Suc b) t"
  by (simp add: holes_def upt_conv_Cons del: upt_Suc)

lemma holes_update: "i < b \<Longrightarrow> holes k b (t[i := c]) = holes k b t"
  unfolding holes_def by (intro arg_cong [where f = length] filter_cong) auto

lemma live_fill_hole:
  assumes "i < length t" "t ! i < 0" "0 \<le> c"
  shows "mset (live (t[i := c])) = add_mset c (mset (live t))"
proof -
  have "(t[i := c])[i := -1] = t[i := -1]" by simp
  moreover have "live (t[i := -1]) = live t"
  proof -
    have "t = take i t @ t ! i # drop (Suc i) t" using assms(1) by (rule id_take_nth_drop)
    moreover have "t[i := -1] = take i t @ (-1) # drop (Suc i) t"
      using assms(1) by (rule upd_conv_take_nth_drop)
    ultimately show ?thesis using assms(2) by (metis live_simps(2,4) neg_less_0_iff_less zero_less_one)
  qed
  ultimately show ?thesis using live_update_hole [of i "t[i := c]"] assms by simp
qed

lemma swa_fill_outcome:
  "swa_own {#} s \<Longrightarrow> t = swa_block_table seq s \<Longrightarrow> (0 < k \<longrightarrow> b + k \<le> length t) \<Longrightarrow>
     swa_fill k b seq s = (ok, s') \<Longrightarrow>
     swa_own {#} s' \<and> swa_frame s s' \<and> (\<forall>q. q \<noteq> seq \<longrightarrow> swa_block_table q s' = swa_block_table q s) \<and>
     length (swa_block_table seq s') = length t \<and>
     (\<forall>i. 0 \<le> t ! i \<or> i < b \<or> b + k \<le> i \<longrightarrow> swa_block_table seq s' ! i = t ! i) \<and>
     ok = (holes k b t \<le> free_blocks (kv_swa_pool s)) \<and>
     (ok \<longrightarrow> (\<forall>i. b \<le> i \<and> i < b + k \<longrightarrow> 0 \<le> swa_block_table seq s' ! i))"
proof (induction k arbitrary: b s t)
  case 0
  then show ?case by (simp add: holes_def)
next
  case (Suc k)
  show ?case
  proof (cases "0 \<le> t ! b")
    case True
    then have "swa_fill k (Suc b) seq s = (ok, s')" using Suc.prems by simp
    with Suc.IH [OF Suc.prems(1,2) _ this] Suc.prems(3) True show ?thesis
      by (auto simp: holes_Suc) (metis Suc_leI le_eq_less_or_eq)+
  next
    case False
    obtain c s1 where a: "allocate_swa_block s = (c, s1)" by fastforce
    from Suc.prems(1) a show ?thesis
    proof (cases rule: swa_acquire_cases)
      case empty
      then have "s' = s" "\<not> ok" using Suc.prems False a by auto
      with empty Suc.prems(1,2) False show ?thesis by (simp add: holes_Suc)
    next
      case (got p)
      let ?t1 = "t[b := c]"
      let ?s2 = "set_swa seq ?t1 s1"
      have b: "b < length t" using Suc.prems(3) by simp
      have tb: "swa_block_table seq s1 = t" using got(3) Suc.prems(2) by simp
      have "swa_own {#} ?s2"
        using got(2) live_fill_hole [OF b _ got(1)] False
        by (intro swa_own_set_swa [where X = "{#c#}"]) (simp_all add: tb)
      moreover have "swa_fill k (Suc b) seq ?s2 = (ok, s')"
        using Suc.prems False a got(1) tb by simp
      moreover have "0 < k \<longrightarrow> Suc b + k \<le> length ?t1" using Suc.prems(3) by simp
      moreover have "swa_frame s ?s2" using got(3,5) swa_frame_trans swa_frame_steps by metis
      moreover have "holes k (Suc b) ?t1 = holes k (Suc b) t" by (simp add: holes_update)
      ultimately show ?thesis
        using Suc.IH [of ?s2 ?t1 "Suc b"] got(1,3,4) False b swa_frame_trans [of s ?s2 s']
        by (auto simp: holes_Suc nth_list_update) (metis Suc_leI le_eq_less_or_eq)+
    qed
  qed
qed

section \<open>Token positions\<close>

text \<open>The block that backs a token position, \<open>-1\<close> for none.\<close>

definition backing :: "int \<Rightarrow> int \<Rightarrow> kv_mgr \<Rightarrow> int" where
  "backing seq pos s = id_at (swa_block_table seq s) (nat (pos div kv_block_size s))"

lemma live_pad_holes: "live (pad_holes n t) = live t"
  by (simp add: pad_holes_def live_def)

lemma id_at_pad_holes: "id_at (pad_holes n t) i = id_at t i"
  by (auto simp: id_at_def pad_holes_def nth_append)

lemma int_div_less_iff: "0 < b \<Longrightarrow> p div b < n \<longleftrightarrow> p < n * b" for p b n :: int
proof -
  assume b: "0 < b"
  have "n \<le> p div b \<longleftrightarrow> n * b \<le> p"
  proof
    assume "n \<le> p div b"
    then have "n * b \<le> p div b * b" using b by (intro mult_right_mono) simp_all
    also have "\<dots> \<le> p" using b by (simp add: minus_mod_eq_div_mult [symmetric])
    finally show "n * b \<le> p" .
  next
    assume "n * b \<le> p"
    then have "n * b div b \<le> p div b" using b by (rule zdiv_mono1)
    then show "n \<le> p div b" using b by simp
  qed
  then show ?thesis by linarith
qed

lemma div_le_blocks_for: "0 < b \<Longrightarrow> p < n \<Longrightarrow> p div b < blocks_for n b" for p b n :: int
proof -
  assume "0 < b" "p < n"
  then have "p div b \<le> (n - 1) div b" by (intro zdiv_mono1) simp_all
  also have "\<dots> < (n - 1) div b + 1" by simp
  also have "\<dots> = blocks_for n b"
    using \<open>0 < b\<close> unfolding blocks_for_def
    by (metis add.commute add_diff_eq div_add_self2 diff_add_eq order_less_irrefl)
  finally show ?thesis .
qed

lemma swa_prepare_outcome:
  assumes inv: "kv_inv s" and solo: "swa_solo s" and run: "swa_prepare seq fr up s = (ok, s')"
  shows "kv_inv s' \<and> swa_solo s' \<and> swa_frame s s' \<and>
    (\<forall>q. q \<noteq> seq \<longrightarrow> swa_block_table q s' = swa_block_table q s) \<and>
    (\<forall>p. 0 \<le> backing seq p s \<longrightarrow> backing seq p s' = backing seq p s) \<and>
    (ok \<and> 0 < swa_window s \<and> up \<le> kv_block_size s * int (length (table_of seq s)) \<longrightarrow>
       (\<forall>p. 0 \<le> p \<and> min fr up - swa_window s - swa_slack s \<le> p \<and> p < up \<longrightarrow>
          0 \<le> backing seq p s'))"
proof (cases "0 < swa_window s \<and> 0 < up \<and> map_of (seq_blocks s) seq \<noteq> None")
  case False
  then have "s' = s" using run by (auto simp: swa_prepare_def split: if_splits option.splits)
  moreover have "up \<le> kv_block_size s * int (length (table_of seq s)) \<Longrightarrow> 0 < swa_window s \<Longrightarrow>
      \<not> (0 \<le> p \<and> p < up)" for p
    using False by (auto simp: table_of_def)
  ultimately show ?thesis using inv solo by auto
next
  case True
  then obtain g where g: "map_of (seq_blocks s) seq = Some g" by auto
  let ?bs = "kv_block_size s"
  define t where "t = pad_holes (length g) (swa_block_table seq s)"
  define ls where "ls = min fr up - swa_window s - swa_slack s"
  define b0 where "b0 = (if 0 < ls then ls div ?bs else 0)"
  define b1 where "b1 = min ((up + ?bs - 1) div ?bs) (int (length t))"
  let ?s1 = "set_swa seq t s"
  have bs: "0 < ?bs" using inv by (simp add: kv_inv_def)
  have tb: "table_of seq s = g" using g by (simp add: table_of_def)
  have own: "swa_own {#} ?s1"
    using inv solo by (intro swa_own_set_swa [where X = "{#}"])
      (simp_all add: swa_own_iff kv_inv_def live_pad_holes t_def)
  have fill: "swa_fill (nat (b1 - b0)) (nat b0) seq ?s1 = (ok, s')"
    using run True g unfolding swa_prepare_def t_def b0_def b1_def ls_def Let_def by simp
  have f0: "0 \<le> b0" using bs by (simp add: b0_def pos_imp_zdiv_nonneg_iff)
  have b1: "b1 \<le> int (length t)" by (simp add: b1_def)
  have "0 < nat (b1 - b0) \<longrightarrow> nat b0 + nat (b1 - b0) \<le> length (swa_block_table seq ?s1)"
    using b1 f0 by simp linarith
  from swa_fill_outcome [OF own refl this fill]
  have o: "swa_own {#} s'" "swa_frame ?s1 s'"
    "\<forall>q. q \<noteq> seq \<longrightarrow> swa_block_table q s' = swa_block_table q s"
    "length (swa_block_table seq s') = length t"
    "\<forall>i. 0 \<le> t ! i \<longrightarrow> swa_block_table seq s' ! i = t ! i"
    "ok \<longrightarrow> (\<forall>i. nat b0 \<le> i \<and> i < nat b0 + nat (b1 - b0) \<longrightarrow> 0 \<le> swa_block_table seq s' ! i)"
    by simp_all
  have fr: "swa_frame s s'" using swa_frame_trans [OF swa_frame_steps(1) o(2)] .
  have b: "kv_block_size s' = ?bs" using swa_frame_fields(3) [OF fr] .
  have bk: "backing seq p s = id_at t (nat (p div ?bs))" for p
    by (simp add: backing_def t_def id_at_pad_holes)
  have keep: "backing seq p s' = backing seq p s" if "0 \<le> backing seq p s" for p
    using that o(4,5) unfolding bk by (auto simp: backing_def b id_at_def split: if_splits)
  have cover: "0 \<le> backing seq p s'"
    if "ok" "up \<le> ?bs * int (length g)" "0 \<le> p" "ls \<le> p" "p < up" for p
  proof -
    define i where "i = p div ?bs"
    have "p < ?bs * int (length g)" using that by linarith
    then have "i < int (length g)" using bs by (simp add: int_div_less_iff mult.commute i_def)
    moreover have "length g \<le> length t" by (simp add: t_def pad_holes_def)
    moreover have "i < blocks_for up ?bs" using div_le_blocks_for [OF bs that(5)] by (simp add: i_def)
    ultimately have "i < b1" by (simp add: b1_def blocks_for_def)
    moreover have "b0 \<le> i"
      using that bs by (simp add: b0_def i_def zdiv_mono1 pos_imp_zdiv_nonneg_iff)
    ultimately have n: "nat b0 \<le> nat i" "nat i < nat b0 + nat (b1 - b0)" "nat i < length t"
      using f0 b1 by linarith+
    with o(6) that(1) have "0 \<le> swa_block_table seq s' ! nat i" by blast
    with n(3) o(4) show ?thesis by (simp add: backing_def b id_at_def i_def [symmetric])
  qed
  have "kv_inv s'" "swa_solo s'"
    using kv_inv_swa_frame [OF inv fr] o(1) by (simp_all add: swa_own_iff)
  with o(3) keep cover fr tb show ?thesis by (simp add: ls_def)
qed

section \<open>Trimming\<close>

lemma swa_own_punch:
  assumes own: "swa_own {#} s" and b: "b < length (swa_block_table seq s)" "0 \<le> swa_block_table seq s ! b"
  defines "t \<equiv> swa_block_table seq s"
  shows "swa_own {#} (set_swa seq (t[b := -1]) (free_swa_block (t ! b) s))"
    "swa_frame s (set_swa seq (t[b := -1]) (free_swa_block (t ! b) s))"
proof -
  have "mset (live t) = add_mset (t ! b) (mset (live (t[b := -1])))"
    unfolding t_def by (rule live_update_hole [OF b])
  then have "swa_own {#t ! b#} (set_swa seq (t[b := -1]) s)"
    by (intro swa_own_set_swa [OF own]) (simp add: t_def)
  from swa_own_free [OF this] b(2)
  have "swa_own {#} (free_swa_block (t ! b) (set_swa seq (t[b := -1]) s))" by (simp add: t_def)
  moreover have "free_swa_block (t ! b) (set_swa seq (t[b := -1]) s) =
      set_swa seq (t[b := -1]) (free_swa_block (t ! b) s)"
    by (simp add: set_swa_def free_swa_block_def)
  ultimately show "swa_own {#} (set_swa seq (t[b := -1]) (free_swa_block (t ! b) s))" by simp
  show "swa_frame s (set_swa seq (t[b := -1]) (free_swa_block (t ! b) s))"
    using swa_frame_trans [OF swa_frame_steps(2) swa_frame_steps(1)] .
qed

lemma trim_fold_outcome:
  assumes own: "swa_own {#} s" and a: "a \<le> b" and b: "b \<le> length (swa_block_table seq s)"
    and f: "fold (trim_slot seq) [a..<b] s = s'"
  shows "swa_own {#} s' \<and> swa_frame s s' \<and> swa_block_table seq s' = punch a b (swa_block_table seq s) \<and>
    (\<forall>q. q \<noteq> seq \<longrightarrow> swa_block_table q s' = swa_block_table q s)"
  using a b f
proof (induction b arbitrary: s' rule: dec_induct)
  case base
  with own show ?case by simp
next
  case (step b)
  let ?t = "swa_block_table seq s"
  define s1 where "s1 = fold (trim_slot seq) [a..<b] s"
  have b: "b \<le> length ?t" "b < length ?t" using step.prems(1) by simp_all
  have i: "swa_own {#} s1" "swa_frame s s1" "swa_block_table seq s1 = punch a b ?t"
    "\<forall>q. q \<noteq> seq \<longrightarrow> swa_block_table q s1 = swa_block_table q s"
    using step.IH [OF b(1)] s1_def by simp_all
  have e: "s' = trim_slot seq b s1" using step.prems(2) step.hyps by (simp add: s1_def)
  have nb: "swa_block_table seq s1 ! b = ?t ! b" using b(2) by (simp add: i(3) punch_def)
  show ?case
  proof (cases "0 \<le> ?t ! b")
    case False
    then have "s' = s1" using nb by (simp add: e trim_slot_def)
    with False i punch_Suc [OF step.hyps(1) b(2)] show ?thesis by simp
  next
    case True
    have b1: "b < length (swa_block_table seq s1)" "0 \<le> swa_block_table seq s1 ! b"
      using b(2) True nb i(3) by simp_all
    have e': "s' = set_swa seq ((swa_block_table seq s1)[b := -1]) (free_swa_block (swa_block_table seq s1 ! b) s1)"
      using True nb by (simp add: e trim_slot_def Let_def)
    note p = swa_own_punch [OF i(1) b1, folded e']
    have "swa_frame s s'" using swa_frame_trans [OF i(2) p(2)] .
    moreover have "swa_block_table seq s' = punch a (Suc b) ?t"
      using i(3) True punch_Suc [OF step.hyps(1) b(2)] by (simp add: e')
    moreover have "\<forall>q. q \<noteq> seq \<longrightarrow> swa_block_table q s' = swa_block_table q s" using i(4) by (simp add: e')
    ultimately show ?thesis using p(1) by blast
  qed
qed

lemma id_at_punch: "\<not> i < b \<Longrightarrow> id_at (punch a b t) i = id_at t i"
  by (cases "i < length t") (simp_all add: id_at_def punch_def)

lemma swa_trim_outcome:
  assumes inv: "kv_inv s" and solo: "swa_solo s" and p0: "0 \<le> p"
  shows "kv_inv (swa_trim seq c s) \<and> swa_solo (swa_trim seq c s) \<and> swa_frame s (swa_trim seq c s) \<and>
    (\<forall>q. q \<noteq> seq \<longrightarrow> swa_block_table q (swa_trim seq c s) = swa_block_table q s) \<and>
    (c - swa_window s - swa_slack s \<le> p \<longrightarrow> backing seq p (swa_trim seq c s) = backing seq p s)"
proof (cases "0 < swa_window s \<and> map_of (seq_swa_blocks s) seq \<noteq> None \<and> 0 < c - swa_window s - swa_slack s")
  case False
  then have "swa_trim seq c s = s"
    by (cases "map_of (seq_swa_blocks s) seq") (auto simp: swa_trim_def Let_def)
  with inv solo show ?thesis by simp
next
  case True
  then obtain t where t: "map_of (seq_swa_blocks s) seq = Some t" by auto
  let ?bs = "kv_block_size s"
  define de where "de = c - swa_window s - swa_slack s"
  define dead where "dead = min (de div ?bs) (int (length t))"
  define cur where "cur = (case swa_trim_cursor s seq of None \<Rightarrow> 0 | Some c \<Rightarrow> c)"
  define s1 where "s1 = fold (trim_slot seq) [nat cur..<nat dead] s"
  have tt: "swa_block_table seq s = t" using t by (simp add: swa_block_table_def)
  have "\<not> swa_window s \<le> 0" "\<not> de \<le> 0" using True by (simp_all add: de_def)
  then have e: "swa_trim seq c s = s1\<lparr>swa_trim_cursor := (swa_trim_cursor s1)(seq \<mapsto> max cur dead)\<rparr>"
    unfolding swa_trim_def t Let_def option.case de_def [symmetric] dead_def [symmetric]
      cur_def [symmetric] s1_def [symmetric] by simp
  have own: "swa_own {#} s" using inv solo by (simp add: swa_own_iff kv_inv_def)
  have bs: "0 < ?bs" using inv by (simp add: kv_inv_def)
  have o: "swa_own {#} s1 \<and> swa_frame s s1 \<and>
      (\<exists>a. swa_block_table seq s1 = punch a (nat dead) t) \<and>
      (\<forall>q. q \<noteq> seq \<longrightarrow> swa_block_table q s1 = swa_block_table q s)"
  proof (cases "nat cur \<le> nat dead")
    case le: True
    have "nat dead \<le> length (swa_block_table seq s)" by (simp add: tt nat_le_iff dead_def)
    from trim_fold_outcome [OF own le this s1_def [symmetric]] show ?thesis unfolding tt by blast
  next
    case False
    then have "s1 = s" by (simp add: s1_def)
    with own tt show ?thesis by (auto intro!: exI [of _ "nat dead"])
  qed
  let ?s' = "s1\<lparr>swa_trim_cursor := (swa_trim_cursor s1)(seq \<mapsto> max cur dead)\<rparr>"
  have fr: "swa_frame s ?s'" using o swa_frame_trans swa_frame_steps(4) by blast
  have own': "swa_own {#} ?s'" using o by (simp add: swa_own_def)
  have keep: "backing seq p ?s' = backing seq p s" if "de \<le> p"
  proof -
    have "de div ?bs \<le> p div ?bs" using that bs by (rule zdiv_mono1)
    then have i: "\<not> nat (p div ?bs) < nat dead" by (simp add: dead_def)
    obtain a where "swa_block_table seq ?s' = punch a (nat dead) t" using o by auto
    moreover have "kv_block_size ?s' = ?bs" using swa_frame_fields(3) [OF fr] .
    ultimately show ?thesis using i by (simp add: backing_def tt id_at_punch)
  qed
  have "kv_inv ?s'" "swa_solo ?s'"
    using kv_inv_swa_frame [OF inv fr] own' by (simp_all only: swa_own_iff)
  with o keep fr show ?thesis unfolding e de_def by simp
qed

section \<open>Rollback and release\<close>

lemma pop_tail_swa [simp]:
  "seq_swa_blocks (pop_tail k seq s) = seq_swa_blocks s"
  "kv_block_size (pop_tail k seq s) = kv_block_size s"
  "swa_window (pop_tail k seq s) = swa_window s" "swa_slack (pop_tail k seq s) = swa_slack s"
  by (induction k arbitrary: s)
    (simp_all add: Let_def drop_refs_def set_table_def drop_stale_hash_if_last_def
      erase_hash_of_def split: option.split)

lemma rollback_swa_table:
  "seq_swa_blocks (rollback_swa seq k s) =
     (case map_of (seq_swa_blocks s) seq of
        None \<Rightarrow> seq_swa_blocks s
      | Some t \<Rightarrow> AList.update seq (take (nat k) t) (seq_swa_blocks s))"
  "kv_block_size (rollback_swa seq k s) = kv_block_size s"
  by (simp_all add: rollback_swa_def free_swa_fold Let_def split: option.split)

lemma rollback_swa_blocks:
  "seq_swa_blocks (rollback seq n s) =
     (if table_of seq s = [] \<or> n < 0 then seq_swa_blocks s
      else case map_of (seq_swa_blocks s) seq of
        None \<Rightarrow> seq_swa_blocks s
      | Some t \<Rightarrow> AList.update seq (take (nat (blocks_for n (kv_block_size s))) t) (seq_swa_blocks s))"
  "kv_block_size (rollback seq n s) = kv_block_size s"
  by (simp_all add: rollback_def table_of_def Let_def rollback_swa_table split: option.split)

lemma swa_rollback_backing:
  assumes bs: "0 < kv_block_size s" and p: "0 \<le> p" "p < n"
  shows "backing seq p (rollback seq n s) = backing seq p s"
proof -
  have "p div kv_block_size s < blocks_for n (kv_block_size s)" using bs p(2) by (rule div_le_blocks_for)
  moreover have "0 \<le> p div kv_block_size s" using bs p(1) by (simp add: pos_imp_zdiv_nonneg_iff)
  ultimately have "nat (p div kv_block_size s) < nat (blocks_for n (kv_block_size s))" by linarith
  then show ?thesis
    by (cases "map_of (seq_swa_blocks s) seq")
      (auto simp: backing_def swa_block_table_def rollback_swa_blocks id_at_def)
qed

lemma table_refs_take:
  assumes "distinct (map fst al)" "map_of al k = Some t"
  shows "table_refs (AList.update k (take n t) al) \<subseteq># table_refs al"
proof -
  have "live t = live (take n t) @ live (drop n t)" by (metis append_take_drop_id live_simps(2))
  then show ?thesis
    using table_refs_delete [OF assms] table_refs_update [OF assms(1), of k "take n t"] by simp
qed

lemma swa_solo_mono:
  "swa_solo s \<Longrightarrow> table_refs (seq_swa_blocks s') \<subseteq># table_refs (seq_swa_blocks s) \<Longrightarrow> swa_solo s'"
  unfolding swa_solo_def by (meson le_trans mset_subset_eq_count)

lemma rollback_solo:
  assumes "kv_inv s" "swa_solo s"
  shows "swa_solo (rollback seq n s)"
proof -
  have "distinct (map fst (seq_swa_blocks s))" using assms(1) by (simp add: kv_inv_def swa_inv_def)
  from table_refs_take [OF this] show ?thesis
    by (intro swa_solo_mono [OF assms(2)]) (simp add: rollback_swa_blocks split: option.split)
qed

lemma free_sequence_swa:
  "seq_swa_blocks (free_sequence seq s) =
     (if map_of (seq_blocks s) seq = None then seq_swa_blocks s
      else AList.delete seq (seq_swa_blocks s))"
proof (cases "map_of (seq_blocks s) seq")
  case None
  then show ?thesis by (simp add: free_sequence_def)
next
  case (Some t)
  obtain t' s1 where f: "free_slots t s = (t', s1)" by fastforce
  have "seq_swa_blocks s1 = seq_swa_blocks s"
    using free_slots_frame [OF f] by (simp add: cache_frame_def alloc_frame_def)
  with Some show ?thesis
    by (simp add: free_sequence_eq free_global_def f Let_def free_swa_table_def free_swa_fold
        drop_refs_def erase_table_def alist_delete_None split: option.split)
qed

lemma free_sequence_solo:
  assumes "kv_inv s" "swa_solo s"
  shows "swa_solo (free_sequence seq s)"
proof (cases "map_of (seq_swa_blocks s) seq")
  case None
  with assms show ?thesis by (simp add: swa_solo_def free_sequence_swa alist_delete_None)
next
  case (Some t)
  have "distinct (map fst (seq_swa_blocks s))" using assms(1) by (simp add: kv_inv_def swa_inv_def)
  from table_refs_delete [OF this Some] show ?thesis
    by (intro swa_solo_mono [OF assms(2)]) (simp add: free_sequence_swa)
qed

end
