(* ===== verification/QTypes.thy ===== *)
theory QTypes
  imports Quench_Prelude "HOL-Library.Signed_Division"
begin

text \<open>
  The data-type tag of tensors (\<^verbatim>\<open>src/src/core/qtype.h\<close>, \<^verbatim>\<open>qtype.cpp\<close>): wire values, the
  classification predicates, and the sizes of elements and rows. A column count is a signed
  64-bit value, divided towards zero; a size is a 64-bit word.
\<close>

section \<open>Tags\<close>

datatype qtype =
    F32 | F16 | Q4_0 | Q4_1 | Q5_0 | Q5_1 | Q8_0 | Q8_1 | Q2_K | Q3_K | Q4_K | Q5_K | Q6_K | Q8_K
  | IQ4_NL | IQ4_XS | BF16 | MXFP4
  | NONE | FP8_E4M3 | FP8_E5M2 | INT8 | INT4 | INT32 | FP4_E2M1 | NVFP4 | MXFP4_KV

definition all_qtypes :: "qtype list" where
  "all_qtypes = [F32, F16, Q4_0, Q4_1, Q5_0, Q5_1, Q8_0, Q8_1, Q2_K, Q3_K, Q4_K, Q5_K, Q6_K, Q8_K,
     IQ4_NL, IQ4_XS, BF16, MXFP4, NONE, FP8_E4M3, FP8_E5M2, INT8, INT4, INT32, FP4_E2M1, NVFP4,
     MXFP4_KV]"

fun to_underlying :: "qtype \<Rightarrow> 16 word" where
  "to_underlying F32 = 0" | "to_underlying F16 = 1" | "to_underlying Q4_0 = 2"
| "to_underlying Q4_1 = 3" | "to_underlying Q5_0 = 6" | "to_underlying Q5_1 = 7"
| "to_underlying Q8_0 = 8" | "to_underlying Q8_1 = 9" | "to_underlying Q2_K = 10"
| "to_underlying Q3_K = 11" | "to_underlying Q4_K = 12" | "to_underlying Q5_K = 13"
| "to_underlying Q6_K = 14" | "to_underlying Q8_K = 15" | "to_underlying IQ4_NL = 20"
| "to_underlying IQ4_XS = 23" | "to_underlying BF16 = 30" | "to_underlying MXFP4 = 31"
| "to_underlying NONE = 64" | "to_underlying FP8_E4M3 = 65" | "to_underlying FP8_E5M2 = 66"
| "to_underlying INT8 = 67" | "to_underlying INT4 = 68" | "to_underlying INT32 = 69"
| "to_underlying FP4_E2M1 = 70" | "to_underlying NVFP4 = 71" | "to_underlying MXFP4_KV = 72"

definition is_block_quant :: "qtype \<Rightarrow> bool" where
  "is_block_quant q \<longleftrightarrow>
     (let v = to_underlying q in 2 \<le> v \<and> v \<le> 15) \<or> q = IQ4_NL \<or> q = IQ4_XS \<or> q = MXFP4 \<or> q = NVFP4"

definition is_compute_dtype :: "qtype \<Rightarrow> bool" where
  "is_compute_dtype q \<longleftrightarrow>
     q \<in> {F32, F16, BF16, FP8_E4M3, FP8_E5M2, INT8, INT4, INT32, FP4_E2M1}"

fun nvfp4_beneficial :: "qtype \<Rightarrow> bool \<Rightarrow> bool" where
  "nvfp4_beneficial Q8_0 decode_all = True"
| "nvfp4_beneficial Q8_K decode_all = True"
| "nvfp4_beneficial Q6_K decode_all = True"
| "nvfp4_beneficial Q5_K decode_all = True"
| "nvfp4_beneficial Q4_K decode_all = decode_all"
| "nvfp4_beneficial Q3_K decode_all = decode_all"
| "nvfp4_beneficial Q2_K decode_all = decode_all"
| "nvfp4_beneficial IQ4_NL decode_all = True"
| "nvfp4_beneficial IQ4_XS decode_all = True"
| "nvfp4_beneficial _ decode_all = False"

section \<open>Sizes\<close>

fun qtype_elem_bytes :: "qtype \<Rightarrow> u64" where
  "qtype_elem_bytes F32 = 4"
| "qtype_elem_bytes F16 = 2"
| "qtype_elem_bytes BF16 = 2"
| "qtype_elem_bytes FP8_E4M3 = 1"
| "qtype_elem_bytes FP8_E5M2 = 1"
| "qtype_elem_bytes INT8 = 1"
| "qtype_elem_bytes INT4 = 1"
| "qtype_elem_bytes INT32 = 4"
| "qtype_elem_bytes FP4_E2M1 = 1"
| "qtype_elem_bytes _ = 0"

definition blocked :: "int \<Rightarrow> int \<Rightarrow> u64 \<Rightarrow> u64" where
  "blocked cols per bytes = of_int (cols sdiv per) * bytes"

fun qtype_row_bytes :: "qtype \<Rightarrow> int \<Rightarrow> u64" where
  "qtype_row_bytes Q6_K cols = blocked cols 256 210"
| "qtype_row_bytes Q8_0 cols = blocked cols 32 34"
| "qtype_row_bytes Q4_0 cols = blocked cols 32 18"
| "qtype_row_bytes Q8_1 cols = blocked cols 32 36"
| "qtype_row_bytes Q4_1 cols = blocked cols 32 20"
| "qtype_row_bytes Q5_0 cols = blocked cols 32 22"
| "qtype_row_bytes Q5_1 cols = blocked cols 32 24"
| "qtype_row_bytes Q2_K cols = blocked cols 256 84"
| "qtype_row_bytes Q3_K cols = blocked cols 256 110"
| "qtype_row_bytes Q4_K cols = blocked cols 256 144"
| "qtype_row_bytes Q5_K cols = blocked cols 256 176"
| "qtype_row_bytes Q8_K cols = blocked cols 256 292"
| "qtype_row_bytes IQ4_NL cols = blocked cols 32 18"
| "qtype_row_bytes IQ4_XS cols = blocked cols 256 136"
| "qtype_row_bytes F16 cols = of_int cols * 2"
| "qtype_row_bytes BF16 cols = of_int cols * 2"
| "qtype_row_bytes F32 cols = of_int cols * 4"
| "qtype_row_bytes INT4 cols = of_int ((cols + 1) sdiv 2)"
| "qtype_row_bytes FP4_E2M1 cols = of_int ((cols + 1) sdiv 2)"
| "qtype_row_bytes MXFP4 cols = of_int ((cols + 1) sdiv 2)"
| "qtype_row_bytes NVFP4 cols = of_int ((cols + 1) sdiv 2)"
| "qtype_row_bytes MXFP4_KV cols = of_int ((cols + 1) sdiv 2)"
| "qtype_row_bytes FP8_E4M3 cols = of_int cols"
| "qtype_row_bytes FP8_E5M2 cols = of_int cols"
| "qtype_row_bytes INT8 cols = of_int cols"
| "qtype_row_bytes INT32 cols = of_int cols * 4"
| "qtype_row_bytes NONE cols = of_int cols * 2"

fun qtype_name :: "qtype \<Rightarrow> string" where
  "qtype_name F32 = ''F32''" | "qtype_name F16 = ''F16''" | "qtype_name Q4_0 = ''Q4_0''"
| "qtype_name Q4_1 = ''Q4_1''" | "qtype_name Q5_0 = ''Q5_0''" | "qtype_name Q5_1 = ''Q5_1''"
| "qtype_name Q8_0 = ''Q8_0''" | "qtype_name Q8_1 = ''Q8_1''" | "qtype_name Q2_K = ''Q2_K''"
| "qtype_name Q3_K = ''Q3_K''" | "qtype_name Q4_K = ''Q4_K''" | "qtype_name Q5_K = ''Q5_K''"
| "qtype_name Q6_K = ''Q6_K''" | "qtype_name Q8_K = ''Q8_K''" | "qtype_name IQ4_NL = ''IQ4_NL''"
| "qtype_name IQ4_XS = ''IQ4_XS''" | "qtype_name BF16 = ''BF16''" | "qtype_name MXFP4 = ''MXFP4''"
| "qtype_name NONE = ''NONE''" | "qtype_name FP8_E4M3 = ''FP8_E4M3''"
| "qtype_name FP8_E5M2 = ''FP8_E5M2''" | "qtype_name INT8 = ''INT8''" | "qtype_name INT4 = ''INT4''"
| "qtype_name INT32 = ''INT32''" | "qtype_name FP4_E2M1 = ''FP4_E2M1''"
| "qtype_name NVFP4 = ''NVFP4''" | "qtype_name MXFP4_KV = ''MXFP4_KV''"

section \<open>Facts\<close>

lemma all_qtypes_complete: "q \<in> set all_qtypes"
  by (cases q) (simp_all add: all_qtypes_def)

text \<open>Elements per block and bytes per block, 1 and the element size where there are no blocks.\<close>

fun block_elems :: "qtype \<Rightarrow> nat" where
  "block_elems q =
     (if q \<in> {Q6_K, Q2_K, Q3_K, Q4_K, Q5_K, Q8_K, IQ4_XS} then 256
      else if q \<in> {Q8_0, Q4_0, Q8_1, Q4_1, Q5_0, Q5_1, IQ4_NL} then 32
      else if q \<in> {INT4, FP4_E2M1, MXFP4, NVFP4, MXFP4_KV} then 2 else 1)"

lemma sdiv_nonneg: "0 \<le> a \<Longrightarrow> 0 < b \<Longrightarrow> a sdiv b = a div b" for a b :: int
  by (cases "a = 0") (simp_all add: signed_divide_int_def)

text \<open>
  A row of \<open>n\<close> blocks takes \<open>n\<close> times the bytes of one block: rows concatenate without gaps.
\<close>

lemma qtype_row_bytes_blocks:
  "qtype_row_bytes q (int (n * block_elems q)) = of_nat n * qtype_row_bytes q (int (block_elems q))"
  by (cases q) (simp_all add: blocked_def sdiv_nonneg algebra_simps)




end
