(* ===== verification/Device_Mem.thy ===== *)
theory Device_Mem
  imports Quench_Prelude
begin

text \<open>
  Device memory as bytes at natural-number addresses, and the batched copy kernel of
  \<^verbatim>\<open>src/src/memory/kv_cache.cu\<close>. The threads of a launch run in an order that is not fixed:
  the loop iterations of one copy and the copies of a launch are lists, and every statement
  holds for each order of them. The 16-byte path loads a whole vector before it stores it.
\<close>

type_synonym mem = "nat \<Rightarrow> u8"

record copy_desc =
  cd_src :: nat
  cd_dst :: nat
  cd_bytes :: nat

section \<open>Copies\<close>

definition copy_range :: "nat \<Rightarrow> nat \<Rightarrow> nat \<Rightarrow> mem \<Rightarrow> mem" where
  "copy_range src dst n m = (\<lambda>a. if dst \<le> a \<and> a < dst + n then m (src + (a - dst)) else m a)"

definition byte_step :: "nat \<Rightarrow> nat \<Rightarrow> nat \<Rightarrow> mem \<Rightarrow> mem" where
  "byte_step src dst i m = m(dst + i := m (src + i))"

definition vec_step :: "nat \<Rightarrow> nat \<Rightarrow> nat \<Rightarrow> mem \<Rightarrow> mem" where
  "vec_step src dst i m = copy_range (src + 16 * i) (dst + 16 * i) 16 m"

text \<open>One block of the kernel; \<open>order n\<close> is the order in which the \<open>n\<close> iterations happen.\<close>

definition kv_batched_copy_cta :: "(nat \<Rightarrow> nat list) \<Rightarrow> copy_desc \<Rightarrow> mem \<Rightarrow> mem" where
  "kv_batched_copy_cta order d m =
     (let aligned = ((cd_src d OR cd_dst d OR cd_bytes d) AND 15 = 0) in
      if aligned then fold (vec_step (cd_src d) (cd_dst d)) (order (cd_bytes d div 16)) m
      else fold (byte_step (cd_src d) (cd_dst d)) (order (cd_bytes d)) m)"

definition batched_copy_device :: "(nat \<Rightarrow> nat list) \<Rightarrow> copy_desc list \<Rightarrow> mem \<Rightarrow> mem" where
  "batched_copy_device order descs m = fold (kv_batched_copy_cta order) descs m"

section \<open>One copy\<close>

definition sep :: "nat \<Rightarrow> nat \<Rightarrow> nat \<Rightarrow> nat \<Rightarrow> bool" where
  "sep a n b k \<longleftrightarrow> n = 0 \<or> k = 0 \<or> a + n \<le> b \<or> b + k \<le> a"

lemma sep_sym: "sep a n b k \<longleftrightarrow> sep b k a n"
  by (auto simp: sep_def)

lemma byte_loop:
  assumes "sep src n dst n" "set is \<subseteq> {..<n}"
  shows "fold (byte_step src dst) is m a = (if dst \<le> a \<and> a - dst \<in> set is then m (src + (a - dst)) else m a)"
  using assms(2)
proof (induction "is" arbitrary: m)
  case (Cons i js)
  have src: "byte_step src dst i m (src + k) = m (src + k)" if "k < n" for k
    using assms(1) Cons.prems that by (auto simp: byte_step_def sep_def)
  have ih: "fold (byte_step src dst) (i # js) m a =
      (if dst \<le> a \<and> a - dst \<in> set js then byte_step src dst i m (src + (a - dst))
       else byte_step src dst i m a)"
    using Cons.IH [of "byte_step src dst i m"] Cons.prems by simp
  show ?case
  proof (cases "dst \<le> a \<and> a - dst \<in> set js")
    case True
    then have "a - dst < n" using Cons.prems by auto
    from src [OF this] True show ?thesis unfolding ih by simp
  next
    case False
    then show ?thesis unfolding ih by (auto simp: byte_step_def)
  qed
qed simp

lemma vec_loop:
  assumes "sep src (16 * n) dst (16 * n)" "set is \<subseteq> {..<n}"
  shows "fold (vec_step src dst) is m a =
    (if dst \<le> a \<and> (a - dst) div 16 \<in> set is then m (src + (a - dst)) else m a)"
  using assms(2)
proof (induction "is" arbitrary: m)
  case (Cons i js)
  have hit: "vec_step src dst i m b =
      (if dst \<le> b \<and> (b - dst) div 16 = i then m (src + (b - dst)) else m b)" for b
  proof -
    have "dst + 16 * i \<le> b \<and> b < dst + 16 * i + 16 \<longleftrightarrow> dst \<le> b \<and> (b - dst) div 16 = i" by auto
    moreover have "dst + 16 * i \<le> b \<Longrightarrow> src + 16 * i + (b - (dst + 16 * i)) = src + (b - dst)" by simp
    ultimately show ?thesis by (auto simp: vec_step_def copy_range_def)
  qed
  have i: "i < n" using Cons.prems by simp
  have src: "vec_step src dst i m (src + k) = m (src + k)" if "k div 16 < n" for k
    unfolding hit using assms(1) i that by (auto simp: sep_def)
  have ih: "fold (vec_step src dst) (i # js) m a =
      (if dst \<le> a \<and> (a - dst) div 16 \<in> set js then vec_step src dst i m (src + (a - dst))
       else vec_step src dst i m a)"
    using Cons.IH [of "vec_step src dst i m"] Cons.prems by simp
  show ?case
  proof (cases "dst \<le> a \<and> (a - dst) div 16 \<in> set js")
    case True
    then have "(a - dst) div 16 < n" using Cons.prems by auto
    from src [OF this] True show ?thesis unfolding ih by simp
  next
    case False
    then show ?thesis unfolding ih by (auto simp: hit)
  qed
qed simp

lemma aligned_dvd: "(a OR b OR c) AND 15 = 0 \<Longrightarrow> 16 dvd a \<and> 16 dvd b \<and> 16 dvd c" for a b c :: nat
proof -
  assume "(a OR b OR c) AND 15 = 0"
  then have "take_bit 4 (a OR b OR c) = 0" by (simp add: take_bit_eq_mask mask_eq_exp_minus_1)
  then have "take_bit 4 a OR take_bit 4 b OR take_bit 4 c = 0" by (simp add: take_bit_or)
  then have "take_bit 4 a = 0" "take_bit 4 b = 0" "take_bit 4 c = 0" by (simp_all add: or_eq_0_iff)
  then show ?thesis by (simp_all add: take_bit_eq_mod mod_eq_0_iff_dvd)
qed

text \<open>Both paths of the kernel are the plain copy, in every order of the threads.\<close>

lemma copy_cta_eq:
  assumes "sep (cd_src d) (cd_bytes d) (cd_dst d) (cd_bytes d)" "\<And>n. set (order n) = {..<n}"
  shows "kv_batched_copy_cta order d m = copy_range (cd_src d) (cd_dst d) (cd_bytes d) m"
proof (cases "(cd_src d OR cd_dst d OR cd_bytes d) AND 15 = 0")
  case False
  then show ?thesis
    using byte_loop [OF assms(1)] assms(2)
    by (auto simp: kv_batched_copy_cta_def copy_range_def fun_eq_iff Let_def)
next
  case True
  then obtain k where k: "cd_bytes d = 16 * k" using aligned_dvd by (metis dvdE)
  have "(a - cd_dst d) div 16 < k \<longleftrightarrow> a - cd_dst d < 16 * k" for a by auto
  with True k vec_loop [of "cd_src d" k "cd_dst d" "order k"] assms show ?thesis
    by (auto simp: kv_batched_copy_cta_def copy_range_def fun_eq_iff Let_def)
qed

section \<open>A launch\<close>

text \<open>
  The copies of one launch are independent: no destination meets a source or another
  destination. Then each destination ends up with the bytes its source had before the launch,
  and every other byte is unchanged.
\<close>

definition in_dst :: "copy_desc \<Rightarrow> nat \<Rightarrow> bool" where
  "in_dst d a \<longleftrightarrow> cd_dst d \<le> a \<and> a < cd_dst d + cd_bytes d"

definition independent :: "copy_desc list \<Rightarrow> bool" where
  "independent ds \<longleftrightarrow>
     (\<forall>d \<in> set ds. \<forall>e \<in> set ds. sep (cd_src d) (cd_bytes d) (cd_dst e) (cd_bytes e)) \<and>
     (\<forall>i < length ds. \<forall>j < length ds. i \<noteq> j \<longrightarrow>
        sep (cd_dst (ds ! i)) (cd_bytes (ds ! i)) (cd_dst (ds ! j)) (cd_bytes (ds ! j)))"

lemma independent_Cons:
  assumes "independent (d # ds)"
  shows "independent ds" "\<forall>e \<in> set ds. sep (cd_dst d) (cd_bytes d) (cd_dst e) (cd_bytes e)"
    "\<forall>e \<in> set (d # ds). sep (cd_src e) (cd_bytes e) (cd_dst d) (cd_bytes d)"
proof -
  have n: "sep (cd_dst ((d # ds) ! i)) (cd_bytes ((d # ds) ! i)) (cd_dst ((d # ds) ! j))
      (cd_bytes ((d # ds) ! j))" if "i < Suc (length ds)" "j < Suc (length ds)" "i \<noteq> j" for i j
    using assms that unfolding independent_def by simp
  show "\<forall>e \<in> set ds. sep (cd_dst d) (cd_bytes d) (cd_dst e) (cd_bytes e)"
  proof
    fix e assume "e \<in> set ds"
    then obtain j where "j < length ds" "ds ! j = e" by (auto simp: in_set_conv_nth)
    with n [of 0 "Suc j"] show "sep (cd_dst d) (cd_bytes d) (cd_dst e) (cd_bytes e)" by simp
  qed
  show "independent ds"
    using assms n [of "Suc _" "Suc _"] by (auto simp: independent_def)
  show "\<forall>e \<in> set (d # ds). sep (cd_src e) (cd_bytes e) (cd_dst d) (cd_bytes d)"
    using assms by (auto simp: independent_def)
qed

definition run_copies :: "copy_desc list \<Rightarrow> mem \<Rightarrow> mem" where
  "run_copies ds m = fold (\<lambda>d. copy_range (cd_src d) (cd_dst d) (cd_bytes d)) ds m"

lemma batched_copy_eq:
  assumes "\<And>n. set (order n) = {..<n}"
  shows "independent ds \<Longrightarrow> batched_copy_device order ds m = run_copies ds m"
proof (induction ds arbitrary: m)
  case Nil
  then show ?case by (simp add: batched_copy_device_def run_copies_def)
next
  case (Cons e es)
  note i = independent_Cons [OF Cons.prems]
  have "kv_batched_copy_cta order e m = copy_range (cd_src e) (cd_dst e) (cd_bytes e) m"
    using i(3) by (intro copy_cta_eq assms) simp
  with Cons.IH [OF i(1)] show ?case by (simp add: batched_copy_device_def run_copies_def)
qed

lemma run_copies_spec:
  "independent ds \<Longrightarrow>
    (d \<in> set ds \<and> in_dst d a \<longrightarrow> run_copies ds m a = m (cd_src d + (a - cd_dst d))) \<and>
    ((\<forall>e \<in> set ds. \<not> in_dst e a) \<longrightarrow> run_copies ds m a = m a)"
proof (induction ds arbitrary: m)
  case Nil
  then show ?case by (simp add: run_copies_def)
next
  case (Cons e es)
  note i = independent_Cons [OF Cons.prems]
  define m1 where "m1 = copy_range (cd_src e) (cd_dst e) (cd_bytes e) m"
  have run: "run_copies (e # es) m = run_copies es m1" by (simp add: run_copies_def m1_def)
  have m1: "m1 b = (if in_dst e b then m (cd_src e + (b - cd_dst e)) else m b)" for b
    by (simp add: m1_def copy_range_def in_dst_def)
  note ih = Cons.IH [OF i(1), of m1]
  have miss: "run_copies (e # es) m a = m a" if "\<forall>c \<in> set (e # es). \<not> in_dst c a"
    using ih that by (simp add: run m1 [of a])
  have hit: "run_copies (e # es) m a = m (cd_src d + (a - cd_dst d))"
    if d: "d \<in> set (e # es)" "in_dst d a"
  proof (cases "d \<in> set es")
    case True
    have "sep (cd_src d) (cd_bytes d) (cd_dst e) (cd_bytes e)" using i(3) d(1) by blast
    then have "\<not> in_dst e (cd_src d + (a - cd_dst d))" using d(2) by (auto simp: in_dst_def sep_def)
    with ih True d(2) show ?thesis by (simp add: run m1 [of "cd_src d + (a - cd_dst d)"])
  next
    case False
    then have "d = e" using d(1) by simp
    with d(2) i(2) have "\<forall>c \<in> set es. \<not> in_dst c a" by (fastforce simp: in_dst_def sep_def)
    with ih d(2) \<open>d = e\<close> show ?thesis by (simp add: run m1 [of a])
  qed
  show ?case using miss hit by blast
qed

text \<open>Independence of a list of copies given by an injective family of destinations.\<close>

lemma independent_map:
  assumes "distinct xs"
    and "\<And>x y. x \<in> set xs \<Longrightarrow> y \<in> set xs \<Longrightarrow> sep (cd_src (f x)) (cd_bytes (f x)) (cd_dst (f y)) (cd_bytes (f y))"
    and "\<And>x y. x \<in> set xs \<Longrightarrow> y \<in> set xs \<Longrightarrow> x \<noteq> y \<Longrightarrow>
      sep (cd_dst (f x)) (cd_bytes (f x)) (cd_dst (f y)) (cd_bytes (f y))"
  shows "independent (map f xs)"
  using assms by (auto simp: independent_def nth_eq_iff_index_eq)

end
