(* ===== verification/KV_Cache.thy ===== *)
theory KV_Cache
  imports Block_Pool QTypes Device_Mem
begin

text \<open>
  \<^verbatim>\<open>KVCache\<close> (\<^verbatim>\<open>src/src/memory/kv_cache.h\<close>, \<^verbatim>\<open>kv_cache.cu\<close>): the two constructors, the
  addresses of K, V and scale blocks, and the block copy kernel. Byte sizes and device
  addresses are natural numbers (\<^verbatim>\<open>size_t\<close> and pointers without wrap-around: the pool fits the
  device). \<open>alloc i n\<close> is the result of the \<open>i\<close>-th allocation, of \<open>n\<close> bytes. A constructor
  that throws returns the error and the allocations it holds at that point: no destructor runs.
\<close>

section \<open>State\<close>

record kv_cache =
  kc_n_layers :: nat
  kc_n_kv_heads :: nat
  kc_head_dim :: nat
  kc_max_blocks :: nat
  kc_block_size :: nat
  kc_dtype :: qtype
  kc_block_bytes :: nat
  kc_blocks :: block_pool
  kc_pool :: nat
  kc_layer_block_bytes :: "nat list"
  kc_layer_k_offset :: "nat list"
  kc_layer_v_offset :: "nat list"
  kc_layer_scale_block_bytes :: "nat list"
  kc_layer_k_scale_offset :: "nat list"
  kc_layer_v_scale_offset :: "nat list"
  kc_scale_pool :: "nat option"
  kc_scale_block_bytes :: nat
  kc_layer_is_swa :: "bool list"
  kc_swa_max_blocks :: nat
  kc_swa_blocks :: block_pool

datatype ctor_error =
  PoolOutOfMemory | ScalePoolOutOfMemory | HeadDimNotMultipleOf16 | PerLayerScalesUnsupported
  | BlockIdsInit | SwaBlockIdsInit

definition kNVFP4Group :: nat where
  [simp]: "kNVFP4Group = 16"

definition zero_range :: "nat \<Rightarrow> nat \<Rightarrow> mem \<Rightarrow> mem" where
  "zero_range p n m = (\<lambda>a. if p \<le> a \<and> a < p + n then 0 else m a)"

definition packed_4bit :: "qtype \<Rightarrow> bool" where
  "packed_4bit dtype \<longleftrightarrow> dtype = INT4 \<or> dtype = NVFP4 \<or> dtype = MXFP4_KV"

definition kv_bytes :: "qtype \<Rightarrow> nat \<Rightarrow> nat \<Rightarrow> nat \<Rightarrow> nat" where
  "kv_bytes dtype block_size nkv hdim =
     (if packed_4bit dtype then block_size * nkv * hdim div 2
      else block_size * nkv * hdim * unat (qtype_elem_bytes dtype))"

section \<open>Uniform constructor\<close>

definition scale_bytes :: "qtype \<Rightarrow> nat \<Rightarrow> nat \<Rightarrow> nat \<Rightarrow> nat" where
  "scale_bytes dtype block_size nkv hdim =
     (if dtype = NVFP4 \<or> dtype = MXFP4_KV then block_size * nkv * (hdim div kNVFP4Group)
      else block_size * nkv * 2)"

definition kv_cache_new ::
  "(nat \<Rightarrow> nat \<Rightarrow> nat option) \<Rightarrow> nat \<Rightarrow> nat \<Rightarrow> nat \<Rightarrow> qtype \<Rightarrow> nat \<Rightarrow> nat \<Rightarrow> mem \<Rightarrow>
   (ctor_error \<times> nat list) + (kv_cache \<times> mem)" where
  "kv_cache_new alloc n_layers n_kv_heads head_dim dtype max_blocks block_size m =
     (let bb = kv_bytes dtype block_size n_kv_heads head_dim;
          kv_total = n_layers * max_blocks * 2 * bb;
          needs_scales = (dtype = INT8 \<or> dtype = INT4 \<or> dtype = NVFP4 \<or> dtype = MXFP4_KV) in
      case alloc 0 kv_total of
        None \<Rightarrow> Inl (PoolOutOfMemory, [])
      | Some pool \<Rightarrow>
          let m1 = zero_range pool kv_total m;
              finish = (\<lambda>spool sbb held m'.
                case open_slots (int max_blocks) closed_pool of (e, ids) \<Rightarrow>
                  if e \<noteq> Ok then Inl (BlockIdsInit, held)
                  else Inr (\<lparr>kc_n_layers = n_layers, kc_n_kv_heads = n_kv_heads,
                    kc_head_dim = head_dim, kc_max_blocks = max_blocks,
                    kc_block_size = block_size, kc_dtype = dtype, kc_block_bytes = bb,
                    kc_blocks = ids, kc_pool = pool, kc_layer_block_bytes = [],
                    kc_layer_k_offset = [], kc_layer_v_offset = [],
                    kc_layer_scale_block_bytes = [], kc_layer_k_scale_offset = [],
                    kc_layer_v_scale_offset = [], kc_scale_pool = spool,
                    kc_scale_block_bytes = sbb, kc_layer_is_swa = [], kc_swa_max_blocks = 0,
                    kc_swa_blocks = closed_pool\<rparr>, m')) in
          if \<not> needs_scales then finish None 0 [pool] m1
          else if (dtype = NVFP4 \<or> dtype = MXFP4_KV) \<and> head_dim mod kNVFP4Group \<noteq> 0
          then Inl (HeadDimNotMultipleOf16, [pool])
          else
            let sbb = scale_bytes dtype block_size n_kv_heads head_dim;
                scale_total = n_layers * max_blocks * 2 * sbb in
            case alloc 1 scale_total of
              None \<Rightarrow> Inl (ScalePoolOutOfMemory, [])
            | Some spool \<Rightarrow> finish (Some spool) sbb [pool, spool] (zero_range spool scale_total m1))"

section \<open>Per-layer constructor\<close>

definition shape_at :: "int list \<Rightarrow> nat \<Rightarrow> int" where
  "shape_at v l = (if l < length v then v ! l else 0)"

definition layer_capacity :: "bool list \<Rightarrow> nat \<Rightarrow> nat \<Rightarrow> nat \<Rightarrow> nat" where
  "layer_capacity swa swa_max max_blocks l =
     (if 0 < swa_max \<and> l < length swa \<and> swa ! l then swa_max else max_blocks)"

text \<open>
  The offset loops, from layer \<open>l\<close> with the rounds left: block bytes, K offsets and V offsets
  of the remaining layers, and the running total at the end.
\<close>

primrec layer_loop ::
  "nat \<Rightarrow> nat \<Rightarrow> (nat \<Rightarrow> nat option) \<Rightarrow> (nat \<Rightarrow> nat) \<Rightarrow> nat \<Rightarrow> nat list \<times> nat list \<times> nat list \<times> nat" where
  "layer_loop 0 l bytes cap running = ([], [], [], running)"
| "layer_loop (Suc k) l bytes cap running =
     (case bytes l of
        None \<Rightarrow>
          (case layer_loop k (Suc l) bytes cap running of (bs, ks, vs, r) \<Rightarrow>
             (0 # bs, running # ks, running # vs, r))
      | Some bb \<Rightarrow>
          let v = running + cap l * bb in
          case layer_loop k (Suc l) bytes cap (v + cap l * bb) of (bs, ks, vs, r) \<Rightarrow>
            (bb # bs, running # ks, v # vs, r))"

text \<open>The size of layer \<open>l\<close>'s blocks; \<open>None\<close> for a layer without attention.\<close>

definition layer_kv_bytes :: "int list \<Rightarrow> int list \<Rightarrow> qtype \<Rightarrow> nat \<Rightarrow> nat \<Rightarrow> nat option" where
  "layer_kv_bytes nkvs hds dtype block_size l =
     (let nkv = shape_at nkvs l; hdim = shape_at hds l in
      if nkv \<le> 0 \<or> hdim \<le> 0 then None else Some (kv_bytes dtype block_size (nat nkv) (nat hdim)))"

definition layer_scale_bytes :: "int list \<Rightarrow> int list \<Rightarrow> nat \<Rightarrow> nat \<Rightarrow> nat option" where
  "layer_scale_bytes nkvs hds block_size l =
     (let nkv = shape_at nkvs l; hdim = shape_at hds l in
      if nkv \<le> 0 \<or> hdim \<le> 0 then None else Some (block_size * nat nkv * (nat hdim div kNVFP4Group)))"

definition max_shape :: "int list \<Rightarrow> int list \<Rightarrow> nat \<Rightarrow> nat \<times> nat" where
  "max_shape nkvs hds n =
     fold (\<lambda>l (a, b). let nkv = shape_at nkvs l; hdim = shape_at hds l in
       if nkv \<le> 0 \<or> hdim \<le> 0 then (a, b) else (max a (nat nkv), max b (nat hdim))) [0..<n] (0, 0)"

definition bad_head_dim :: "int list \<Rightarrow> int list \<Rightarrow> nat \<Rightarrow> bool" where
  "bad_head_dim nkvs hds l \<longleftrightarrow>
     (let nkv = shape_at nkvs l; hdim = shape_at hds l in
      \<not> (nkv \<le> 0 \<or> hdim \<le> 0) \<and> nat hdim mod kNVFP4Group \<noteq> 0)"

definition kv_cache_per_layer ::
  "(nat \<Rightarrow> nat \<Rightarrow> nat option) \<Rightarrow> nat \<Rightarrow> int list \<Rightarrow> int list \<Rightarrow> qtype \<Rightarrow> nat \<Rightarrow> nat \<Rightarrow> bool list \<Rightarrow> int \<Rightarrow>
   mem \<Rightarrow> (ctor_error \<times> nat list) + (kv_cache \<times> mem)" where
  "kv_cache_per_layer alloc n_layers nkvs hds dtype max_blocks block_size layer_is_swa swa_max_blocks m =
     (let no_swa = (layer_is_swa = [] \<or> swa_max_blocks \<le> 0);
          swa = (if no_swa then [] else layer_is_swa);
          swa_max = (if no_swa then 0 else nat swa_max_blocks);
          cap = layer_capacity swa swa_max max_blocks;
          (bbs, ks, vs, kv_total) =
            layer_loop n_layers 0 (layer_kv_bytes nkvs hds dtype block_size) cap 0;
          (max_nkv, max_hd) = max_shape nkvs hds n_layers in
      case alloc 0 kv_total of
        None \<Rightarrow> Inl (PoolOutOfMemory, [])
      | Some pool \<Rightarrow>
          let m1 = zero_range pool kv_total m;
              finish = (\<lambda>spool sbbs sks svs sbb held m'.
                case open_slots (int max_blocks) closed_pool of (e, ids) \<Rightarrow>
                  if e \<noteq> Ok then Inl (BlockIdsInit, held)
                  else
                    case (if 0 < swa_max then open_slots (int swa_max) closed_pool
                          else (Ok, closed_pool)) of (e', swa_ids) \<Rightarrow>
                      if e' \<noteq> Ok then Inl (SwaBlockIdsInit, held)
                      else Inr (\<lparr>kc_n_layers = n_layers, kc_n_kv_heads = max_nkv,
                        kc_head_dim = max_hd, kc_max_blocks = max_blocks,
                        kc_block_size = block_size, kc_dtype = dtype,
                        kc_block_bytes = kv_bytes dtype block_size max_nkv max_hd,
                        kc_blocks = ids, kc_pool = pool, kc_layer_block_bytes = bbs,
                        kc_layer_k_offset = ks, kc_layer_v_offset = vs,
                        kc_layer_scale_block_bytes = sbbs, kc_layer_k_scale_offset = sks,
                        kc_layer_v_scale_offset = svs, kc_scale_pool = spool,
                        kc_scale_block_bytes = sbb, kc_layer_is_swa = swa,
                        kc_swa_max_blocks = swa_max, kc_swa_blocks = swa_ids\<rparr>, m')) in
          if dtype = INT8 \<or> dtype = INT4 then Inl (PerLayerScalesUnsupported, [pool])
          else if \<not> (dtype = NVFP4 \<or> dtype = MXFP4_KV) then finish None [] [] [] 0 [pool] m1
          else if \<exists>l \<in> {0..<n_layers}. bad_head_dim nkvs hds l
          then Inl (HeadDimNotMultipleOf16, [pool])
          else
            let (sbbs, sks, svs, sc_total) =
              layer_loop n_layers 0 (layer_scale_bytes nkvs hds block_size) cap 0 in
            case alloc 1 sc_total of
              None \<Rightarrow> Inl (ScalePoolOutOfMemory, [])
            | Some spool \<Rightarrow>
                finish (Some spool) sbbs sks svs
                  (block_size * max_nkv * (max_hd div kNVFP4Group)) [pool, spool]
                  (zero_range spool sc_total m1))"

section \<open>Addresses\<close>

definition cache_layer_is_swa :: "nat \<Rightarrow> kv_cache \<Rightarrow> bool" where
  "cache_layer_is_swa l c \<longleftrightarrow> l < length (kc_layer_is_swa c) \<and> kc_layer_is_swa c ! l"

definition layer_block_bytes :: "nat \<Rightarrow> kv_cache \<Rightarrow> nat" where
  "layer_block_bytes l c =
     (if kc_layer_block_bytes c = [] then kc_block_bytes c else kc_layer_block_bytes c ! l)"

definition k_ptr :: "nat \<Rightarrow> nat \<Rightarrow> kv_cache \<Rightarrow> nat" where
  "k_ptr l b c = kc_pool c +
     (if kc_layer_block_bytes c \<noteq> [] then kc_layer_k_offset c ! l + b * kc_layer_block_bytes c ! l
      else (l * 2 * kc_max_blocks c + b) * kc_block_bytes c)"

definition v_ptr :: "nat \<Rightarrow> nat \<Rightarrow> kv_cache \<Rightarrow> nat" where
  "v_ptr l b c = kc_pool c +
     (if kc_layer_block_bytes c \<noteq> [] then kc_layer_v_offset c ! l + b * kc_layer_block_bytes c ! l
      else (l * 2 * kc_max_blocks c + kc_max_blocks c + b) * kc_block_bytes c)"

definition layer_scale_block_bytes :: "nat \<Rightarrow> kv_cache \<Rightarrow> nat" where
  "layer_scale_block_bytes l c =
     (if kc_layer_scale_block_bytes c \<noteq> []
      then (if kc_n_layers c \<le> l then 0 else kc_layer_scale_block_bytes c ! l)
      else kc_scale_block_bytes c)"

definition k_scale_ptr :: "nat \<Rightarrow> nat \<Rightarrow> kv_cache \<Rightarrow> nat option" where
  "k_scale_ptr l b c = (case kc_scale_pool c of
     None \<Rightarrow> None
   | Some sp \<Rightarrow> Some (sp +
       (if kc_layer_scale_block_bytes c \<noteq> []
        then kc_layer_k_scale_offset c ! l + b * kc_layer_scale_block_bytes c ! l
        else (l * 2 * kc_max_blocks c + b) * kc_scale_block_bytes c)))"

definition v_scale_ptr :: "nat \<Rightarrow> nat \<Rightarrow> kv_cache \<Rightarrow> nat option" where
  "v_scale_ptr l b c = (case kc_scale_pool c of
     None \<Rightarrow> None
   | Some sp \<Rightarrow> Some (sp +
       (if kc_layer_scale_block_bytes c \<noteq> []
        then kc_layer_v_scale_offset c ! l + b * kc_layer_scale_block_bytes c ! l
        else (l * 2 * kc_max_blocks c + kc_max_blocks c + b) * kc_scale_block_bytes c)))"

end
