(* ===== verification/KV_Layout.thy ===== *)
theory KV_Layout
  imports KV_Cache
begin

text \<open>
  Blocks of \<^verbatim>\<open>KVCache\<close> do not overlap. The interface \<open>slot_layout\<close> is a pool that holds, layer
  after layer, a K region and a V region of equally many equally large blocks; its lemmas are
  about the addresses of two slots. It is interpreted twice on the cache: for the K/V pool and
  for the scale pool, in the uniform and in the per-layer form. Both constructors establish it
  and allocate exactly the bytes the addresses reach.
\<close>

section \<open>Layer-major pools\<close>

locale slot_layout =
  fixes wf :: "'c \<Rightarrow> bool" and layers :: "'c \<Rightarrow> nat" and cap :: "'c \<Rightarrow> nat \<Rightarrow> nat"
    and bytes :: "'c \<Rightarrow> nat \<Rightarrow> nat" and kp :: "'c \<Rightarrow> nat \<Rightarrow> nat \<Rightarrow> nat" and vp :: "'c \<Rightarrow> nat \<Rightarrow> nat \<Rightarrow> nat"
  assumes k_stride: "wf c \<Longrightarrow> l < layers c \<Longrightarrow> kp c l b = kp c l 0 + b * bytes c l"
    and v_stride: "wf c \<Longrightarrow> l < layers c \<Longrightarrow> vp c l b = vp c l 0 + b * bytes c l"
    and v_after_k: "wf c \<Longrightarrow> l < layers c \<Longrightarrow> vp c l 0 = kp c l 0 + cap c l * bytes c l"
    and k_after_v: "wf c \<Longrightarrow> Suc l < layers c \<Longrightarrow> kp c (Suc l) 0 = vp c l 0 + cap c l * bytes c l"
begin

definition slot :: "'c \<Rightarrow> bool \<Rightarrow> nat \<Rightarrow> nat \<Rightarrow> nat" where
  "slot c v l b = (if v then vp c l b else kp c l b)"

definition span_end :: "'c \<Rightarrow> nat" where
  "span_end c = (case layers c of 0 \<Rightarrow> 0 | Suc n \<Rightarrow> vp c n 0 + cap c n * bytes c n)"

lemma layer_order:
  assumes "wf c" "l' < layers c" "l < l'"
  shows "vp c l 0 + cap c l * bytes c l \<le> kp c l' 0"
  using assms(2,3)
proof (induction l')
  case (Suc n)
  have n: "kp c n 0 \<le> vp c n 0 + cap c n * bytes c n" "kp c (Suc n) 0 = vp c n 0 + cap c n * bytes c n"
    using v_after_k [OF assms(1), of n] k_after_v [OF assms(1) Suc.prems(1)] Suc.prems(1) by simp_all
  show ?case
  proof (cases "l = n")
    case True
    then show ?thesis using n by simp
  next
    case False
    then have "vp c l 0 + cap c l * bytes c l \<le> kp c n 0" using Suc by simp
    with n show ?thesis by simp
  qed
qed simp

lemma in_region:
  assumes "wf c" "l < layers c" "b < cap c l"
  shows "kp c l 0 \<le> slot c v l b" "slot c v l b + bytes c l \<le> vp c l 0 + cap c l * bytes c l"
    "\<not> v \<Longrightarrow> slot c v l b + bytes c l \<le> vp c l 0" "v \<Longrightarrow> vp c l 0 \<le> slot c v l b"
proof -
  have "Suc b * bytes c l \<le> cap c l * bytes c l" using assms(3) by (intro mult_le_mono1) simp
  then show "kp c l 0 \<le> slot c v l b" "slot c v l b + bytes c l \<le> vp c l 0 + cap c l * bytes c l"
    "\<not> v \<Longrightarrow> slot c v l b + bytes c l \<le> vp c l 0" "v \<Longrightarrow> vp c l 0 \<le> slot c v l b"
    using k_stride [OF assms(1,2), of b] v_stride [OF assms(1,2), of b] v_after_k [OF assms(1,2)]
    by (simp_all add: slot_def)
qed

lemma slots_apart:
  assumes wf: "wf c" and l: "l < layers c" "l' < layers c" and b: "b < cap c l" "b' < cap c l'"
    and ne: "(v, l, b) \<noteq> (v', l', b')"
  shows "sep (slot c v l b) (bytes c l) (slot c v' l' b') (bytes c l')"
proof -
  consider "l < l'" | "l' < l" | "l = l'" "v \<noteq> v'" | "l = l'" "v = v'" "b \<noteq> b'"
    using ne by (cases l l' rule: linorder_cases) auto
  then show ?thesis
  proof cases
    case 1
    then show ?thesis
      using layer_order [OF wf l(2) 1] in_region(2) [OF wf l(1) b(1), of v]
        in_region(1) [OF wf l(2) b(2), of v'] by (simp add: sep_def)
  next
    case 2
    then show ?thesis
      using layer_order [OF wf l(1) 2] in_region(2) [OF wf l(2) b(2), of v']
        in_region(1) [OF wf l(1) b(1), of v] by (simp add: sep_def)
  next
    case 3
    show ?thesis
    proof (cases v)
      case True
      with 3 have v: "\<not> v'" by simp
      from in_region(4) [OF wf l(1) b(1) True] in_region(3) [OF wf l(2) b(2) v] 3
      show ?thesis by (simp add: sep_def)
    next
      case False
      with 3 have v: "v'" by simp
      from in_region(3) [OF wf l(1) b(1) False] in_region(4) [OF wf l(2) b(2) v] 3
      show ?thesis by (simp add: sep_def)
    qed
  next
    case 4
    have "Suc b * bytes c l \<le> b' * bytes c l \<or> Suc b' * bytes c l \<le> b * bytes c l"
      using 4(3) by (meson Suc_leI linorder_neqE_nat mult_le_mono1)
    then show ?thesis
      using 4 k_stride [OF wf l(1), of b] v_stride [OF wf l(1), of b]
        k_stride [OF wf l(1), of b'] v_stride [OF wf l(1), of b'] by (simp add: sep_def slot_def) auto
  qed
qed

lemma slot_in_span:
  assumes wf: "wf c" and l: "l < layers c" and b: "b < cap c l"
  shows "kp c 0 0 \<le> slot c v l b" "slot c v l b + bytes c l \<le> span_end c"
proof -
  have "kp c 0 0 \<le> kp c l 0"
  proof (cases "l = 0")
    case False
    then show ?thesis using layer_order [OF wf l, of 0] v_after_k [OF wf, of 0] l by simp
  qed simp
  then show "kp c 0 0 \<le> slot c v l b" using in_region(1) [OF wf l b, of v] by simp
  obtain n where n: "layers c = Suc n" using l by (cases "layers c") simp_all
  have "vp c l 0 + cap c l * bytes c l \<le> vp c n 0 + cap c n * bytes c n"
  proof (cases "l = n")
    case False
    then show ?thesis using layer_order [OF wf, of n l] v_after_k [OF wf, of n] l n by simp
  qed simp
  then show "slot c v l b + bytes c l \<le> span_end c"
    using in_region(2) [OF wf l b, of v] by (simp add: span_end_def n)
qed

end

section \<open>The cache\<close>

definition cache_capacity :: "kv_cache \<Rightarrow> nat \<Rightarrow> nat" where
  "cache_capacity c = layer_capacity (kc_layer_is_swa c) (kc_swa_max_blocks c) (kc_max_blocks c)"

text \<open>Offset lists that a run of the offset loop from 0 produces.\<close>

definition offsets_ok :: "nat \<Rightarrow> (nat \<Rightarrow> nat) \<Rightarrow> nat list \<Rightarrow> nat list \<Rightarrow> nat list \<Rightarrow> bool" where
  "offsets_ok n cp bbs ks vs \<longleftrightarrow> length bbs = n \<and> length ks = n \<and> length vs = n \<and>
     (\<forall>l < n. vs ! l = ks ! l + cp l * bbs ! l \<and>
        (Suc l < n \<longrightarrow> ks ! Suc l = vs ! l + cp l * bbs ! l)) \<and> (0 < n \<longrightarrow> ks ! 0 = 0)"

definition kv_layout_ok :: "kv_cache \<Rightarrow> bool" where
  "kv_layout_ok c \<longleftrightarrow>
     (if kc_layer_block_bytes c = [] then kc_layer_is_swa c = []
      else offsets_ok (kc_n_layers c) (cache_capacity c) (kc_layer_block_bytes c)
        (kc_layer_k_offset c) (kc_layer_v_offset c))"

definition scale_layout_ok :: "kv_cache \<Rightarrow> bool" where
  "scale_layout_ok c \<longleftrightarrow> kc_scale_pool c \<noteq> None \<and>
     (if kc_layer_scale_block_bytes c = [] then kc_layer_is_swa c = []
      else offsets_ok (kc_n_layers c) (cache_capacity c) (kc_layer_scale_block_bytes c)
        (kc_layer_k_scale_offset c) (kc_layer_v_scale_offset c))"

definition k_scale_at :: "kv_cache \<Rightarrow> nat \<Rightarrow> nat \<Rightarrow> nat" where
  "k_scale_at c l b = the (k_scale_ptr l b c)"

definition v_scale_at :: "kv_cache \<Rightarrow> nat \<Rightarrow> nat \<Rightarrow> nat" where
  "v_scale_at c l b = the (v_scale_ptr l b c)"

lemma cache_capacity_uniform [simp]: "kc_layer_is_swa c = [] \<Longrightarrow> cache_capacity c l = kc_max_blocks c"
  by (simp add: cache_capacity_def layer_capacity_def)

lemma offsets_okD:
  assumes "offsets_ok n cp bbs ks vs" "l < n"
  shows "vs ! l = ks ! l + cp l * bbs ! l" "Suc l < n \<Longrightarrow> ks ! Suc l = vs ! l + cp l * bbs ! l"
  using assms unfolding offsets_ok_def by blast+

lemmas kv_addr_defs = k_ptr_def v_ptr_def layer_block_bytes_def
lemmas scale_addr_defs = k_scale_at_def v_scale_at_def k_scale_ptr_def v_scale_ptr_def
  layer_scale_block_bytes_def

interpretation kvs: slot_layout kv_layout_ok kc_n_layers cache_capacity
  "\<lambda>c l. layer_block_bytes l c" "\<lambda>c l b. k_ptr l b c" "\<lambda>c l b. v_ptr l b c"
  by unfold_locales
    (auto simp: kv_layout_ok_def kv_addr_defs offsets_okD algebra_simps split: if_splits)

interpretation scs: slot_layout scale_layout_ok kc_n_layers cache_capacity
  "\<lambda>c l. layer_scale_block_bytes l c" k_scale_at v_scale_at
  by unfold_locales
    (auto simp: scale_layout_ok_def scale_addr_defs offsets_okD algebra_simps split: if_splits)

section \<open>The constructors\<close>

lemma layer_loop_shift:
  assumes "layer_loop k l bytes cp r = (bbs, ks, vs, e)"
  shows "length bbs = k \<and> length ks = k \<and> length vs = k \<and>
    (\<forall>i < k. vs ! i = ks ! i + cp (l + i) * bbs ! i \<and>
       (if Suc i < k then ks ! Suc i else e) = vs ! i + cp (l + i) * bbs ! i) \<and>
    (if 0 < k then ks ! 0 else e) = r"
  using assms
proof (induction k arbitrary: l r bbs ks vs e)
  case (Suc k)
  obtain bb where bb: "bb = (case bytes l of None \<Rightarrow> 0 | Some b \<Rightarrow> b)" by simp
  obtain bs ks' vs' e' where rec: "layer_loop k (Suc l) bytes cp (r + cp l * bb + cp l * bb) = (bs, ks', vs', e')"
    using prod_cases4 by blast
  have eqs: "bbs = bb # bs" "ks = r # ks'" "vs = (r + cp l * bb) # vs'" "e = e'"
    using Suc.prems rec bb by (auto split: option.splits prod.splits simp: Let_def)
  note ih = Suc.IH [OF rec]
  show ?case unfolding eqs
    using ih by (auto simp: nth_Cons less_Suc_eq_0_disj split: nat.splits if_splits)
qed auto

lemma layer_loop_offsets:
  assumes "layer_loop n 0 bytes cp 0 = (bbs, ks, vs, e)"
  shows "offsets_ok n cp bbs ks vs"
    "0 < n \<Longrightarrow> e = vs ! (n - 1) + cp (n - 1) * bbs ! (n - 1)" "n = 0 \<Longrightarrow> e = 0"
proof -
  note q = layer_loop_shift [OF assms]
  then show "offsets_ok n cp bbs ks vs" by (auto simp: offsets_ok_def split: if_splits)
  show "0 < n \<Longrightarrow> e = vs ! (n - 1) + cp (n - 1) * bbs ! (n - 1)"
    using q by (auto dest!: spec [of _ "n - 1"])
  show "n = 0 \<Longrightarrow> e = 0" using q by simp
qed

lemma kv_span_end:
  "kc_n_layers c = Suc k \<Longrightarrow> kvs.span_end c = v_ptr k 0 c + cache_capacity c k * layer_block_bytes k c"
  by (simp add: kvs.span_end_def)

lemma scale_span_end:
  "kc_n_layers c = Suc k \<Longrightarrow>
     scs.span_end c = v_scale_at c k 0 + cache_capacity c k * layer_scale_block_bytes k c"
  by (simp add: scs.span_end_def)

text \<open>What a constructed cache satisfies; \<open>alloc\<close> served its pools.\<close>

definition pools_ok :: "(nat \<Rightarrow> nat \<Rightarrow> nat option) \<Rightarrow> kv_cache \<Rightarrow> bool" where
  "pools_ok alloc c \<longleftrightarrow> kv_layout_ok c \<and> alloc 0 (kvs.span_end c - kc_pool c) = Some (kc_pool c) \<and>
     (\<forall>sp. kc_scale_pool c = Some sp \<longrightarrow> scale_layout_ok c \<and> alloc 1 (scs.span_end c - sp) = Some sp)"

lemma kv_cache_new_ok:
  assumes "kv_cache_new alloc n nkv hdim dtype mb bs m = Inr (c, m')" "0 < n"
  shows "pools_ok alloc c" "kc_n_layers c = n"
proof -
  obtain k where n: "n = Suc k" using assms(2) by (cases n) simp_all
  let ?bb = "kv_bytes dtype bs nkv hdim"
  have c: "kc_layer_block_bytes c = []" "kc_layer_is_swa c = []" "kc_n_layers c = n"
    "kc_max_blocks c = mb" "kc_block_bytes c = ?bb" "kc_layer_scale_block_bytes c = []"
    "alloc 0 (n * mb * 2 * ?bb) = Some (kc_pool c)"
    "kc_scale_pool c = Some sp \<Longrightarrow> alloc 1 (n * mb * 2 * kc_scale_block_bytes c) = Some sp" for sp
    using assms(1)
    by (auto simp: kv_cache_new_def Let_def split: option.splits if_splits prod.splits)
  have cn: "kc_n_layers c = Suc k" using c(3) n by simp
  have "kvs.span_end c - kc_pool c = n * mb * 2 * ?bb"
    unfolding kv_span_end [OF cn] using c by (simp add: n kv_addr_defs algebra_simps)
  moreover have "scs.span_end c - sp = n * mb * 2 * kc_scale_block_bytes c"
    if "kc_scale_pool c = Some sp" for sp
    unfolding scale_span_end [OF cn] using c that by (simp add: n scale_addr_defs algebra_simps)
  ultimately show "pools_ok alloc c"
    using c by (auto simp: pools_ok_def kv_layout_ok_def scale_layout_ok_def)
  show "kc_n_layers c = n" by (rule c(3))
qed

lemma kv_cache_per_layer_ok:
  assumes "kv_cache_per_layer alloc n nkvs hds dtype mb bs swa smax m = Inr (c, m')" "0 < n"
  shows "pools_ok alloc c" "kc_n_layers c = n"
proof -
  obtain k where n: "n = Suc k" using assms(2) by (cases n) simp_all
  let ?sw = "if swa = [] \<or> smax \<le> 0 then [] else swa"
  let ?sm = "if swa = [] \<or> smax \<le> 0 then 0 else nat smax"
  let ?cap = "layer_capacity ?sw ?sm mb"
  obtain bbs ks vs e where l: "layer_loop n 0 (layer_kv_bytes nkvs hds dtype bs) ?cap 0 = (bbs, ks, vs, e)"
    using prod_cases4 by blast
  obtain sbbs sks svs se where sl: "layer_loop n 0 (layer_scale_bytes nkvs hds bs) ?cap 0 = (sbbs, sks, svs, se)"
    using prod_cases4 by blast
  note o = layer_loop_offsets [OF l] and so = layer_loop_offsets [OF sl]
  have c: "kc_layer_block_bytes c = bbs" "kc_layer_k_offset c = ks" "kc_layer_v_offset c = vs"
    "kc_layer_is_swa c = ?sw" "kc_swa_max_blocks c = ?sm" "kc_max_blocks c = mb"
    "kc_n_layers c = n" "alloc 0 e = Some (kc_pool c)"
    "kc_scale_pool c = Some sp \<Longrightarrow> kc_layer_scale_block_bytes c = sbbs \<and>
       kc_layer_k_scale_offset c = sks \<and> kc_layer_v_scale_offset c = svs \<and> alloc 1 se = Some sp" for sp
    using assms(1) l sl unfolding kv_cache_per_layer_def Let_def
    by (simp_all only: l sl prod.case split: option.splits if_splits prod.splits) auto
  have cc: "cache_capacity c = ?cap" by (simp only: cache_capacity_def c)
  have ne: "bbs \<noteq> []" "sbbs \<noteq> []" using o(1) so(1) assms(2) by (auto simp: offsets_ok_def)
  have cn: "kc_n_layers c = Suc k" using c(7) n by simp
  have sc: "scale_layout_ok c \<and> alloc 1 (scs.span_end c - sp) = Some sp" if sp: "kc_scale_pool c = Some sp" for sp
    unfolding scale_span_end [OF cn] using c(9) [OF sp] c(7) ne(2) so n cc sp
    by (simp add: scale_layout_ok_def scale_addr_defs)
  have "kvs.span_end c - kc_pool c = e"
    unfolding kv_span_end [OF cn] using c(1-7) ne(1) o n cc by (simp add: kv_addr_defs)
  moreover have "kv_layout_ok c" using c(1-7) ne(1) o(1) cc by (simp add: kv_layout_ok_def)
  ultimately show "pools_ok alloc c" using c(8) sc by (simp add: pools_ok_def)
  show "kc_n_layers c = n" by (rule c(7))
qed

section \<open>Properties\<close>

definition kv_built :: "(nat \<Rightarrow> nat \<Rightarrow> nat option) \<Rightarrow> kv_cache \<Rightarrow> bool" where
  "kv_built alloc c \<longleftrightarrow> 0 < kc_n_layers c \<and>
     ((\<exists>nkv hdim dtype mb bs m m'.
         kv_cache_new alloc (kc_n_layers c) nkv hdim dtype mb bs m = Inr (c, m')) \<or>
      (\<exists>nkvs hds dtype mb bs swa smax m m'.
         kv_cache_per_layer alloc (kc_n_layers c) nkvs hds dtype mb bs swa smax m = Inr (c, m')))"

lemma kv_built_pools: "kv_built alloc c \<Longrightarrow> pools_ok alloc c"
  by (auto simp: kv_built_def dest: kv_cache_new_ok(1) kv_cache_per_layer_ok(1))

lemma kv_pool_start: "kv_layout_ok c \<Longrightarrow> 0 < kc_n_layers c \<Longrightarrow> k_ptr 0 0 c = kc_pool c"
  by (auto simp: kv_layout_ok_def offsets_ok_def k_ptr_def split: if_splits)

lemma scale_pool_start:
  "scale_layout_ok c \<Longrightarrow> 0 < kc_n_layers c \<Longrightarrow> kc_scale_pool c = Some (k_scale_at c 0 0)"
  by (auto simp: scale_layout_ok_def offsets_ok_def scale_addr_defs split: if_splits)

text \<open>The address of a K (\<open>False\<close>) or V (\<open>True\<close>) block and of its scales.\<close>

definition kv_addr :: "bool \<Rightarrow> nat \<Rightarrow> nat \<Rightarrow> kv_cache \<Rightarrow> nat" where
  "kv_addr v l b c = (if v then v_ptr l b c else k_ptr l b c)"

definition scale_addr :: "bool \<Rightarrow> nat \<Rightarrow> nat \<Rightarrow> kv_cache \<Rightarrow> nat" where
  "scale_addr v l b c = (if v then v_scale_at c l b else k_scale_at c l b)"

lemma slot_addrs: "kvs.slot c v l b = kv_addr v l b c" "scs.slot c v l b = scale_addr v l b c"
  by (simp_all add: kvs.slot_def scs.slot_def kv_addr_def scale_addr_def)

lemma span_fits: "k \<le> a \<Longrightarrow> a + n \<le> e \<Longrightarrow> a + n \<le> k + (e - k)" for a :: nat
  by simp


text \<open>A cache of two layers, the second windowed, with NVFP4 scales.\<close>

definition example_alloc :: "nat \<Rightarrow> nat \<Rightarrow> nat option" where
  "example_alloc i n = (if n \<le> 49152 then Some (if i = 0 then 4096 else 65536) else None)"

definition example_cache :: kv_cache where
  "example_cache = fst (projr (kv_cache_per_layer example_alloc 2 [2, 1] [16, 32] NVFP4 4 16
     [False, True] 2 (\<lambda>a. 0)))"

lemma example_loops_Suc:
  "layer_loop (Suc (Suc 0)) 0 (layer_kv_bytes [2, 1] [16, 32] NVFP4 16)
     (layer_capacity [False, True] 2 4) 0 = ([256, 256], [0, 2048], [1024, 2560], 3072)"
  "layer_loop (Suc (Suc 0)) 0 (layer_scale_bytes [2, 1] [16, 32] 16)
     (layer_capacity [False, True] 2 4) 0 = ([32, 32], [0, 256], [128, 320], 384)"
  "max_shape [2, 1] [16, 32] (Suc (Suc 0)) = (2, 32)"
  "\<not> (\<exists>l \<in> {0..<Suc (Suc 0)}. bad_head_dim [2, 1] [16, 32] l)"
  by (simp_all add: layer_kv_bytes_def layer_scale_bytes_def shape_at_def layer_capacity_def
      kv_bytes_def packed_4bit_def max_shape_def bad_head_dim_def atLeast0_lessThan_Suc Let_def)

lemmas example_loops = example_loops_Suc [folded numeral_2_eq_2]

lemmas example_defs = example_cache_def kv_cache_per_layer_def example_alloc_def open_slots_def
  closed_pool_def Let_def

lemma example_cache_new:
  "\<exists>m'. kv_cache_per_layer example_alloc 2 [2, 1] [16, 32] NVFP4 4 16 [False, True] 2 (\<lambda>a. 0) =
     Inr (example_cache, m')"
  by (simp add: example_defs example_loops)

lemma example_cache_fields:
  "kc_n_layers example_cache = 2" "cache_capacity example_cache 0 = 4"
  "cache_capacity example_cache 1 = 2" "kc_scale_pool example_cache = Some 65536"
  by (simp_all add: example_defs example_loops cache_capacity_def layer_capacity_def)

lemma example_cache_built: "kv_built example_alloc example_cache"
  using example_cache_new unfolding kv_built_def example_cache_fields by auto




end
