(* ===== verification/KV_Copy.thy ===== *)
theory KV_Copy
  imports KV_Layout
begin

text \<open>
  \<^verbatim>\<open>KVCache::copy_blocks_device\<close>: the whole-block copy across all layers. The blocks of the
  launch run in an order that is not fixed, given as the list \<open>grid\<close>; so do the iterations
  inside each. The theorem is about every such order.
\<close>

section \<open>The kernel\<close>

record copy_meta =
  cm_k_off :: nat
  cm_v_off :: nat
  cm_bytes :: nat
  cm_k_scale_off :: nat
  cm_v_scale_off :: nat
  cm_scale_bytes :: nat

definition kCopyMaxPairs :: nat where
  "kCopyMaxPairs = 16"

definition copy_meta_of :: "kv_cache \<Rightarrow> nat \<Rightarrow> copy_meta" where
  "copy_meta_of c l =
     (if cache_layer_is_swa l c
      then \<lparr>cm_k_off = 0, cm_v_off = 0, cm_bytes = 0, cm_k_scale_off = 0, cm_v_scale_off = 0,
            cm_scale_bytes = 0\<rparr>
      else
        let bytes = (if kc_layer_block_bytes c = [] then kc_block_bytes c
                     else kc_layer_block_bytes c ! l);
            k_off = k_ptr l 0 c - kc_pool c; v_off = v_ptr l 0 c - kc_pool c in
        case kc_scale_pool c of
          Some sp \<Rightarrow>
            \<lparr>cm_k_off = k_off, cm_v_off = v_off, cm_bytes = bytes,
             cm_k_scale_off = the (k_scale_ptr l 0 c) - sp,
             cm_v_scale_off = the (v_scale_ptr l 0 c) - sp,
             cm_scale_bytes = layer_scale_block_bytes l c\<rparr>
        | None \<Rightarrow>
            \<lparr>cm_k_off = k_off, cm_v_off = v_off, cm_bytes = bytes, cm_k_scale_off = 0,
             cm_v_scale_off = 0, cm_scale_bytes = 0\<rparr>)"

text \<open>One block of the launch: layer \<open>l\<close>, section \<open>sec\<close> (K, V, K scales, V scales), one pair.\<close>

definition kv_block_copy_cta ::
  "(nat \<Rightarrow> nat list) \<Rightarrow> nat \<Rightarrow> nat option \<Rightarrow> copy_meta \<Rightarrow> nat \<Rightarrow> nat \<times> nat \<Rightarrow> mem \<Rightarrow> mem" where
  "kv_block_copy_cta order pool spool cm sec pair m =
     (case (if sec < 2 then Some pool else spool) of
        None \<Rightarrow> m
      | Some base \<Rightarrow>
          let bytes = (if sec < 2 then cm_bytes cm else cm_scale_bytes cm) in
          if bytes = 0 then m
          else
            let off = (if sec = 0 then cm_k_off cm else if sec = 1 then cm_v_off cm
                       else if sec = 2 then cm_k_scale_off cm else cm_v_scale_off cm);
                src = base + off + fst pair * bytes;
                dst = base + off + snd pair * bytes;
                vec_ok = (bytes mod 16 = 0 \<and> src mod 16 = 0 \<and> dst mod 16 = 0)
            in if vec_ok then fold (vec_step src dst) (order (bytes div 16)) m
               else fold (byte_step src dst) (order bytes) m)"

definition launch_blocks :: "kv_cache \<Rightarrow> nat \<Rightarrow> (nat \<times> nat \<times> nat) set" where
  "launch_blocks c n_pairs =
     {..<kc_n_layers c} \<times> {..<(if kc_scale_pool c = None then 2 else 4)} \<times> {..<n_pairs}"

text \<open>
  \<open>meta_ok\<close> is the result of the lazy upload of the offset table, \<open>grid\<close> the order in which
  the blocks of the launch run.
\<close>

definition copy_blocks_device ::
  "(nat \<Rightarrow> nat list) \<Rightarrow> (nat \<times> nat \<times> nat) list \<Rightarrow> bool \<Rightarrow> (nat \<times> nat) list \<Rightarrow> kv_cache \<Rightarrow> mem \<Rightarrow> mem" where
  "copy_blocks_device order grid meta_ok pairs c m =
     (if pairs = [] \<or> \<not> meta_ok then m
      else fold (\<lambda>(l, sec, i). kv_block_copy_cta order (kc_pool c) (kc_scale_pool c)
             (copy_meta_of c l) sec (take kCopyMaxPairs pairs ! i)) grid m)"

section \<open>The copies of a launch\<close>

text \<open>The section of a block: scales or not, V or K.\<close>

definition sec_addr :: "kv_cache \<Rightarrow> nat \<Rightarrow> nat \<Rightarrow> nat \<Rightarrow> nat" where
  "sec_addr c l sec b =
     (if sec < 2 then kv_addr (sec = 1) l b c else scale_addr (sec = 3) l b c)"

definition raw_bytes :: "kv_cache \<Rightarrow> nat \<Rightarrow> nat \<Rightarrow> nat" where
  "raw_bytes c l sec = (if sec < 2 then layer_block_bytes l c else layer_scale_block_bytes l c)"

definition sec_bytes :: "kv_cache \<Rightarrow> nat \<Rightarrow> nat \<Rightarrow> nat" where
  "sec_bytes c l sec = (if cache_layer_is_swa l c then 0 else raw_bytes c l sec)"

definition block_desc :: "kv_cache \<Rightarrow> (nat \<times> nat) list \<Rightarrow> nat \<times> nat \<times> nat \<Rightarrow> copy_desc" where
  "block_desc c pairs = (\<lambda>(l, sec, i).
     \<lparr>cd_src = sec_addr c l sec (fst (pairs ! i)), cd_dst = sec_addr c l sec (snd (pairs ! i)),
      cd_bytes = sec_bytes c l sec\<rparr>)"

lemma copy_range_0 [simp]: "copy_range src dst 0 m = m"
  by (auto simp: copy_range_def fun_eq_iff)

lemma copy_paths:
  assumes "sep src n dst n" "\<And>k. set (order k) = {..<k}"
  shows "(if n mod 16 = 0 \<and> src mod 16 = 0 \<and> dst mod 16 = 0
          then fold (vec_step src dst) (order (n div 16)) m else fold (byte_step src dst) (order n) m) =
    copy_range src dst n m"
proof (cases "n mod 16 = 0")
  case True
  then obtain k where k: "n = 16 * k" by (metis mod_0_imp_dvd dvdE)
  have "(a - dst) div 16 < k \<longleftrightarrow> a - dst < 16 * k" for a by auto
  with k vec_loop [of src k dst "order k"] byte_loop [of src n dst "order n"] assms show ?thesis
    by (auto simp: copy_range_def fun_eq_iff)
next
  case False
  with byte_loop [of src n dst "order n"] assms show ?thesis
    by (auto simp: copy_range_def fun_eq_iff)
qed

text \<open>The caches the kernel is launched on.\<close>

definition copy_ok :: "kv_cache \<Rightarrow> bool" where
  "copy_ok c \<longleftrightarrow> kv_layout_ok c \<and> (kc_scale_pool c \<noteq> None \<longrightarrow> scale_layout_ok c)"

lemma capacity_not_swa: "\<not> cache_layer_is_swa l c \<Longrightarrow> cache_capacity c l = kc_max_blocks c"
  by (auto simp: cache_layer_is_swa_def cache_capacity_def layer_capacity_def)

lemma kv_addr_base:
  assumes "kv_layout_ok c" "l < kc_n_layers c"
  shows "kc_pool c + (k_ptr l 0 c - kc_pool c) + b * layer_block_bytes l c = kv_addr False l b c"
    "kc_pool c + (v_ptr l 0 c - kc_pool c) + b * layer_block_bytes l c = kv_addr True l b c"
  using kvs.k_stride [OF assms, of b] kvs.v_stride [OF assms, of b]
  by (simp_all add: kv_addr_def) (simp_all add: k_ptr_def v_ptr_def)

lemma scale_addr_base:
  assumes "scale_layout_ok c" "l < kc_n_layers c" "kc_scale_pool c = Some sp"
  shows "sp + (the (k_scale_ptr l 0 c) - sp) + b * layer_scale_block_bytes l c = scale_addr False l b c"
    "sp + (the (v_scale_ptr l 0 c) - sp) + b * layer_scale_block_bytes l c = scale_addr True l b c"
  using scs.k_stride [OF assms(1,2), of b] scs.v_stride [OF assms(1,2), of b] assms(3)
  by (simp_all add: scale_addr_def k_scale_at_def v_scale_at_def)
    (simp_all add: k_scale_ptr_def v_scale_ptr_def)

lemma sec_apart:
  assumes ok: "copy_ok c" and l: "l < kc_n_layers c" "l' < kc_n_layers c"
    and b: "b < cache_capacity c l" "b' < cache_capacity c l'"
    and sec: "sec < (if kc_scale_pool c = None then 2 else 4)" "sec' < (if kc_scale_pool c = None then 2 else 4)"
    and same: "sec < 2 \<longleftrightarrow> sec' < 2" and ne: "(l, sec, b) \<noteq> (l', sec', b')"
  shows "sep (sec_addr c l sec b) (raw_bytes c l sec) (sec_addr c l' sec' b') (raw_bytes c l' sec')"
proof (cases "sec < 2")
  case True
  have "(sec = 1, l, b) \<noteq> (sec' = 1, l', b')" using True same ne by auto
  from kvs.slots_apart [OF _ l b this] ok True same show ?thesis
    unfolding slot_addrs by (simp add: copy_ok_def sec_addr_def raw_bytes_def)
next
  case False
  then have sp: "kc_scale_pool c \<noteq> None" using sec by (auto split: if_splits)
  have "(sec = 3, l, b) \<noteq> (sec' = 3, l', b')" using False same ne sec by (auto split: if_splits)
  from scs.slots_apart [OF _ l b this] ok False same sp show ?thesis
    unfolding slot_addrs by (simp add: copy_ok_def sec_addr_def raw_bytes_def)
qed

lemma copy_meta_fields:
  assumes "\<not> cache_layer_is_swa l c"
  shows "cm_bytes (copy_meta_of c l) = layer_block_bytes l c"
    "cm_k_off (copy_meta_of c l) = k_ptr l 0 c - kc_pool c"
    "cm_v_off (copy_meta_of c l) = v_ptr l 0 c - kc_pool c"
    "kc_scale_pool c = Some sp \<Longrightarrow> cm_scale_bytes (copy_meta_of c l) = layer_scale_block_bytes l c"
    "kc_scale_pool c = Some sp \<Longrightarrow> cm_k_scale_off (copy_meta_of c l) = the (k_scale_ptr l 0 c) - sp"
    "kc_scale_pool c = Some sp \<Longrightarrow> cm_v_scale_off (copy_meta_of c l) = the (v_scale_ptr l 0 c) - sp"
  using assms
  by (simp_all add: copy_meta_of_def layer_block_bytes_def Let_def split: option.split)

lemma block_cta_eq:
  assumes ok: "copy_ok c" and l: "l < kc_n_layers c"
    and sec: "sec < (if kc_scale_pool c = None then 2 else 4)"
    and pr: "fst pr < kc_max_blocks c" "snd pr < kc_max_blocks c" "fst pr \<noteq> snd pr"
    and ord: "\<And>k. set (order k) = {..<k}"
  shows "kv_block_copy_cta order (kc_pool c) (kc_scale_pool c) (copy_meta_of c l) sec pr m =
    copy_range (sec_addr c l sec (fst pr)) (sec_addr c l sec (snd pr)) (sec_bytes c l sec) m"
proof (cases "cache_layer_is_swa l c")
  case True
  then show ?thesis
    by (simp add: kv_block_copy_cta_def copy_meta_of_def sec_bytes_def split: option.split)
next
  case False
  note mf = copy_meta_fields [OF False]
  have kvok: "kv_layout_ok c" and scok: "kc_scale_pool c \<noteq> None \<Longrightarrow> scale_layout_ok c"
    using ok by (simp_all add: copy_ok_def)
  have "sep (sec_addr c l sec (fst pr)) (sec_bytes c l sec) (sec_addr c l sec (snd pr)) (sec_bytes c l sec)"
    using pr sec_apart [OF ok l l _ _ sec sec, of "fst pr" "snd pr"] False
    by (simp add: capacity_not_swa sec_bytes_def)
  note paths = copy_paths [OF this ord, where m = m]
  have zero: "sec_bytes c l sec = 0 \<Longrightarrow>
      copy_range (sec_addr c l sec (fst pr)) (sec_addr c l sec (snd pr)) (sec_bytes c l sec) m = m" by simp
  consider "sec = 0" | "sec = 1" | sp where "sec = 2" "kc_scale_pool c = Some sp"
    | sp where "sec = 3" "kc_scale_pool c = Some sp"
    using sec by (fastforce split: if_splits simp: less_Suc_eq numeral_eq_Suc)
  then show ?thesis
  proof cases
    case 1
    then have e: "sec_bytes c l sec = layer_block_bytes l c" "\<And>b. sec_addr c l sec b = kv_addr False l b c"
      using False by (simp_all add: sec_bytes_def raw_bytes_def sec_addr_def)
    show ?thesis
      unfolding kv_block_copy_cta_def Let_def mf
      using 1 zero [unfolded e] paths [unfolded e] kv_addr_base [OF kvok l] e
      by (auto split: if_splits)
  next
    case 2
    then have e: "sec_bytes c l sec = layer_block_bytes l c" "\<And>b. sec_addr c l sec b = kv_addr True l b c"
      using False by (simp_all add: sec_bytes_def raw_bytes_def sec_addr_def)
    show ?thesis
      unfolding kv_block_copy_cta_def Let_def mf
      using 2 zero [unfolded e] paths [unfolded e] kv_addr_base [OF kvok l] e
      by (auto split: if_splits)
  next
    case (3 sp)
    then have e: "sec_bytes c l sec = layer_scale_block_bytes l c"
      "\<And>b. sec_addr c l sec b = scale_addr False l b c"
      using False by (simp_all add: sec_bytes_def raw_bytes_def sec_addr_def)
    show ?thesis
      unfolding kv_block_copy_cta_def Let_def mf
      using 3 zero [unfolded e] paths [unfolded e] scale_addr_base [OF scok l 3(2)] mf(4-6) e
      by (auto split: if_splits)
  next
    case (4 sp)
    then have e: "sec_bytes c l sec = layer_scale_block_bytes l c"
      "\<And>b. sec_addr c l sec b = scale_addr True l b c"
      using False by (simp_all add: sec_bytes_def raw_bytes_def sec_addr_def)
    show ?thesis
      unfolding kv_block_copy_cta_def Let_def mf
      using 4 zero [unfolded e] paths [unfolded e] scale_addr_base [OF scok l 4(2)] mf(4-6) e
      by (auto split: if_splits)
  qed
qed

section \<open>The launch\<close>

text \<open>What the allocator of the two pools guarantees: they do not overlap.\<close>

definition allocs_disjoint :: "(nat \<Rightarrow> nat \<Rightarrow> nat option) \<Rightarrow> bool" where
  "allocs_disjoint alloc \<longleftrightarrow>
     (\<forall>n p k q. alloc 0 n = Some p \<longrightarrow> alloc 1 k = Some q \<longrightarrow> sep p n q k)"

text \<open>What the caller guarantees: valid block ids, different targets, no target is a source.\<close>

definition pairs_ok :: "kv_cache \<Rightarrow> (nat \<times> nat) list \<Rightarrow> bool" where
  "pairs_ok c pairs \<longleftrightarrow> (\<forall>pr \<in> set pairs. fst pr < kc_max_blocks c \<and> snd pr < kc_max_blocks c) \<and>
     distinct (map snd pairs) \<and> fst ` set pairs \<inter> snd ` set pairs = {}"

lemma copy_ok_built: "kv_built alloc c \<Longrightarrow> copy_ok c"
  using kv_built_pools by (fastforce simp: copy_ok_def pools_ok_def)

lemma kv_scale_apart:
  assumes bt: "kv_built alloc c" and ad: "allocs_disjoint alloc"
    and l: "l < kc_n_layers c" "l' < kc_n_layers c" "b < cache_capacity c l" "b' < cache_capacity c l'"
    and sp: "kc_scale_pool c = Some sp"
  shows "sep (kv_addr v l b c) (layer_block_bytes l c) (scale_addr v' l' b' c) (layer_scale_block_bytes l' c)"
proof -
  have p: "pools_ok alloc c" using kv_built_pools [OF bt] .
  have nl: "0 < kc_n_layers c" using l(1) by simp
  have ok: "kv_layout_ok c" "alloc 0 (kvs.span_end c - kc_pool c) = Some (kc_pool c)"
    "scale_layout_ok c" "alloc 1 (scs.span_end c - sp) = Some sp"
    using p sp by (simp_all add: pools_ok_def)
  have st: "k_scale_at c 0 0 = sp" using scale_pool_start [OF ok(3) nl] sp by simp
  note kv = kvs.slot_in_span [OF ok(1) l(1,3), of v, unfolded slot_addrs kv_pool_start [OF ok(1) nl]]
  note sc = scs.slot_in_span [OF ok(3) l(2,4), of v', unfolded slot_addrs st]
  have "sep (kc_pool c) (kvs.span_end c - kc_pool c) sp (scs.span_end c - sp)"
    using ad ok(2,4) unfolding allocs_disjoint_def by blast
  with kv(1) span_fits [OF kv] sc(1) span_fits [OF sc] show ?thesis by (auto simp: sep_def)
qed

lemma raw_apart:
  assumes bt: "kv_built alloc c" and ad: "allocs_disjoint alloc"
    and l: "l < kc_n_layers c" "l' < kc_n_layers c"
    and b: "b < cache_capacity c l" "b' < cache_capacity c l'"
    and sec: "sec < (if kc_scale_pool c = None then 2 else 4)" "sec' < (if kc_scale_pool c = None then 2 else 4)"
    and ne: "(l, sec, b) \<noteq> (l', sec', b')"
  shows "sep (sec_addr c l sec b) (raw_bytes c l sec) (sec_addr c l' sec' b') (raw_bytes c l' sec')"
proof (cases "sec < 2 \<longleftrightarrow> sec' < 2")
  case same: True
  show ?thesis by (rule sec_apart [OF copy_ok_built [OF bt] l b sec same ne])
next
  case diff: False
  then obtain sp where sp: "kc_scale_pool c = Some sp" using sec by (auto split: if_splits)
  note ap = kv_scale_apart [OF bt ad _ _ _ _ sp]
  from diff consider "sec < 2" "\<not> sec' < 2" | "\<not> sec < 2" "sec' < 2" by blast
  then show ?thesis
  proof cases
    case 1
    with ap [of l l' b b'] l b show ?thesis by (simp add: sec_addr_def raw_bytes_def)
  next
    case 2
    with ap [of l' l b' b] l b show ?thesis
      by (simp add: sec_addr_def raw_bytes_def sep_sym [of "scale_addr _ _ _ _"])
  qed
qed

lemma secs_apart:
  assumes bt: "kv_built alloc c" and ad: "allocs_disjoint alloc"
    and l: "l < kc_n_layers c" "l' < kc_n_layers c"
    and b: "b < kc_max_blocks c" "b' < kc_max_blocks c"
    and sec: "sec < (if kc_scale_pool c = None then 2 else 4)" "sec' < (if kc_scale_pool c = None then 2 else 4)"
    and ne: "(l, sec, b) \<noteq> (l', sec', b')"
  shows "sep (sec_addr c l sec b) (sec_bytes c l sec) (sec_addr c l' sec' b') (sec_bytes c l' sec')"
proof (cases "cache_layer_is_swa l c \<or> cache_layer_is_swa l' c")
  case True
  then show ?thesis by (auto simp: sec_bytes_def sep_def)
next
  case False
  with raw_apart [OF bt ad l _ _ sec ne] b show ?thesis by (simp add: sec_bytes_def capacity_not_swa)
qed

lemma copy_blocks_eq:
  assumes bt: "kv_built alloc c" and ad: "allocs_disjoint alloc" and pr: "pairs_ok c pairs"
    and ord: "\<And>k. set (order k) = {..<k}" and ps: "ps = take kCopyMaxPairs pairs" "ps \<noteq> []"
    and g: "distinct grid" "set grid = launch_blocks c (length ps)"
  shows "copy_blocks_device order grid True pairs c m = run_copies (map (block_desc c ps) grid) m"
    "independent (map (block_desc c ps) grid)"
proof -
  have sub: "set ps \<subseteq> set pairs" by (simp add: ps set_take_subset)
  have d: "distinct (map snd ps)" using pr by (simp add: ps pairs_ok_def take_map [symmetric])
  have pb: "fst (ps ! i) < kc_max_blocks c" "snd (ps ! i) < kc_max_blocks c" if "i < length ps" for i
    using pr sub nth_mem [OF that] by (auto simp: pairs_ok_def)
  have ne: "fst (ps ! i) \<noteq> snd (ps ! j)" if "i < length ps" "j < length ps" for i j
    using pr sub nth_mem [OF that(1)] nth_mem [OF that(2)] by (force simp: pairs_ok_def)
  have in_g: "l < kc_n_layers c" "sec < (if kc_scale_pool c = None then 2 else 4)" "i < length ps"
    if "(l, sec, i) \<in> set grid" for l sec i using that g(2) by (auto simp: launch_blocks_def)
  have "fold (\<lambda>(l, sec, i). kv_block_copy_cta order (kc_pool c) (kc_scale_pool c) (copy_meta_of c l) sec (ps ! i)) gs m =
      run_copies (map (block_desc c ps) gs) m" if "set gs \<subseteq> set grid" for gs m
    using that
  proof (induction gs arbitrary: m)
    case (Cons x gs)
    obtain l sec i where x: "x = (l, sec, i)" by (cases x)
    note h = in_g [of l sec i]
    have "kv_block_copy_cta order (kc_pool c) (kc_scale_pool c) (copy_meta_of c l) sec (ps ! i) m =
        copy_range (sec_addr c l sec (fst (ps ! i))) (sec_addr c l sec (snd (ps ! i))) (sec_bytes c l sec) m"
      using Cons.prems h pb ne
      by (intro block_cta_eq [OF copy_ok_built [OF bt]] ord) (simp_all add: x)
    with Cons show ?case by (simp add: x run_copies_def block_desc_def)
  qed (simp add: run_copies_def)
  then show "copy_blocks_device order grid True pairs c m = run_copies (map (block_desc c ps) grid) m"
    using ps by (auto simp: copy_blocks_device_def)
  show "independent (map (block_desc c ps) grid)"
  proof (rule independent_map [OF g(1)])
    fix x y assume xy: "x \<in> set grid" "y \<in> set grid"
    obtain l sec i where x: "x = (l, sec, i)" by (cases x)
    obtain l' sec' j where y: "y = (l', sec', j)" by (cases y)
    note h = in_g [OF xy(1) [unfolded x]] in_g [OF xy(2) [unfolded y]]
    show "sep (cd_src (block_desc c ps x)) (cd_bytes (block_desc c ps x)) (cd_dst (block_desc c ps y)) (cd_bytes (block_desc c ps y))"
      using secs_apart [OF bt ad h(1,4) pb(1) [OF h(3)] pb(2) [OF h(6)] h(2,5)] ne [OF h(3,6)]
      by (simp add: x y block_desc_def)
    assume "x \<noteq> y"
    then have "(l, sec, snd (ps ! i)) \<noteq> (l', sec', snd (ps ! j))"
      using d h(3,6) x y by (auto simp: distinct_conv_nth)
    then show "sep (cd_dst (block_desc c ps x)) (cd_bytes (block_desc c ps x)) (cd_dst (block_desc c ps y)) (cd_bytes (block_desc c ps y))"
      using secs_apart [OF bt ad h(1,4) pb(2) [OF h(3)] pb(2) [OF h(6)] h(2,5)]
      by (simp add: x y block_desc_def)
  qed
qed

lemma launch_block_copied:
  assumes "independent (map (block_desc c ps) grid)" "set grid = launch_blocks c (length ps)"
    and "i < length ps" "l < kc_n_layers c" "sec < (if kc_scale_pool c = None then 2 else 4)"
    and "j < sec_bytes c l sec"
  shows "run_copies (map (block_desc c ps) grid) m (sec_addr c l sec (snd (ps ! i)) + j) =
    m (sec_addr c l sec (fst (ps ! i)) + j)"
proof -
  let ?d = "block_desc c ps (l, sec, i)"
  have "(l, sec, i) \<in> set grid" using assms by (simp add: launch_blocks_def)
  then have "?d \<in> set (map (block_desc c ps) grid)" by (metis image_eqI list.set_map)
  moreover have "in_dst ?d (sec_addr c l sec (snd (ps ! i)) + j)"
    using assms(6) by (simp add: in_dst_def block_desc_def)
  ultimately show ?thesis
    using run_copies_spec [OF assms(1), of ?d "sec_addr c l sec (snd (ps ! i)) + j" m]
    by (simp add: block_desc_def)
qed


lemma example_allocs_disjoint: "allocs_disjoint example_alloc"
  by (auto simp: allocs_disjoint_def example_alloc_def sep_def split: if_splits)


end
