(* ===== verification/KV_Snapshot.thy ===== *)
theory KV_Snapshot
  imports KV_Swa KV_Copy
begin

text \<open>
  Window snapshots of \<^verbatim>\<open>KVCacheManager\<close>: \<^verbatim>\<open>enable_swa_snapshots\<close>, \<^verbatim>\<open>swa_snapshot_copy_\<close>,
  \<^verbatim>\<open>swa_snapshot_pack\<close> and \<^verbatim>\<open>swa_snapshot_restore\<close>. A snapshot is a slab of device memory that
  holds the window blocks of a sequence at a block-aligned position. The copies go through the
  batched copy kernel; \<open>order\<close> is the order of its iterations. The cache geometry \<open>c\<close>, the
  manager \<open>s\<close> and the snapshot layout \<open>ss\<close> are separate records.
\<close>

section \<open>Layout\<close>

record swa_snap =
  ss_layers :: "nat list"
  ss_layer_off :: "nat list"
  ss_win_blocks :: int
  ss_bytes :: nat
  ss_desc_cap :: nat

definition swa_snap_new :: swa_snap where
  "swa_snap_new = \<lparr>ss_layers = [], ss_layer_off = [], ss_win_blocks = 0, ss_bytes = 0, ss_desc_cap = 0\<rparr>"

definition snap_scale_bytes :: "kv_cache \<Rightarrow> nat \<Rightarrow> nat" where
  "snap_scale_bytes c l = (if k_scale_ptr l 0 c \<noteq> None then layer_scale_block_bytes l c else 0)"

primrec slab_offsets :: "kv_cache \<Rightarrow> nat \<Rightarrow> nat list \<Rightarrow> nat \<Rightarrow> nat list \<times> nat" where
  "slab_offsets c win [] off = ([], off)"
| "slab_offsets c win (l # ls) off =
     (case slab_offsets c win ls (off + win * 2 * (layer_block_bytes l c + snap_scale_bytes c l)) of
        (offs, e) \<Rightarrow> (off # offs, e))"

text \<open>\<open>desc_ok\<close>: both staging buffers for the copy descriptors could be allocated.\<close>

definition enable_swa_snapshots :: "bool \<Rightarrow> kv_cache \<Rightarrow> kv_mgr \<Rightarrow> swa_snap \<Rightarrow> bool \<times> swa_snap" where
  "enable_swa_snapshots desc_ok c s ss =
     (if swa_window s \<le> 0 \<or> \<not> swa_enabled s then (False, ss)
      else if 0 < ss_bytes ss then (True, ss)
      else
        let ls = filter (\<lambda>l. cache_layer_is_swa l c) [0..<kc_n_layers c] in
        if ls = [] then (False, ss\<lparr>ss_layers := []\<rparr>)
        else
          let bs = kv_block_size s;
              win = (swa_window s + swa_slack s + bs - 1) div bs + 1;
              (offs, off) = slab_offsets c (nat win) ls 0;
              ss1 = ss\<lparr>ss_layers := ls, ss_win_blocks := win, ss_layer_off := offs, ss_bytes := off\<rparr>
          in if \<not> desc_ok then (False, ss1\<lparr>ss_bytes := 0\<rparr>)
             else (True, ss1\<lparr>ss_desc_cap := length ls * nat win * 4\<rparr>))"

section \<open>Copying\<close>

definition put_desc :: "bool \<Rightarrow> nat \<Rightarrow> nat \<Rightarrow> nat \<Rightarrow> nat \<Rightarrow> copy_desc list" where
  "put_desc to_slab cache_ptr area i bytes =
     (if bytes = 0 then []
      else let slab_ptr = area + i * bytes in
        [\<lparr>cd_src = (if to_slab then cache_ptr else slab_ptr),
          cd_dst = (if to_slab then slab_ptr else cache_ptr), cd_bytes = bytes\<rparr>])"

definition slot_descs :: "bool \<Rightarrow> kv_cache \<Rightarrow> swa_snap \<Rightarrow> nat \<Rightarrow> nat \<Rightarrow> nat \<Rightarrow> nat \<Rightarrow> copy_desc list" where
  "slot_descs to_slab c ss slab j b i =
     (let l = ss_layers ss ! j;
          kvb = layer_block_bytes l c;
          scb = snap_scale_bytes c l;
          win = nat (ss_win_blocks ss);
          k_area = slab + ss_layer_off ss ! j;
          v_area = k_area + win * kvb;
          ks_area = v_area + win * kvb;
          vs_area = ks_area + win * scb
      in put_desc to_slab (k_ptr l b c) k_area i kvb @ put_desc to_slab (v_ptr l b c) v_area i kvb @
         (if scb = 0 then []
          else put_desc to_slab (the (k_scale_ptr l b c)) ks_area i scb @
               put_desc to_slab (the (v_scale_ptr l b c)) vs_area i scb))"

text \<open>The two loops; \<open>None\<close> is the early return at a hole the window needs.\<close>

primrec window_descs ::
  "(nat \<Rightarrow> nat \<Rightarrow> copy_desc list) \<Rightarrow> (nat \<Rightarrow> bool) \<Rightarrow> int list \<Rightarrow> nat \<Rightarrow> nat \<Rightarrow> copy_desc list option" where
  "window_descs descs tolerated ids i 0 = Some []"
| "window_descs descs tolerated ids i (Suc k) =
     (let b = ids ! i in
      if b < 0 then (if tolerated i then window_descs descs tolerated ids (Suc i) k else None)
      else case window_descs descs tolerated ids (Suc i) k of
        None \<Rightarrow> None | Some ds \<Rightarrow> Some (descs (nat b) i @ ds))"

primrec layer_descs :: "(nat \<Rightarrow> copy_desc list option) \<Rightarrow> nat \<Rightarrow> nat \<Rightarrow> copy_desc list option" where
  "layer_descs window j 0 = Some []"
| "layer_descs window j (Suc k) =
     (case window j of
        None \<Rightarrow> None
      | Some ds \<Rightarrow> (case layer_descs window (Suc j) k of None \<Rightarrow> None | Some es \<Rightarrow> Some (ds @ es)))"

definition swa_snapshot_copy ::
  "(nat \<Rightarrow> nat list) \<Rightarrow> int \<Rightarrow> int \<Rightarrow> nat \<Rightarrow> bool \<Rightarrow> kv_cache \<Rightarrow> swa_snap \<Rightarrow> kv_mgr \<Rightarrow> mem \<Rightarrow> bool \<times> mem" where
  "swa_snapshot_copy order seq upto_tokens slab to_slab c ss s m =
     (let bs = kv_block_size s in
      if upto_tokens \<le> 0 \<or> upto_tokens mod bs \<noteq> 0 then (False, m)
      else
        let end_b = upto_tokens div bs;
            first = swa_first_live_block upto_tokens s;
            count = end_b - first in
        if count \<le> 0 \<or> ss_win_blocks ss < count then (False, m)
        else case map_of (seq_swa_blocks s) seq of
          None \<Rightarrow> (False, m)
        | Some swa \<Rightarrow>
            if int (length swa) < end_b then (False, m)
            else
              let needed_start = max first ((upto_tokens - swa_window s) sdiv bs - 1);
                  zero_filled = (to_slab \<and> (\<exists>b \<in> {nat first..<nat needed_start}. swa ! b < 0));
                  m1 = (if zero_filled then zero_range slab (ss_bytes ss) m else m);
                  ids = drop (nat first) swa;
                  tolerated = (\<lambda>i. to_slab \<and> zero_filled \<and> first + int i < needed_start)
              in case layer_descs (\<lambda>j. window_descs (\<lambda>b i. slot_descs to_slab c ss slab j b i)
                         tolerated ids 0 (nat count)) 0 (length (ss_layers ss)) of
                None \<Rightarrow> (False, m1)
              | Some ds \<Rightarrow>
                  if ds = [] \<or> ss_desc_cap ss < length ds then (False, m1)
                  else (True, batched_copy_device order ds m1))"

definition swa_snapshot_pack ::
  "(nat \<Rightarrow> nat list) \<Rightarrow> int \<Rightarrow> int \<Rightarrow> nat option \<Rightarrow> kv_cache \<Rightarrow> swa_snap \<Rightarrow> kv_mgr \<Rightarrow> mem \<Rightarrow> bool \<times> mem" where
  "swa_snapshot_pack order seq upto_tokens slab c ss s m =
     (case slab of
        None \<Rightarrow> (False, m)
      | Some p \<Rightarrow>
          if ss_bytes ss = 0 then (False, m)
          else swa_snapshot_copy order seq upto_tokens p True c ss s m)"

section \<open>Restoring\<close>

text \<open>The allocation loop of \<^verbatim>\<open>swa_snapshot_restore\<close>; it collects the fresh blocks.\<close>

primrec restore_fill :: "nat \<Rightarrow> nat \<Rightarrow> int \<Rightarrow> int list \<Rightarrow> kv_mgr \<Rightarrow> bool \<times> int list \<times> kv_mgr" where
  "restore_fill 0 b seq fresh s = (True, fresh, s)"
| "restore_fill (Suc k) b seq fresh s =
     (if 0 \<le> swa_block_table seq s ! b then restore_fill k (Suc b) seq fresh s
      else case allocate_swa_block s of (c, s1) \<Rightarrow>
        if c < 0 then (False, fresh, s1)
        else restore_fill k (Suc b) seq (fresh @ [c])
               (set_swa seq ((swa_block_table seq s1)[b := c]) s1))"

definition clear_fresh :: "nat \<Rightarrow> nat \<Rightarrow> int list \<Rightarrow> int list \<Rightarrow> int list" where
  "clear_fresh a b fresh t =
     map (\<lambda>i. if a \<le> i \<and> i < b \<and> t ! i \<in> set fresh then -1 else t ! i) [0..<length t]"

definition undo_fresh :: "int \<Rightarrow> nat \<Rightarrow> nat \<Rightarrow> int list \<Rightarrow> kv_mgr \<Rightarrow> kv_mgr" where
  "undo_fresh seq a b fresh s =
     (let s1 = fold free_swa_block fresh s
      in set_swa seq (clear_fresh a b fresh (swa_block_table seq s1)) s1)"

definition undo_slot :: "int \<Rightarrow> int list \<Rightarrow> nat \<Rightarrow> kv_mgr \<Rightarrow> kv_mgr" where
  "undo_slot seq fresh b s =
     (let t = swa_block_table seq s in
      if 0 \<le> t ! b \<and> t ! b \<in> set fresh
      then set_swa seq (t[b := -1]) (free_swa_block (t ! b) s) else s)"

definition swa_snapshot_restore ::
  "(nat \<Rightarrow> nat list) \<Rightarrow> int \<Rightarrow> int \<Rightarrow> nat option \<Rightarrow> kv_cache \<Rightarrow> swa_snap \<Rightarrow> kv_mgr \<Rightarrow> mem \<Rightarrow>
   bool \<times> kv_mgr \<times> mem" where
  "swa_snapshot_restore order seq upto_tokens slab c ss s m =
     (case slab of
        None \<Rightarrow> (False, s, m)
      | Some p \<Rightarrow>
          let bs = kv_block_size s in
          if ss_bytes ss = 0 \<or> upto_tokens \<le> 0 \<or> upto_tokens mod bs \<noteq> 0 then (False, s, m)
          else
            let end_b = upto_tokens div bs in
            case map_of (seq_blocks s) seq of
              None \<Rightarrow> (False, s, m)
            | Some g \<Rightarrow>
                if int (length g) < end_b then (False, s, m)
                else
                  let s1 = set_swa seq (pad_holes (length g) (swa_block_table seq s)) s;
                      first = swa_first_live_block upto_tokens s;
                      a = nat first; e = nat end_b in
                  case restore_fill (nat (end_b - first)) a seq [] s1 of (ok, fresh, s2) \<Rightarrow>
                    if \<not> ok then (False, undo_fresh seq a e fresh s2, m)
                    else
                      let cursor = (case swa_trim_cursor s2 seq of None \<Rightarrow> 0 | Some x \<Rightarrow> x);
                          s3 = s2\<lparr>swa_trim_cursor := (swa_trim_cursor s2)(seq \<mapsto> max cursor first)\<rparr> in
                      case swa_snapshot_copy order seq upto_tokens p False c ss s3 m of (done, m1) \<Rightarrow>
                        if done then (True, s3, m1)
                        else (False, fold (undo_slot seq fresh) [a..<e] s3, m1))"

end
