(* ===== verification/KV_Snapshot_Inv.thy ===== *)
theory KV_Snapshot_Inv
  imports KV_Snapshot
begin

text \<open>
  Accounting of \<^verbatim>\<open>swa_snapshot_restore\<close>: the blocks it takes are exactly the ones it gives back
  on each of its two failure paths, so a failed restore leaves every token position backed as
  before and the group with as many free blocks as before.
\<close>

section \<open>Filling with a record of the fresh blocks\<close>

lemma restore_fill_swa:
  "restore_fill k b seq fresh s = (ok, fr, s') \<Longrightarrow> swa_fill k b seq s = (ok, s')"
  by (induction k arbitrary: b fresh s) (auto split: if_splits prod.splits)

lemma restore_fill_fresh:
  "swa_own {#} s \<Longrightarrow> t = swa_block_table seq s \<Longrightarrow> (0 < k \<longrightarrow> b + k \<le> length t) \<Longrightarrow>
     restore_fill k b seq fresh s = (ok, fr, s') \<Longrightarrow>
     \<exists>new. fr = fresh @ new \<and> (\<forall>x \<in> set new. 0 \<le> x) \<and>
       mset (live (swa_block_table seq s')) = mset (live t) + mset new \<and>
       (\<forall>i. t ! i < 0 \<and> 0 \<le> swa_block_table seq s' ! i \<longrightarrow> swa_block_table seq s' ! i \<in> set new)"
proof (induction k arbitrary: b fresh s t)
  case 0
  then show ?case by simp
next
  case (Suc k)
  show ?case
  proof (cases "0 \<le> t ! b")
    case True
    then have "restore_fill k (Suc b) seq fresh s = (ok, fr, s')" using Suc.prems by simp
    from Suc.IH [OF Suc.prems(1,2) _ this] Suc.prems(3) show ?thesis by simp
  next
    case False
    obtain c s1 where a: "allocate_swa_block s = (c, s1)" by fastforce
    from Suc.prems(1) a show ?thesis
    proof (cases rule: swa_acquire_cases)
      case empty
      then show ?thesis using Suc.prems False a by auto
    next
      case (got p)
      let ?t1 = "t[b := c]"
      let ?s2 = "set_swa seq ?t1 s1"
      have b: "b < length t" using Suc.prems(3) by simp
      have tb: "swa_block_table seq s1 = t" using got(3) Suc.prems(2) by simp
      have lv: "mset (live ?t1) = add_mset c (mset (live t))"
        using live_fill_hole [OF b _ got(1)] False by simp
      have own: "swa_own {#} ?s2"
        using got(2) lv by (intro swa_own_set_swa [where X = "{#c#}"]) (simp_all add: tb)
      have run: "restore_fill k (Suc b) seq (fresh @ [c]) ?s2 = (ok, fr, s')"
        using Suc.prems False a got(1) tb by simp
      have len: "0 < k \<longrightarrow> Suc b + k \<le> length ?t1" using Suc.prems(3) by simp
      have "?t1 = swa_block_table seq ?s2" by simp
      from Suc.IH [OF own this len run] obtain new where
        new: "fr = (fresh @ [c]) @ new" "\<forall>x \<in> set new. 0 \<le> x"
          "mset (live (swa_block_table seq s')) = mset (live ?t1) + mset new"
          "\<forall>i. ?t1 ! i < 0 \<and> 0 \<le> swa_block_table seq s' ! i \<longrightarrow> swa_block_table seq s' ! i \<in> set new"
        by blast
      have "swa_block_table seq s' ! b = c"
        using swa_fill_outcome [OF own refl _ restore_fill_swa [OF run]] len b got(1) by simp
      with new(4) b have "swa_block_table seq s' ! i \<in> set (c # new)"
        if "t ! i < 0" "0 \<le> swa_block_table seq s' ! i" for i
        using that by (cases "i = b") auto
      with new(1-3) got(1) lv show ?thesis by (intro exI [of _ "c # new"]) simp
    qed
  qed
qed

section \<open>Undoing\<close>

lemma live_same:
  assumes "length u = length t" "\<And>i. i < length t \<Longrightarrow> u ! i = t ! i \<or> (u ! i < 0 \<and> t ! i < 0)"
  shows "live u = live t"
  using assms
proof (induction u t rule: list_induct2)
  case (Cons x xs y ys)
  have "live xs = live ys" using Cons.prems [of "Suc _"] by (intro Cons.IH) simp
  with Cons.prems [of 0] show ?case by (auto simp: live_def)
qed simp

lemma live_member: "i < length t \<Longrightarrow> 0 \<le> t ! i \<Longrightarrow> t ! i \<in># mset (live t)"
  by (simp add: live_def)

lemma swa_own_count:
  assumes "swa_own {#} s"
  shows "count (mset (live (swa_block_table seq s))) b \<le> 1"
proof (cases "map_of (seq_swa_blocks s) seq")
  case None
  then show ?thesis by (simp add: swa_block_table_def)
next
  case (Some t)
  have d: "distinct (map fst (seq_swa_blocks s))" "count (table_refs (seq_swa_blocks s)) b \<le> 1"
    using assms by (simp_all add: swa_own_def)
  from table_refs_delete [OF d(1) Some] d(2) show ?thesis
    by (simp add: swa_block_table_def Some)
qed

text \<open>What a fill with fresh blocks \<open>new\<close> did to the table \<open>t\<close>, and that clearing them undoes it.\<close>

definition filled :: "nat \<Rightarrow> nat \<Rightarrow> int list \<Rightarrow> int list \<Rightarrow> int list \<Rightarrow> bool" where
  "filled a e new t u \<longleftrightarrow> length u = length t \<and> (\<forall>x \<in> set new. 0 \<le> x) \<and>
     mset (live u) = mset (live t) + mset new \<and>
     (\<forall>i. 0 \<le> t ! i \<or> i < a \<or> e \<le> i \<longrightarrow> u ! i = t ! i) \<and>
     (\<forall>i. t ! i < 0 \<and> 0 \<le> u ! i \<longrightarrow> u ! i \<in> set new) \<and> (\<forall>b. count (mset (live u)) b \<le> 1)"

lemma filled_nth:
  assumes f: "filled a e new t u" and i: "i < length t"
  shows "u ! i \<in> set new \<longleftrightarrow> a \<le> i \<and> i < e \<and> t ! i < 0 \<and> 0 \<le> u ! i"
proof
  assume n: "u ! i \<in> set new"
  have "\<not> 0 \<le> t ! i"
  proof
    assume t: "0 \<le> t ! i"
    then have "u ! i = t ! i" using f by (simp add: filled_def)
    with t n live_member [OF i t] have "2 \<le> count (mset (live t) + mset new) (u ! i)"
      using count_greater_zero_iff [of "mset new" "u ! i"] count_greater_zero_iff [of "mset (live t)" "u ! i"]
      by (auto simp del: count_greater_zero_iff)
    moreover have "count (mset (live t) + mset new) (u ! i) \<le> 1" using f unfolding filled_def by metis
    ultimately show False by linarith
  qed
  moreover have "0 \<le> u ! i" using f n by (simp add: filled_def)
  moreover have "a \<le> i \<and> i < e"
  proof (rule ccontr)
    assume "\<not> (a \<le> i \<and> i < e)"
    then have "u ! i = t ! i" using f by (auto simp: filled_def)
    with calculation show False by simp
  qed
  ultimately show "a \<le> i \<and> i < e \<and> t ! i < 0 \<and> 0 \<le> u ! i" by simp
next
  assume "a \<le> i \<and> i < e \<and> t ! i < 0 \<and> 0 \<le> u ! i"
  then show "u ! i \<in> set new" using f by (simp add: filled_def)
qed

lemma clear_fresh_nth:
  "i < length u \<Longrightarrow> clear_fresh a e new u ! i = (if a \<le> i \<and> i < e \<and> u ! i \<in> set new then -1 else u ! i)"
  by (simp add: clear_fresh_def)

lemma filled_undo:
  assumes "filled a e new t u"
  shows "length (clear_fresh a e new u) = length t"
    "\<And>i. i < length t \<Longrightarrow> clear_fresh a e new u ! i = t ! i \<or>
       (clear_fresh a e new u ! i < 0 \<and> t ! i < 0)"
    "live (clear_fresh a e new u) = live t"
proof -
  show len: "length (clear_fresh a e new u) = length t" using assms by (simp add: clear_fresh_def filled_def)
  show nth: "clear_fresh a e new u ! i = t ! i \<or> (clear_fresh a e new u ! i < 0 \<and> t ! i < 0)"
    if i: "i < length t" for i
  proof -
    have u: "i < length u" using i assms by (simp add: filled_def)
    show ?thesis
    proof (cases "u ! i \<in> set new")
      case True
      with filled_nth [OF assms i] show ?thesis by (simp add: clear_fresh_nth [OF u])
    next
      case False
      have "u ! i = t ! i \<or> u ! i < 0 \<and> t ! i < 0"
      proof (cases "0 \<le> t ! i")
        case True
        with assms show ?thesis by (simp add: filled_def)
      next
        case neg: False
        have "t ! i < 0 \<and> 0 \<le> u ! i \<longrightarrow> u ! i \<in> set new" using assms unfolding filled_def by blast
        with neg False show ?thesis by linarith
      qed
      with False show ?thesis by (simp add: clear_fresh_nth [OF u])
    qed
  qed
  show "live (clear_fresh a e new u) = live t" using live_same [OF len nth] .
qed

lemma free_swa_block_all:
  "swa_own (mset bs + X) s \<Longrightarrow> \<forall>b \<in> set bs. 0 \<le> b \<Longrightarrow>
     swa_own X (fold free_swa_block bs s) \<and> swa_frame s (fold free_swa_block bs s) \<and>
     seq_swa_blocks (fold free_swa_block bs s) = seq_swa_blocks s"
proof (induction bs arbitrary: s)
  case (Cons b bs)
  have "swa_own (mset bs + X) (free_swa_block b s)" using Cons.prems by (intro swa_own_free) simp_all
  note ih = Cons.IH [OF this]
  have "swa_frame s (fold free_swa_block (b # bs) s)"
    using ih Cons.prems(2) swa_frame_trans [OF swa_frame_steps(2) [of s b]] by simp
  moreover have "seq_swa_blocks (free_swa_block b s) = seq_swa_blocks s" by (simp add: free_swa_block_def)
  ultimately show ?case using ih Cons.prems(2) by simp
qed simp

lemma free_set_swa: "free_swa_block b (set_swa seq t s) = set_swa seq t (free_swa_block b s)"
  by (simp add: free_swa_block_def set_swa_def)

lemma free_set_swa_fold:
  "fold free_swa_block bs (set_swa seq t s) = set_swa seq t (fold free_swa_block bs s)"
  by (induction bs arbitrary: s) (simp_all add: free_set_swa)

lemma undo_fresh_outcome:
  assumes own: "swa_own {#} s" and f: "filled a e new t (swa_block_table seq s)"
  defines "s' \<equiv> undo_fresh seq a e new s"
  shows "swa_own {#} s'" "swa_frame s s'" "swa_block_table seq s' = clear_fresh a e new (swa_block_table seq s)"
    "q \<noteq> seq \<Longrightarrow> swa_block_table q s' = swa_block_table q s"
proof -
  let ?u = "clear_fresh a e new (swa_block_table seq s)"
  have nn: "\<forall>x \<in> set new. 0 \<le> x" using f by (simp add: filled_def)
  have "swa_block_table seq (fold free_swa_block new s) = swa_block_table seq s"
    by (induction new arbitrary: s) simp_all
  then have e: "s' = fold free_swa_block new (set_swa seq ?u s)"
    by (simp add: s'_def undo_fresh_def Let_def free_set_swa_fold)
  have "mset (live ?u) + mset new = mset (live (swa_block_table seq s)) + {#}"
    using f filled_undo(3) [OF f] by (simp add: filled_def)
  then have "swa_own (mset new + {#}) (set_swa seq ?u s)" using swa_own_set_swa [OF own] by simp
  note r = free_swa_block_all [OF this nn]
  show "swa_own {#} s'" using r by (simp add: e)
  show "swa_frame s s'" unfolding e using r swa_frame_trans [OF swa_frame_steps(1)] by blast
  have tb: "swa_block_table x s' = swa_block_table x (set_swa seq ?u s)" for x
    using r by (simp add: e swa_block_table_def)
  show "swa_block_table seq s' = ?u" "q \<noteq> seq \<Longrightarrow> swa_block_table q s' = swa_block_table q s"
    by (simp_all add: tb)
qed

lemma clear_fresh_Suc:
  assumes "a \<le> e" "e < length u"
  shows "clear_fresh a (Suc e) fr u =
    (if u ! e \<in> set fr then (clear_fresh a e fr u)[e := -1] else clear_fresh a e fr u)"
  by (rule nth_equalityI)
    (use assms in \<open>auto simp: clear_fresh_def nth_list_update less_Suc_eq\<close>)

lemma clear_fresh_empty [simp]: "clear_fresh a a fr u = u"
  by (rule nth_equalityI) (simp_all add: clear_fresh_def)

lemma undo_slot_outcome:
  assumes own: "swa_own {#} s" and nn: "\<forall>x \<in> set fr. 0 \<le> x"
    and a: "a \<le> e" and e: "e \<le> length (swa_block_table seq s)"
    and f: "fold (undo_slot seq fr) [a..<e] s = s'"
  shows "swa_own {#} s' \<and> swa_frame s s' \<and>
    swa_block_table seq s' = clear_fresh a e fr (swa_block_table seq s) \<and>
    (\<forall>q. q \<noteq> seq \<longrightarrow> swa_block_table q s' = swa_block_table q s)"
  using a e f
proof (induction e arbitrary: s' rule: dec_induct)
  case base
  with own show ?case by simp
next
  case (step e)
  let ?u = "swa_block_table seq s"
  define s1 where "s1 = fold (undo_slot seq fr) [a..<e] s"
  have b: "e \<le> length ?u" "e < length ?u" using step.prems(1) by simp_all
  have i: "swa_own {#} s1" "swa_frame s s1" "swa_block_table seq s1 = clear_fresh a e fr ?u"
    "\<forall>q. q \<noteq> seq \<longrightarrow> swa_block_table q s1 = swa_block_table q s"
    using step.IH [OF b(1)] s1_def by simp_all
  have e: "s' = undo_slot seq fr e s1" using step.prems(2) step.hyps by (simp add: s1_def)
  have ne: "swa_block_table seq s1 ! e = ?u ! e" using b(2) by (simp add: i(3) clear_fresh_nth)
  have len: "length (swa_block_table seq s1) = length ?u" by (simp add: i(3) clear_fresh_def)
  show ?case
  proof (cases "?u ! e \<in> set fr")
    case False
    then have "s' = s1" using ne by (simp add: e undo_slot_def)
    with False i clear_fresh_Suc [OF step.hyps(1) b(2)] show ?thesis by simp
  next
    case True
    have b1: "e < length (swa_block_table seq s1)" "0 \<le> swa_block_table seq s1 ! e"
      using b(2) True nn ne len by simp_all
    have e': "s' = set_swa seq ((swa_block_table seq s1)[e := -1])
        (free_swa_block (swa_block_table seq s1 ! e) s1)"
      using True ne nn by (simp add: e undo_slot_def Let_def)
    note p = swa_own_punch [OF i(1) b1, folded e']
    have "swa_frame s s'" using swa_frame_trans [OF i(2) p(2)] .
    moreover have "swa_block_table seq s' = clear_fresh a (Suc e) fr ?u"
      using i(3) True clear_fresh_Suc [OF step.hyps(1) b(2)] by (simp add: e')
    moreover have "\<forall>q. q \<noteq> seq \<longrightarrow> swa_block_table q s' = swa_block_table q s" using i(4) by (simp add: e')
    ultimately show ?thesis using p(1) by blast
  qed
qed

section \<open>The whole operation\<close>

lemma restore_filled:
  assumes own: "swa_own {#} s" and len: "0 < k \<longrightarrow> a + k \<le> length (swa_block_table seq s)"
    and run: "restore_fill k a seq [] s = (ok, fr, s')"
  shows "filled a (a + k) fr (swa_block_table seq s) (swa_block_table seq s')"
    "swa_own {#} s'" "swa_frame s s'" "\<And>q. q \<noteq> seq \<Longrightarrow> swa_block_table q s' = swa_block_table q s"
    "ok \<Longrightarrow> a \<le> i \<Longrightarrow> i < a + k \<Longrightarrow> 0 \<le> swa_block_table seq s' ! i"
proof -
  note o = swa_fill_outcome [OF own refl len restore_fill_swa [OF run]]
  from restore_fill_fresh [OF own refl len run] obtain new where
    n: "fr = new" "\<forall>x \<in> set new. 0 \<le> x"
      "mset (live (swa_block_table seq s')) = mset (live (swa_block_table seq s)) + mset new"
      "\<forall>i. swa_block_table seq s ! i < 0 \<and> 0 \<le> swa_block_table seq s' ! i \<longrightarrow>
         swa_block_table seq s' ! i \<in> set new" by auto
  show own': "swa_own {#} s'" using o by blast
  show "filled a (a + k) fr (swa_block_table seq s) (swa_block_table seq s')"
    unfolding filled_def n(1) using o n(2-4) swa_own_count [OF own'] by blast
  show "swa_frame s s'" "\<And>q. q \<noteq> seq \<Longrightarrow> swa_block_table q s' = swa_block_table q s"
    "ok \<Longrightarrow> a \<le> i \<Longrightarrow> i < a + k \<Longrightarrow> 0 \<le> swa_block_table seq s' ! i" using o by blast+
qed

lemma table_refs_mem: "b \<in># table_refs al \<longleftrightarrow> (\<exists>k t. (k, t) \<in> set al \<and> b \<in> set (live t))"
proof -
  have "b \<in># table_refs al \<longleftrightarrow> (\<exists>kt \<in> set al. b \<in> set (live (snd kt)))"
    by (induction al) (auto simp: table_refs_def)
  then show ?thesis by force
qed

lemma swa_refs_mem:
  assumes "distinct (map fst (seq_swa_blocks s))"
  shows "b \<in># table_refs (seq_swa_blocks s) \<longleftrightarrow> (\<exists>q. b \<in> set (live (swa_block_table q s)))"
proof
  assume "b \<in># table_refs (seq_swa_blocks s)"
  then obtain k t where "(k, t) \<in> set (seq_swa_blocks s)" "b \<in> set (live t)"
    unfolding table_refs_mem by blast
  then have "map_of (seq_swa_blocks s) k = Some t" using assms by simp
  with \<open>b \<in> set (live t)\<close> show "\<exists>q. b \<in> set (live (swa_block_table q s))"
    by (intro exI [of _ k]) (simp add: swa_block_table_def)
next
  assume "\<exists>q. b \<in> set (live (swa_block_table q s))"
  then obtain q where b: "b \<in> set (live (swa_block_table q s))" by blast
  then obtain t where "map_of (seq_swa_blocks s) q = Some t"
    by (cases "map_of (seq_swa_blocks s) q") (simp_all add: swa_block_table_def)
  with b show "b \<in># table_refs (seq_swa_blocks s)"
    unfolding table_refs_mem by (auto simp: swa_block_table_def dest: map_of_SomeD)
qed

lemma same_live_same_free:
  assumes "swa_own {#} s" "swa_own {#} s'" "swa_frame s s'"
    and "\<And>q. live (swa_block_table q s') = live (swa_block_table q s)"
  shows "free_blocks (kv_swa_pool s') = free_blocks (kv_swa_pool s)"
proof -
  have "free_blocks (kv_swa_pool s) + card (set_mset (table_refs (seq_swa_blocks s))) =
      card (block_ids (kv_swa_pool s))"
    using pool_owned_conservation assms(1) by (simp add: swa_own_def)
  moreover have "free_blocks (kv_swa_pool s') + card (set_mset (table_refs (seq_swa_blocks s'))) =
      card (block_ids (kv_swa_pool s'))"
    using pool_owned_conservation assms(2) by (simp add: swa_own_def)
  moreover have "set_mset (table_refs (seq_swa_blocks s')) = set_mset (table_refs (seq_swa_blocks s))"
    using assms(1,2,4) by (intro set_eqI) (simp add: swa_refs_mem swa_own_def)
  ultimately show ?thesis using assms(3) by (simp add: swa_frame_def)
qed

text \<open>
  What a restore leaves behind: \<open>t\<close> is the table it found, padded; on success the window is
  backed, on failure the table holds the blocks it held before.
\<close>

definition restored :: "int \<Rightarrow> nat \<Rightarrow> nat \<Rightarrow> int list \<Rightarrow> bool \<Rightarrow> int list \<Rightarrow> bool" where
  "restored seq a e t ok u \<longleftrightarrow> length u = length t \<and>
     (\<forall>i < length t. 0 \<le> t ! i \<longrightarrow> u ! i = t ! i) \<and>
     (ok \<longrightarrow> (\<forall>i. a \<le> i \<and> i < e \<longrightarrow> 0 \<le> u ! i)) \<and>
     (\<not> ok \<longrightarrow> live u = live t \<and> (\<forall>i < length t. t ! i < 0 \<longrightarrow> u ! i < 0))"

lemma filled_restored:
  assumes "filled a e new t u"
  shows "(\<And>i. a \<le> i \<Longrightarrow> i < e \<Longrightarrow> 0 \<le> u ! i) \<Longrightarrow> restored seq a e t True u"
    "restored seq a e t False (clear_fresh a e new u)"
proof -
  assume "\<And>i. a \<le> i \<Longrightarrow> i < e \<Longrightarrow> 0 \<le> u ! i"
  with assms show "restored seq a e t True u" by (simp add: restored_def filled_def)
next
  note f = filled_undo [OF assms]
  have "0 \<le> t ! i \<Longrightarrow> clear_fresh a e new u ! i = t ! i" "t ! i < 0 \<Longrightarrow> clear_fresh a e new u ! i < 0"
    if "i < length t" for i using f(2) [OF that] by auto
  with f(1,3) show "restored seq a e t False (clear_fresh a e new u)" by (simp add: restored_def)
qed

lemma restored_backing:
  assumes "restored seq a e (pad_holes n (swa_block_table seq s)) ok (swa_block_table seq s')"
    and "kv_block_size s' = kv_block_size s"
  shows "0 \<le> backing seq p s \<Longrightarrow> backing seq p s' = backing seq p s"
    "\<not> ok \<Longrightarrow> backing seq p s' = backing seq p s"
    "\<not> ok \<Longrightarrow> live (swa_block_table seq s') = live (swa_block_table seq s)"
proof -
  let ?t = "pad_holes n (swa_block_table seq s)" and ?u = "swa_block_table seq s'"
  let ?i = "nat (p div kv_block_size s)"
  have bk: "backing seq p s = id_at ?t ?i" "backing seq p s' = id_at ?u ?i"
    using assms(2) by (simp_all add: backing_def id_at_pad_holes)
  have len: "length ?u = length ?t" using assms(1) by (simp add: restored_def)
  show pos: "backing seq p s' = backing seq p s" if "0 \<le> backing seq p s"
    using that assms(1) len unfolding bk by (auto simp: id_at_def restored_def split: if_splits)
  show "backing seq p s' = backing seq p s" if "\<not> ok"
  proof (cases "0 \<le> backing seq p s")
    case True
    then show ?thesis by (rule pos)
  next
    case False
    then have "\<not> (?i < length ?t \<and> 0 \<le> ?t ! ?i)" unfolding bk by (auto simp: id_at_def)
    moreover have "?i < length ?t \<longrightarrow> ?t ! ?i < 0 \<longrightarrow> ?u ! ?i < 0"
      using that assms(1) by (simp add: restored_def)
    ultimately show ?thesis unfolding bk using len by (auto simp: id_at_def)
  qed
  show "live ?u = live (swa_block_table seq s)" if "\<not> ok"
    using that assms(1) by (simp add: restored_def live_pad_holes)
qed

definition restore_ready :: "int \<Rightarrow> int \<Rightarrow> nat option \<Rightarrow> swa_snap \<Rightarrow> kv_mgr \<Rightarrow> bool" where
  "restore_ready seq up slab ss s \<longleftrightarrow> slab \<noteq> None \<and> ss_bytes ss \<noteq> 0 \<and> 0 < up \<and>
     up mod kv_block_size s = 0 \<and> map_of (seq_blocks s) seq \<noteq> None \<and>
     up div kv_block_size s \<le> int (length (table_of seq s))"

lemma restore_not_ready:
  "\<not> restore_ready seq up slab ss s \<Longrightarrow> swa_snapshot_restore order seq up slab c ss s m = (False, s, m)"
  by (cases slab; cases "map_of (seq_blocks s) seq")
    (auto simp: restore_ready_def swa_snapshot_restore_def Let_def table_of_def)

text \<open>The padded table, the window slots, and the blocks the restore has to take.\<close>

definition padded :: "int \<Rightarrow> kv_mgr \<Rightarrow> int list" where
  "padded seq s = pad_holes (length (table_of seq s)) (swa_block_table seq s)"

definition win_first :: "int \<Rightarrow> kv_mgr \<Rightarrow> nat" where
  "win_first up s = nat (swa_first_live_block up s)"

definition win_end :: "int \<Rightarrow> kv_mgr \<Rightarrow> nat" where
  "win_end up s = nat (up div kv_block_size s)"

lemmas win_defs = padded_def win_first_def win_end_def

definition restore_need :: "int \<Rightarrow> int \<Rightarrow> kv_mgr \<Rightarrow> nat" where
  "restore_need seq up s = holes (win_end up s - win_first up s) (win_first up s) (padded seq s)"

text \<open>The state with the window filled, on which the copy runs.\<close>

definition window_ready :: "int \<Rightarrow> int \<Rightarrow> kv_mgr \<Rightarrow> kv_mgr \<Rightarrow> bool" where
  "window_ready seq up s u \<longleftrightarrow> swa_own {#} u \<and> swa_frame s u \<and>
     (\<forall>q. q \<noteq> seq \<longrightarrow> swa_block_table q u = swa_block_table q s) \<and>
     restored seq (win_first up s) (win_end up s) (padded seq s) True (swa_block_table seq u)"

definition window_undone :: "int \<Rightarrow> int \<Rightarrow> kv_mgr \<Rightarrow> kv_mgr \<Rightarrow> bool" where
  "window_undone seq up s u \<longleftrightarrow> swa_own {#} u \<and> swa_frame s u \<and>
     (\<forall>q. q \<noteq> seq \<longrightarrow> swa_block_table q u = swa_block_table q s) \<and>
     restored seq (win_first up s) (win_end up s) (padded seq s) False (swa_block_table seq u)"

lemma swa_first_live_nonneg: "0 < kv_block_size s \<Longrightarrow> 0 \<le> swa_first_live_block up s"
  by (simp add: swa_first_live_block_def Let_def pos_imp_zdiv_nonneg_iff)

lemma undo_slots_undone:
  assumes own: "swa_own {#} u" and f: "filled a e fr t (swa_block_table seq u)" and e: "a < e \<longrightarrow> e \<le> length t"
  defines "u' \<equiv> fold (undo_slot seq fr) [a..<e] u"
  shows "swa_own {#} u' \<and> swa_frame u u' \<and> (\<forall>q. q \<noteq> seq \<longrightarrow> swa_block_table q u' = swa_block_table q u) \<and>
    restored seq a e t False (swa_block_table seq u')"
proof (cases "a < e")
  case True
  have len: "e \<le> length (swa_block_table seq u)" "\<forall>x \<in> set fr. 0 \<le> x"
    using True e f by (simp_all add: filled_def)
  from undo_slot_outcome [OF own len(2) _ len(1), of a u'] True filled_restored(2) [OF f]
  show ?thesis by (simp add: u'_def)
next
  case False
  then have u': "u' = u" by (simp add: u'_def)
  have "clear_fresh a e fr (swa_block_table seq u) = swa_block_table seq u"
    using False by (intro nth_equalityI) (simp_all add: clear_fresh_def)
  with filled_restored(2) [OF f] own show ?thesis by (simp add: u')
qed

lemma restore_outcome:
  assumes inv: "kv_inv s" and solo: "swa_solo s" and rdy: "restore_ready seq up (Some p) ss s"
    and run: "swa_snapshot_restore order seq up (Some p) c ss s m = (ok, s', m')"
  shows "if restore_need seq up s \<le> free_blocks (kv_swa_pool s)
    then \<exists>u. window_ready seq up s u \<and> swa_snapshot_copy order seq up p False c ss u m = (ok, m') \<and>
      (if ok then s' = u else window_undone seq up s s')
    else \<not> ok \<and> m' = m \<and> window_undone seq up s s'"
proof -
  have bs: "0 < kv_block_size s" using inv by (simp add: kv_inv_def)
  let ?a = "win_first up s" and ?e = "win_end up s" and ?t = "padded seq s"
  define s1 where "s1 = set_swa seq ?t s"
  define k where "k = nat (up div kv_block_size s - swa_first_live_block up s)"
  obtain g where g: "map_of (seq_blocks s) seq = Some g" using rdy by (auto simp: restore_ready_def)
  have tg: "table_of seq s = g" using g by (simp add: table_of_def)
  have kdef: "k = ?e - ?a" using swa_first_live_nonneg [OF bs, of up] by (simp add: k_def win_defs)
  have tb: "swa_block_table seq s1 = ?t" by (simp add: s1_def)
  have own: "swa_own {#} s1"
    using inv solo unfolding s1_def by (intro swa_own_set_swa [where X = "{#}"])
      (simp_all add: swa_own_iff kv_inv_def live_pad_holes padded_def)
  have "?e \<le> length g" using rdy tg by (simp add: restore_ready_def win_defs nat_le_iff)
  moreover have "length g \<le> length ?t" by (simp add: padded_def tg pad_holes_def)
  ultimately have e: "?e \<le> length ?t" by simp
  have len: "0 < k \<longrightarrow> ?a + k \<le> length (swa_block_table seq s1)" using e by (simp add: tb kdef)
  obtain ok1 fr s2 where fill: "restore_fill k ?a seq [] s1 = (ok1, fr, s2)" by (metis prod_cases3)
  note o = restore_filled [OF own len fill, unfolded tb]
  have fl: "filled ?a ?e fr ?t (swa_block_table seq s2)"
  proof (cases "?a \<le> ?e")
    case True
    with o(1) show ?thesis by (simp add: kdef)
  next
    case False
    then have "fr = []" "s2 = s1" using fill by (auto simp: kdef)
    then show ?thesis
      using swa_own_count [OF own, of seq] by (simp add: filled_def tb del: One_nat_def)
  qed
  have ok1: "ok1 = (restore_need seq up s \<le> free_blocks (kv_swa_pool s))"
    using swa_fill_outcome [OF own refl len restore_fill_swa [OF fill]]
    by (simp add: restore_need_def kdef tb) (simp add: s1_def)
  have fr2: "swa_frame s s2" using swa_frame_trans [OF swa_frame_steps(1) o(3) [unfolded s1_def]] .
  have others: "\<And>q. q \<noteq> seq \<Longrightarrow> swa_block_table q s2 = swa_block_table q s" using o(4) by (simp add: s1_def)
  define s3 where "s3 = s2\<lparr>swa_trim_cursor := (swa_trim_cursor s2)(seq \<mapsto>
    max (case swa_trim_cursor s2 seq of None \<Rightarrow> 0 | Some x \<Rightarrow> x) (swa_first_live_block up s))\<rparr>"
  have fill': "restore_fill (nat (up div kv_block_size s - swa_first_live_block up s))
      (nat (swa_first_live_block up s)) seq []
      (set_swa seq (pad_holes (length g) (swa_block_table seq s)) s) = (ok1, fr, s2)"
    using fill unfolding k_def s1_def win_defs tg .
  have r: "swa_snapshot_restore order seq up (Some p) c ss s m =
      (if \<not> ok1 then (False, undo_fresh seq ?a ?e fr s2, m)
       else case swa_snapshot_copy order seq up p False c ss s3 m of (done, m1) \<Rightarrow>
         if done then (True, s3, m1) else (False, fold (undo_slot seq fr) [?a..<?e] s3, m1))"
    using rdy unfolding restore_ready_def tg s3_def win_defs
    by (simp add: swa_snapshot_restore_def g fill' Let_def)
  show ?thesis
  proof (cases ok1)
    case False
    note u = undo_fresh_outcome [OF o(2) fl]
    have "window_undone seq up s (undo_fresh seq ?a ?e fr s2)"
      unfolding window_undone_def u(3)
      using u(1,4) swa_frame_trans [OF fr2 u(2)] others filled_restored(2) [OF fl] by simp
    with r run False ok1 show ?thesis by simp
  next
    case True
    have own3: "swa_own {#} s3" using o(2) by (simp add: swa_own_def s3_def)
    have fr3: "swa_frame s s3" using swa_frame_trans [OF fr2 swa_frame_steps(4)] by (simp add: s3_def)
    have tb3: "swa_block_table q s3 = swa_block_table q s2" for q by (simp add: s3_def)
    have rst: "restored seq ?a ?e ?t True (swa_block_table seq s3)"
      using filled_restored(1) [OF fl] o(5) True by (simp add: tb3 kdef)
    have wr: "window_ready seq up s s3"
      using own3 fr3 others rst by (simp add: window_ready_def tb3)
    obtain d m1 where cp: "swa_snapshot_copy order seq up p False c ss s3 m = (d, m1)" by fastforce
    have "window_undone seq up s (fold (undo_slot seq fr) [?a..<?e] s3)"
      using undo_slots_undone [OF own3, of ?a ?e fr ?t seq] fl e others swa_frame_trans [OF fr3]
      by (simp add: window_undone_def tb3)
    with r run True ok1 cp wr show ?thesis by (cases d) auto
  qed
qed

end
