(* ===== verification/KV_Snapshot_Copy.thy ===== *)
theory KV_Snapshot_Copy
  imports KV_Snapshot_Inv
begin

text \<open>
  The bytes of a window snapshot. A slab holds, for each windowed layer, a K region, a V region
  and the two scale regions: the layer-major interface \<open>slot_layout\<close>, with two of its layers for
  each windowed layer, is interpreted on it. The descriptors of one copy are independent, so the
  batched kernel moves every block of the window, and a pack followed by a restore carries the
  window of one sequence over to another.
\<close>

section \<open>The slab\<close>

definition snap_wf :: "kv_cache \<times> swa_snap \<times> nat \<Rightarrow> bool" where
  "snap_wf x \<longleftrightarrow> (case x of (c, ss, slab) \<Rightarrow>
     slab_offsets c (nat (ss_win_blocks ss)) (ss_layers ss) 0 = (ss_layer_off ss, ss_bytes ss))"

definition snap_layers :: "kv_cache \<times> swa_snap \<times> nat \<Rightarrow> nat" where
  "snap_layers x = (case x of (c, ss, slab) \<Rightarrow> 2 * length (ss_layers ss))"

definition snap_cap :: "kv_cache \<times> swa_snap \<times> nat \<Rightarrow> nat \<Rightarrow> nat" where
  "snap_cap x r = (case x of (c, ss, slab) \<Rightarrow> nat (ss_win_blocks ss))"

definition snap_bytes :: "kv_cache \<Rightarrow> nat \<Rightarrow> nat \<Rightarrow> nat" where
  "snap_bytes c l sec = (if sec < 2 then layer_block_bytes l c else snap_scale_bytes c l)"

definition area_bytes :: "kv_cache \<times> swa_snap \<times> nat \<Rightarrow> nat \<Rightarrow> nat" where
  "area_bytes x r = (case x of (c, ss, slab) \<Rightarrow> snap_bytes c (ss_layers ss ! (r div 2)) (2 * (r mod 2)))"

definition area_k :: "kv_cache \<times> swa_snap \<times> nat \<Rightarrow> nat \<Rightarrow> nat \<Rightarrow> nat" where
  "area_k x r i = (case x of (c, ss, slab) \<Rightarrow> slab + ss_layer_off ss ! (r div 2) +
     (r mod 2) * (2 * (nat (ss_win_blocks ss) * layer_block_bytes (ss_layers ss ! (r div 2)) c)) +
     i * area_bytes x r)"

definition area_v :: "kv_cache \<times> swa_snap \<times> nat \<Rightarrow> nat \<Rightarrow> nat \<Rightarrow> nat" where
  "area_v x r i = area_k x r i + snap_cap x r * area_bytes x r"

lemma slab_offsets_spec:
  "slab_offsets c w ls off = (offs, e) \<Longrightarrow> length offs = length ls \<and>
     (ls \<noteq> [] \<longrightarrow> offs ! 0 = off) \<and> (ls = [] \<longrightarrow> e = off) \<and>
     (\<forall>j < length ls. offs ! j + w * 2 * (layer_block_bytes (ls ! j) c + snap_scale_bytes c (ls ! j)) =
        (if Suc j < length ls then offs ! Suc j else e))"
proof (induction ls arbitrary: off offs e)
  case (Cons l ls)
  obtain os where o: "slab_offsets c w ls (off + w * 2 * (layer_block_bytes l c + snap_scale_bytes c l)) =
      (os, e)" "offs = off # os" using Cons.prems by (auto split: prod.splits)
  note ih = Cons.IH [OF o(1)]
  have "(off # os) ! j + w * 2 * (layer_block_bytes ((l # ls) ! j) c + snap_scale_bytes c ((l # ls) ! j)) =
      (if Suc j < length (l # ls) then (off # os) ! Suc j else e)" if "j < length (l # ls)" for j
  proof (cases j)
    case 0
    with ih show ?thesis by (cases ls) auto
  next
    case (Suc i)
    with ih that show ?thesis by simp
  qed
  with ih show ?case unfolding o(2) by simp
qed auto

interpretation sls: slot_layout snap_wf snap_layers snap_cap area_bytes area_k area_v
proof unfold_locales
  fix x :: "kv_cache \<times> swa_snap \<times> nat" and r b :: nat
  obtain c ss slab where x: "x = (c, ss, slab)" by (cases x)
  show "area_k x r b = area_k x r 0 + b * area_bytes x r" by (simp add: x area_k_def)
  then show "area_v x r b = area_v x r 0 + b * area_bytes x r" by (simp add: area_v_def)
  show "area_v x r 0 = area_k x r 0 + snap_cap x r * area_bytes x r" by (simp add: area_v_def)
  show "area_k x (Suc r) 0 = area_v x r 0 + snap_cap x r * area_bytes x r"
    if wf: "snap_wf x" and r: "Suc r < snap_layers x"
  proof (cases "even r")
    case True
    then have "Suc r div 2 = r div 2" "r mod 2 = 0" "Suc r mod 2 = 1" by presburger+
    then show ?thesis by (simp add: x area_k_def area_v_def snap_cap_def area_bytes_def snap_bytes_def)
  next
    case False
    then have d: "Suc r div 2 = Suc (r div 2)" "r mod 2 = 1" "Suc r mod 2 = 0" by presburger+
    have "Suc (r div 2) < length (ss_layers ss)" using r False unfolding snap_layers_def x by simp presburger
    with slab_offsets_spec [of c "nat (ss_win_blocks ss)" "ss_layers ss" 0 "ss_layer_off ss" "ss_bytes ss"] wf
    show ?thesis
      by (simp add: x d area_k_def area_v_def snap_cap_def area_bytes_def snap_bytes_def snap_wf_def
          algebra_simps)
  qed
qed

text \<open>The slot of section \<open>sec\<close> (K, V, K scales, V scales) of window block \<open>i\<close> of windowed layer \<open>j\<close>.\<close>

definition slab_slot :: "kv_cache \<Rightarrow> swa_snap \<Rightarrow> nat \<Rightarrow> nat \<times> nat \<times> nat \<Rightarrow> nat" where
  "slab_slot c ss slab x =
     (case x of (j, i, sec) \<Rightarrow> sls.slot (c, ss, slab) (sec mod 2 = 1) (2 * j + sec div 2) i)"

lemma sec_cases: "sec < 4 \<Longrightarrow> sec = 0 \<or> sec = 1 \<or> sec = 2 \<or> sec = 3" for sec :: nat
  by linarith

lemma sec_split:
  fixes sec sec' j j' :: nat
  assumes "sec < 4" "sec' < 4" "2 * j + sec div 2 = 2 * j' + sec' div 2" "(sec mod 2 = 1) = (sec' mod 2 = 1)"
  shows "j = j' \<and> sec = sec'"
proof -
  have q: "sec div 2 < 2" "sec' div 2 < 2" using assms(1,2) by simp_all
  have "(2 * j + sec div 2) div 2 = j" "(2 * j' + sec' div 2) div 2 = j'" using q by simp_all
  then have j: "j = j'" using assms(3) by simp
  then have "sec div 2 = sec' div 2" using assms(3) by simp
  moreover have "sec mod 2 = sec' mod 2" using assms(4) by (simp add: mod2_eq_if split: if_splits)
  ultimately show ?thesis using j by (metis div_mult_mod_eq)
qed

lemma area_bytes_slot: "sec < 4 \<Longrightarrow> area_bytes (c, ss, slab) (2 * j + sec div 2) = snap_bytes c (ss_layers ss ! j) sec"
  by (drule sec_cases) (auto simp: area_bytes_def snap_bytes_def)

lemma slab_slots_apart:
  assumes "snap_wf (c, ss, slab)" "j < length (ss_layers ss)" "j' < length (ss_layers ss)"
    and "i < nat (ss_win_blocks ss)" "i' < nat (ss_win_blocks ss)" "sec < 4" "sec' < 4"
    and "(j, i, sec) \<noteq> (j', i', sec')"
  shows "sep (slab_slot c ss slab (j, i, sec)) (snap_bytes c (ss_layers ss ! j) sec)
    (slab_slot c ss slab (j', i', sec')) (snap_bytes c (ss_layers ss ! j') sec')"
proof -
  have "(sec mod 2 = 1, 2 * j + sec div 2, i) \<noteq> (sec' mod 2 = 1, 2 * j' + sec' div 2, i')"
    using assms(8) sec_split [OF assms(6,7), of j j'] by blast
  from sls.slots_apart [OF assms(1) _ _ _ _ this] assms(2-7) show ?thesis
    by (simp add: slab_slot_def snap_layers_def snap_cap_def area_bytes_slot)
qed

lemma slab_slot_inside:
  assumes "snap_wf (c, ss, slab)" "j < length (ss_layers ss)" "i < nat (ss_win_blocks ss)" "sec < 4"
  shows "slab \<le> slab_slot c ss slab (j, i, sec)"
    "slab_slot c ss slab (j, i, sec) + snap_bytes c (ss_layers ss ! j) sec \<le> slab + ss_bytes ss"
proof -
  let ?x = "(c, ss, slab)"
  have r: "2 * j + sec div 2 < snap_layers ?x" using assms(2,4) by (simp add: snap_layers_def)
  obtain n where n: "length (ss_layers ss) = Suc n" using assms(2) by (cases "length (ss_layers ss)") simp_all
  note o = slab_offsets_spec [of c "nat (ss_win_blocks ss)" "ss_layers ss" 0 "ss_layer_off ss" "ss_bytes ss"]
  have o': "ss_layer_off ss ! 0 = 0" "ss_layer_off ss ! n + nat (ss_win_blocks ss) * 2 *
      (layer_block_bytes (ss_layers ss ! n) c + snap_scale_bytes c (ss_layers ss ! n)) = ss_bytes ss"
    using o assms(1) n by (auto simp: snap_wf_def)
  have st: "area_k ?x 0 0 = slab" by (simp add: area_k_def o')
  have "Suc (2 * n) div 2 = n" "Suc (2 * n) mod 2 = 1" by presburger+
  then have en: "sls.span_end ?x = slab + ss_bytes ss"
    using o'(2) by (simp add: sls.span_end_def snap_layers_def n area_v_def area_k_def snap_cap_def
        area_bytes_def snap_bytes_def algebra_simps)
  have "i < snap_cap ?x (2 * j + sec div 2)" using assms(3) by (simp add: snap_cap_def)
  note s = sls.slot_in_span [OF assms(1) r this]
  show "slab \<le> slab_slot c ss slab (j, i, sec)" using s(1) by (simp add: slab_slot_def st)
  show "slab_slot c ss slab (j, i, sec) + snap_bytes c (ss_layers ss ! j) sec \<le> slab + ss_bytes ss"
    using s(2) assms(4) by (simp add: slab_slot_def en area_bytes_slot)
qed

section \<open>Descriptors\<close>

definition snap_desc :: "bool \<Rightarrow> kv_cache \<Rightarrow> swa_snap \<Rightarrow> nat \<Rightarrow> int list \<Rightarrow> nat \<times> nat \<times> nat \<Rightarrow> copy_desc" where
  "snap_desc to_slab c ss slab ids x = (case x of (j, i, sec) \<Rightarrow>
     let l = ss_layers ss ! j; cache_ptr = sec_addr c l sec (nat (ids ! i)); slab_ptr = slab_slot c ss slab x
     in \<lparr>cd_src = (if to_slab then cache_ptr else slab_ptr), cd_dst = (if to_slab then slab_ptr else cache_ptr),
         cd_bytes = snap_bytes c l sec\<rparr>)"

definition used_secs :: "kv_cache \<Rightarrow> nat \<Rightarrow> nat list" where
  "used_secs c l = filter (\<lambda>sec. snap_bytes c l sec \<noteq> 0) [0, 1, 2, 3]"

lemma slot_descs_eq:
  "slot_descs to_slab c ss slab j (nat (ids ! i)) i =
     map (\<lambda>sec. snap_desc to_slab c ss slab ids (j, i, sec)) (used_secs c (ss_layers ss ! j))"
proof -
  have "2 * j + 1 = Suc (2 * j)" "Suc (2 * j) div 2 = j" "Suc (2 * j) mod 2 = 1" by simp_all
  then show ?thesis
    by (simp add: slot_descs_def put_desc_def used_secs_def snap_desc_def slab_slot_def sls.slot_def
        area_v_def area_k_def area_bytes_def snap_bytes_def snap_cap_def sec_addr_def kv_addr_def
        scale_addr_def k_scale_at_def v_scale_at_def Let_def algebra_simps)
qed

lemma window_descs_eq:
  "window_descs f tol ids i k =
     (if \<forall>x \<in> {i..<i + k}. ids ! x < 0 \<longrightarrow> tol x
      then Some (concat (map (\<lambda>x. if ids ! x < 0 then [] else f (nat (ids ! x)) x) [i..<i + k]))
      else None)"
proof (induction k arbitrary: i)
  case (Suc k)
  have s: "{i..<i + Suc k} = insert i {Suc i..<Suc i + k}" "[i..<i + Suc k] = i # [Suc i..<Suc i + k]"
    by (auto simp: upt_conv_Cons)
  show ?case unfolding s using Suc.IH [of "Suc i"] by (simp add: Let_def)
qed simp

lemma layer_descs_eq:
  "layer_descs w j k =
     (if \<forall>x \<in> {j..<j + k}. w x \<noteq> None then Some (concat (map (\<lambda>x. the (w x)) [j..<j + k])) else None)"
proof (induction k arbitrary: j)
  case (Suc k)
  have s: "{j..<j + Suc k} = insert j {Suc j..<Suc j + k}" "[j..<j + Suc k] = j # [Suc j..<Suc j + k]"
    by (auto simp: upt_conv_Cons)
  show ?case unfolding s using Suc.IH [of "Suc j"] by (simp split: option.split)
qed simp

text \<open>The copies in the order in which the loops emit them.\<close>

definition copy_index :: "kv_cache \<Rightarrow> nat list \<Rightarrow> int list \<Rightarrow> nat \<Rightarrow> (nat \<times> nat \<times> nat) list" where
  "copy_index c ls ids n = concat (map (\<lambda>j. map (Pair j) (concat (map (\<lambda>i. map (Pair i)
     (if ids ! i < 0 then [] else used_secs c (ls ! j))) [0..<n]))) [0..<length ls])"

lemma set_used_secs: "set (used_secs c l) = {sec. sec < 4 \<and> snap_bytes c l sec \<noteq> 0}"
proof -
  have "set [0, 1, 2, 3 :: nat] = {sec. sec < 4}" using sec_cases by auto
  then show ?thesis unfolding used_secs_def set_filter by blast
qed

lemma tagged_mem: "(x, y) \<in> set (concat (map (\<lambda>j. map (Pair j) (f j)) [0..<n])) \<longleftrightarrow> x < n \<and> y \<in> set (f x)"
  by (induction n) (auto simp: less_Suc_eq)

lemma tagged_distinct:
  "distinct xs \<Longrightarrow> (\<And>x. distinct (f x)) \<Longrightarrow> distinct (concat (map (\<lambda>x. map (Pair x) (f x)) xs))"
  by (induction xs) (auto simp: distinct_map inj_on_def)

lemma tagged_length:
  "(\<And>j. length (f j) \<le> b) \<Longrightarrow> length (concat (map (\<lambda>j. map (Pair j) (f j)) [0..<n])) \<le> n * b"
proof (induction n)
  case (Suc n)
  have "length (f n) \<le> b" "length (concat (map (\<lambda>j. map (Pair j) (f j)) [0..<n])) \<le> n * b"
    using Suc by blast+
  then show ?case by (simp del: length_concat)
qed simp

lemma set_copy_index:
  "(j, i, sec) \<in> set (copy_index c ls ids n) \<longleftrightarrow>
     j < length ls \<and> i < n \<and> 0 \<le> ids ! i \<and> sec < 4 \<and> snap_bytes c (ls ! j) sec \<noteq> 0"
  unfolding copy_index_def tagged_mem by (auto simp: set_used_secs)

lemma distinct_copy_index: "distinct (copy_index c ls ids n)"
  unfolding copy_index_def by (intro tagged_distinct) (auto simp: used_secs_def)

lemma length_copy_index: "length (copy_index c ls ids n) \<le> length ls * n * 4"
proof -
  have "length (used_secs c l) \<le> 4" for l
    using length_filter_le [of "\<lambda>sec. snap_bytes c l sec \<noteq> 0" "[0, 1, 2, 3]"] by (simp add: used_secs_def)
  then have "length (if ids ! i < 0 then [] else used_secs c l) \<le> 4" for i l by simp
  then show ?thesis unfolding copy_index_def mult.assoc by (intro tagged_length)
qed

lemma snapshot_descs_eq:
  assumes "ls = ss_layers ss"
  shows "layer_descs (\<lambda>j. window_descs (\<lambda>b i. slot_descs to_slab c ss slab j b i) tol ids 0 n) 0 (length ls) =
    (if ls = [] \<or> (\<forall>i < n. ids ! i < 0 \<longrightarrow> tol i)
     then Some (map (snap_desc to_slab c ss slab ids) (copy_index c ls ids n)) else None)"
proof -
  have "concat (map (\<lambda>x. if ids ! x < 0 then [] else slot_descs to_slab c ss slab j (nat (ids ! x)) x) [0..<n]) =
      map (snap_desc to_slab c ss slab ids) (map (Pair j) (concat (map (\<lambda>i. map (Pair i)
        (if ids ! i < 0 then [] else used_secs c (ss_layers ss ! j))) [0..<n])))" for j
    by (simp add: map_concat slot_descs_eq comp_def if_distrib cong: if_cong)
  then show ?thesis
    unfolding assms window_descs_eq layer_descs_eq copy_index_def
    by (auto simp: map_concat comp_def)
qed

section \<open>The window\<close>

definition snap_ok :: "kv_cache \<Rightarrow> kv_mgr \<Rightarrow> swa_snap \<Rightarrow> bool" where
  "snap_ok c s ss \<longleftrightarrow> 0 < swa_window s \<and>
     ss_layers ss = filter (\<lambda>l. cache_layer_is_swa l c) [0..<kc_n_layers c] \<and>
     ss_win_blocks ss = (swa_window s + swa_slack s + kv_block_size s - 1) div kv_block_size s + 1 \<and>
     snap_wf (c, ss, 0) \<and> ss_desc_cap ss = length (ss_layers ss) * nat (ss_win_blocks ss) * 4 \<and>
     0 < ss_bytes ss"

lemma enable_snap_ok:
  assumes "enable_swa_snapshots d c s swa_snap_new = (True, ss)" "0 < ss_bytes ss"
  shows "snap_ok c s ss"
  using assms
  by (auto simp: enable_swa_snapshots_def swa_snap_new_def snap_ok_def snap_wf_def Let_def
      split: if_splits prod.splits)

lemma snap_ok_frame:
  "swa_window s' = swa_window s \<Longrightarrow> swa_slack s' = swa_slack s \<Longrightarrow> kv_block_size s' = kv_block_size s \<Longrightarrow>
     snap_ok c s ss \<Longrightarrow> snap_ok c s' ss"
  by (simp add: snap_ok_def)

lemma ceil_div_mult: "0 < b \<Longrightarrow> y \<le> (y + b - 1) div b * b" for y b :: int
  using int_div_less_iff [of b "y + b - 1" "(y + b - 1) div b + 1"] by (simp add: algebra_simps)

lemma ceil_div_sub: "0 < b \<Longrightarrow> e - (y + b - 1) div b \<le> (e * b - y) div b" for e y b :: int
proof -
  assume b: "0 < b"
  have "(e - (y + b - 1) div b) * b \<le> e * b - y" using ceil_div_mult [OF b, of y] by (simp add: algebra_simps)
  then show ?thesis
    using int_div_less_iff [OF b, of "e * b - y" "e - (y + b - 1) div b"] by linarith
qed

lemma window_count:
  assumes ok: "snap_ok c s ss" and sl: "0 \<le> swa_slack s" and bs: "0 < kv_block_size s"
    and up: "0 < up" "up mod kv_block_size s = 0"
  shows "0 \<le> swa_first_live_block up s" "swa_first_live_block up s < up div kv_block_size s"
    "up div kv_block_size s - swa_first_live_block up s \<le> ss_win_blocks ss"
proof -
  define b where "b = kv_block_size s"
  define y where "y = swa_window s + swa_slack s"
  define e where "e = up div b"
  have b: "0 < b" "b = kv_block_size s" using bs by (simp_all add: b_def)
  have y: "0 < y" using ok sl by (simp add: y_def snap_ok_def)
  have ue: "up = e * b" using up(2) by (simp add: e_def b_def mod_eq_0_iff_dvd)
  have f: "swa_first_live_block up s = (if 0 < up - y then (up - y) div b else 0)"
    by (simp add: swa_first_live_block_def Let_def y_def b_def algebra_simps)
  have w: "ss_win_blocks ss = (y + b - 1) div b + 1" using ok by (simp add: snap_ok_def y_def b_def)
  show "0 \<le> swa_first_live_block up s" by (rule swa_first_live_nonneg [OF bs])
  have e: "0 < e" using up(1) b(1) unfolding ue by (simp add: zero_less_mult_iff)
  have "swa_first_live_block up s < e"
    unfolding f using e y b(1) int_div_less_iff [OF b(1), of "up - y" e] by (simp add: ue)
  then show "swa_first_live_block up s < up div kv_block_size s" by (simp add: e_def b_def)
  have "e - swa_first_live_block up s \<le> (y + b - 1) div b + 1"
  proof (cases "0 < up - y")
    case True
    then show ?thesis unfolding f using ceil_div_sub [OF b(1), of e y] by (simp add: ue)
  next
    case False
    then have "up \<le> y + b - 1" using b(1) by simp
    then have "e \<le> (y + b - 1) div b" unfolding e_def using b(1) by (rule zdiv_mono1)
    with False show ?thesis unfolding f by simp
  qed
  then show "up div kv_block_size s - swa_first_live_block up s \<le> ss_win_blocks ss"
    by (simp add: w e_def b_def)
qed

text \<open>The first slot a query at or after \<open>up\<close> can read, with one more block below it.\<close>

definition needed_start :: "int \<Rightarrow> kv_mgr \<Rightarrow> nat" where
  "needed_start up s =
     nat (max (swa_first_live_block up s) ((up - swa_window s) sdiv kv_block_size s - 1))"

lemma sdiv_le_div: "0 < b \<Longrightarrow> 0 \<le> u \<Longrightarrow> 0 \<le> w \<Longrightarrow> (u - w) sdiv b \<le> u div b" for u w b :: int
proof (cases "0 \<le> u - w")
  case True
  assume "0 < b" "0 \<le> w"
  then show ?thesis using True by (simp add: sdiv_nonneg zdiv_mono1)
next
  case False
  assume b: "0 < b" "0 \<le> u"
  then have "(u - w) sdiv b \<le> 0"
    using False by (simp add: signed_divide_int_def sgn_if pos_imp_zdiv_nonneg_iff)
  moreover have "0 \<le> u div b" using b by (simp add: pos_imp_zdiv_nonneg_iff)
  ultimately show ?thesis by simp
qed

lemma needed_start_range:
  assumes ok: "snap_ok c s ss" and sl: "0 \<le> swa_slack s" and bs: "0 < kv_block_size s"
    and up: "0 < up" "up mod kv_block_size s = 0"
  shows "win_first up s \<le> needed_start up s" "needed_start up s < win_end up s"
proof -
  note w = window_count [OF assms]
  show "win_first up s \<le> needed_start up s" by (simp add: win_first_def needed_start_def)
  have "(up - swa_window s) sdiv kv_block_size s \<le> up div kv_block_size s"
    using ok bs up(1) by (intro sdiv_le_div) (simp_all add: snap_ok_def)
  with w show "needed_start up s < win_end up s" by (simp add: win_end_def needed_start_def)
qed

lemma needed_start_window:
  assumes "0 < kv_block_size s" "0 \<le> swa_slack s" "0 \<le> p" "up - swa_window s \<le> p"
  shows "needed_start up s \<le> nat (p div kv_block_size s)"
proof -
  let ?b = "kv_block_size s"
  have "swa_first_live_block up s \<le> p div ?b"
    using assms by (simp add: swa_first_live_block_def Let_def zdiv_mono1 pos_imp_zdiv_nonneg_iff)
  moreover have "(up - swa_window s) sdiv ?b - 1 \<le> p div ?b"
  proof (cases "0 \<le> up - swa_window s")
    case True
    have "(up - swa_window s) div ?b \<le> p div ?b" using assms(4,1) by (rule zdiv_mono1)
    with True assms(1) show ?thesis by (simp add: sdiv_nonneg)
  next
    case False
    then have "(up - swa_window s) sdiv ?b \<le> 0"
      using assms(1) by (simp add: signed_divide_int_def sgn_if pos_imp_zdiv_nonneg_iff)
    moreover have "0 \<le> p div ?b" using assms(1,3) by (simp add: pos_imp_zdiv_nonneg_iff)
    ultimately show ?thesis by simp
  qed
  ultimately show ?thesis by (simp add: needed_start_def)
qed

section \<open>One copy\<close>

lemma slab_offsets_empty:
  "\<forall>l \<in> set ls. layer_block_bytes l c + snap_scale_bytes c l = 0 \<Longrightarrow> snd (slab_offsets c w ls off) = off"
  by (induction ls arbitrary: off) (simp_all add: split_beta)

lemma copy_index_nonempty:
  assumes wf: "snap_wf (c, ss, 0)" and sz: "0 < ss_bytes ss" and i: "i < n" "0 \<le> ids ! i"
  shows "copy_index c (ss_layers ss) ids n \<noteq> []"
proof -
  let ?ls = "ss_layers ss"
  have "\<exists>j < length ?ls. layer_block_bytes (?ls ! j) c + snap_scale_bytes c (?ls ! j) \<noteq> 0"
  proof (rule ccontr)
    assume "\<not> ?thesis"
    then have "\<forall>l \<in> set ?ls. layer_block_bytes l c + snap_scale_bytes c l = 0"
      by (metis in_set_conv_nth)
    from slab_offsets_empty [OF this, of "nat (ss_win_blocks ss)" 0] wf sz show False
      by (simp add: snap_wf_def)
  qed
  then obtain j where j: "j < length ?ls" "snap_bytes c (?ls ! j) 0 \<noteq> 0 \<or> snap_bytes c (?ls ! j) 2 \<noteq> 0"
    by (auto simp: snap_bytes_def)
  then have "(j, i, 0) \<in> set (copy_index c ?ls ids n) \<or> (j, i, 2) \<in> set (copy_index c ?ls ids n)"
    using i by (simp add: set_copy_index)
  then show ?thesis by auto
qed

lemma snapshot_copy_eq:
  fixes to_slab :: bool and p :: nat and m :: mem
  assumes ok: "snap_ok c s ss" and sl: "0 \<le> swa_slack s" and bs: "0 < kv_block_size s"
    and up: "0 < up" "up mod kv_block_size s = 0"
    and t: "swa_block_table seq s = t" "win_end up s \<le> length t"
  defines "ids \<equiv> drop (win_first up s) t"
  defines "n \<equiv> win_end up s - win_first up s"
  defines "hole \<equiv> \<exists>b \<in> {win_first up s..<needed_start up s}. t ! b < 0"
  defines "m1 \<equiv> (if to_slab \<and> hole then zero_range p (ss_bytes ss) m else m)"
  shows "swa_snapshot_copy order seq up p to_slab c ss s m =
    (if \<forall>b \<in> {(if to_slab then needed_start up s else win_first up s)..<win_end up s}. 0 \<le> t ! b
     then (True, batched_copy_device order (map (snap_desc to_slab c ss p ids)
       (copy_index c (ss_layers ss) ids n)) m1)
     else (False, m1))"
proof -
  note w = window_count [OF ok sl bs up] and nr = needed_start_range [OF ok sl bs up]
  define first where "first = swa_first_live_block up s"
  define e where "e = up div kv_block_size s"
  define nd where "nd = max first ((up - swa_window s) sdiv kv_block_size s - 1)"
  have f: "0 \<le> first" "first < e" "e - first \<le> ss_win_blocks ss" using w by (simp_all add: first_def e_def)
  have wd: "win_first up s = nat first" "win_end up s = nat e" "needed_start up s = nat nd"
    by (simp_all add: win_first_def win_end_def needed_start_def first_def e_def nd_def)
  have nn: "nat (e - first) = n" using f by (simp add: n_def wd)
  have nd0: "0 \<le> nd" using f(1) by (simp add: nd_def)
  have "t \<noteq> []" using t(2) f by (auto simp: wd)
  then have mo: "map_of (seq_swa_blocks s) seq = Some t"
    using t(1) by (auto simp: swa_block_table_def split: option.splits)
  have len: "\<not> int (length t) < e" using t(2) by (simp add: wd nat_le_iff)
  have ids: "ids ! i = t ! (nat first + i)" if "i < n" for i
    using that t(2) by (simp add: ids_def n_def wd)
  define tol where "tol = (\<lambda>i. to_slab \<and> (to_slab \<and> hole) \<and> first + int i < nd)"
  have tol: "(\<forall>i < n. ids ! i < 0 \<longrightarrow> tol i) \<longleftrightarrow>
      (\<forall>b \<in> {(if to_slab then nat nd else nat first)..<nat e}. 0 \<le> t ! b)"
  proof (intro iffI ballI allI impI)
    fix b assume a: "\<forall>i < n. ids ! i < 0 \<longrightarrow> tol i" and b: "b \<in> {(if to_slab then nat nd else nat first)..<nat e}"
    have fb: "nat first \<le> b" "b < nat e" using b nr(1) by (auto simp: wd split: if_splits)
    then have i: "b - nat first < n" "nat first + (b - nat first) = b" by (simp_all add: n_def wd)
    show "0 \<le> t ! b"
    proof (rule ccontr)
      assume "\<not> 0 \<le> t ! b"
      then have "tol (b - nat first)" using a i ids [OF i(1)] by simp
      with b fb f(1) show False by (auto simp: tol_def)
    qed
  next
    fix i assume a: "\<forall>b \<in> {(if to_slab then nat nd else nat first)..<nat e}. 0 \<le> t ! b"
      and i: "i < n" "ids ! i < 0"
    have b: "nat first + i < nat e" "t ! (nat first + i) < 0" using i ids [OF i(1)] by (simp_all add: n_def wd)
    then have "nat first + i \<notin> {(if to_slab then nat nd else nat first)..<nat e}" using a by force
    with b have h: "to_slab" "nat first + i < nat nd" by (auto split: if_splits)
    then have hole unfolding hole_def wd using b(2) by (intro bexI [of _ "nat first + i"]) simp_all
    with h f(1) show "tol i" by (simp add: tol_def)
  qed
  have ne: "copy_index c (ss_layers ss) ids n \<noteq> []"
    if "\<forall>b \<in> {(if to_slab then nat nd else nat first)..<nat e}. 0 \<le> t ! b"
  proof -
    have n: "n - 1 < n" using f by (simp add: n_def wd)
    have "nat first + (n - 1) \<in> {(if to_slab then nat nd else nat first)..<nat e}"
      using nr f by (auto simp: n_def wd)
    with that ids [OF n] have "0 \<le> ids ! (n - 1)" by simp
    with n ok show ?thesis by (intro copy_index_nonempty) (simp_all add: snap_ok_def)
  qed
  have cap: "length (copy_index c (ss_layers ss) ids n) \<le> ss_desc_cap ss"
  proof -
    have "n \<le> nat (ss_win_blocks ss)" using f(3) by (simp add: nn [symmetric] nat_mono)
    then have "length (ss_layers ss) * n * 4 \<le> ss_desc_cap ss" using ok by (simp add: snap_ok_def)
    with length_copy_index show ?thesis by (rule order.trans)
  qed
  have ls: "ss_layers ss \<noteq> []" using ok by (auto simp: snap_ok_def snap_wf_def)
  have "swa_snapshot_copy order seq up p to_slab c ss s m =
     (case layer_descs (\<lambda>j. window_descs (\<lambda>b i. slot_descs to_slab c ss p j b i) tol ids 0 n) 0
         (length (ss_layers ss)) of
        None \<Rightarrow> (False, m1)
      | Some ds \<Rightarrow> if ds = [] \<or> ss_desc_cap ss < length ds then (False, m1)
          else (True, batched_copy_device order ds m1))"
    using up f len nd0 unfolding swa_snapshot_copy_def Let_def mo option.case
      first_def [symmetric] e_def [symmetric] nd_def [symmetric] nn
      tol_def m1_def hole_def wd ids_def by (simp cong: if_cong option.case_cong)
  also have "\<dots> = (if \<forall>b \<in> {(if to_slab then nat nd else nat first)..<nat e}. 0 \<le> t ! b
     then (True, batched_copy_device order (map (snap_desc to_slab c ss p ids)
       (copy_index c (ss_layers ss) ids n)) m1) else (False, m1))"
    unfolding snapshot_descs_eq [OF refl] tol using ls ne cap by auto
  finally show ?thesis unfolding wd .
qed

end
