(* ===== verification/KV_Window.thy ===== *)
theory KV_Window
  imports KV_Snapshot_Copy
begin

text \<open>
  What window snapshots promise. Packing copies the window blocks of a sequence into a slab,
  restoring copies a slab into the window blocks of a sequence: the positions a later query can
  read come back byte for byte, in another sequence and other blocks, and no other sequence is
  touched. A restore succeeds exactly when the group has enough free blocks, and a failed one
  changes no backing.
\<close>

section \<open>Slab, pools and block ids\<close>

text \<open>The slab does not overlap the pools of the cache.\<close>

definition slab_apart :: "(nat \<Rightarrow> nat \<Rightarrow> nat option) \<Rightarrow> kv_cache \<Rightarrow> swa_snap \<Rightarrow> nat \<Rightarrow> bool" where
  "slab_apart alloc c ss p \<longleftrightarrow>
     (\<forall>n. alloc 0 n = Some (kc_pool c) \<longrightarrow> sep p (ss_bytes ss) (kc_pool c) n) \<and>
     (\<forall>sp n. kc_scale_pool c = Some sp \<longrightarrow> alloc 1 n = Some sp \<longrightarrow> sep p (ss_bytes ss) sp n)"

text \<open>The manager's window pool is the one of the cache.\<close>

definition swa_over :: "kv_cache \<Rightarrow> kv_mgr \<Rightarrow> bool" where
  "swa_over c s \<longleftrightarrow> block_ids (kv_swa_pool s) = {0..<int (kc_swa_max_blocks c)}"

lemma sec_slab_apart:
  assumes bt: "kv_built alloc c" and sa: "slab_apart alloc c ss p"
    and l: "l < kc_n_layers c" "b < cache_capacity c l"
    and sec: "sec < (if kc_scale_pool c = None then 2 else 4)"
    and x: "p \<le> x" "x + k \<le> p + ss_bytes ss"
  shows "sep (sec_addr c l sec b) (raw_bytes c l sec) x k"
proof -
  have po: "pools_ok alloc c" using kv_built_pools [OF bt] .
  have nl: "0 < kc_n_layers c" using l(1) by simp
  have ok: "kv_layout_ok c" "alloc 0 (kvs.span_end c - kc_pool c) = Some (kc_pool c)"
    using po by (simp_all add: pools_ok_def)
  show ?thesis
  proof (cases "sec < 2")
    case True
    note kv = kvs.slot_in_span [OF ok(1) l, of "sec = 1", unfolded slot_addrs kv_pool_start [OF ok(1) nl]]
    have "sep p (ss_bytes ss) (kc_pool c) (kvs.span_end c - kc_pool c)" using sa ok(2) by (simp add: slab_apart_def)
    with kv(1) span_fits [OF kv] x True show ?thesis by (auto simp: sep_def sec_addr_def raw_bytes_def)
  next
    case False
    then obtain sp where sp: "kc_scale_pool c = Some sp" using sec by (auto split: if_splits)
    have s: "scale_layout_ok c" "alloc 1 (scs.span_end c - sp) = Some sp" using po sp by (simp_all add: pools_ok_def)
    have "k_scale_at c 0 0 = sp" using scale_pool_start [OF s(1) nl] sp by simp
    note sc = scs.slot_in_span [OF s(1) l, of "sec = 3", unfolded slot_addrs this]
    have "sep p (ss_bytes ss) sp (scs.span_end c - sp)" using sa sp s(2) by (simp add: slab_apart_def)
    with sc(1) span_fits [OF sc] x False show ?thesis by (auto simp: sep_def sec_addr_def raw_bytes_def)
  qed
qed

lemma snap_bytes_raw:
  assumes "snap_bytes c l sec \<noteq> 0" "sec < 4"
  shows "snap_bytes c l sec = raw_bytes c l sec" "sec < (if kc_scale_pool c = None then 2 else 4)"
proof -
  have "snap_scale_bytes c l = (if kc_scale_pool c = None then 0 else layer_scale_block_bytes l c)"
    by (simp add: snap_scale_bytes_def k_scale_ptr_def split: option.split)
  then show "snap_bytes c l sec = raw_bytes c l sec" "sec < (if kc_scale_pool c = None then 2 else 4)"
    using assms by (auto simp: snap_bytes_def raw_bytes_def split: if_splits)
qed

lemma capacity_swa:
  "cache_layer_is_swa l c \<Longrightarrow> 0 < kc_swa_max_blocks c \<Longrightarrow> cache_capacity c l = kc_swa_max_blocks c"
  by (simp add: cache_capacity_def layer_capacity_def cache_layer_is_swa_def)

section \<open>No block in two slots\<close>

lemma live_nth_inj:
  assumes "\<And>b. count (mset (live t)) b \<le> 1" "i < length t" "j < length t" "t ! i = t ! j" "0 \<le> t ! i"
  shows "i = j"
proof (rule ccontr)
  assume ne: "i \<noteq> j"
  have "mset (live t) = add_mset (t ! i) (mset (live (t[i := -1])))" by (rule live_update_hole [OF assms(2,5)])
  moreover have "t ! j \<in># mset (live (t[i := -1]))"
    using live_member [of j "t[i := -1]"] assms ne by simp
  then have "0 < count (mset (live (t[i := -1]))) (t ! i)" using assms(4) by simp
  ultimately have "2 \<le> count (mset (live t)) (t ! i)" by simp
  with assms(1) [of "t ! i"] show False by simp
qed

lemma swa_slots_unique:
  assumes own: "swa_own {#} s" and i: "i < length (swa_block_table q s)" "j < length (swa_block_table r s)"
    and eq: "swa_block_table q s ! i = swa_block_table r s ! j" "0 \<le> swa_block_table q s ! i"
  shows "q = r \<and> i = j"
proof (cases "q = r")
  case True
  then show ?thesis using live_nth_inj [OF swa_own_count [OF own]] assms by blast
next
  case False
  obtain t u where tu: "map_of (seq_swa_blocks s) q = Some t" "map_of (seq_swa_blocks s) r = Some u"
    using i by (auto simp: swa_block_table_def split: option.splits)
  let ?al = "seq_swa_blocks s"
  have d: "distinct (map fst ?al)" "\<And>b. count (table_refs ?al) b \<le> 1"
    using own by (simp_all add: swa_own_def)
  have d': "distinct (map fst (AList.delete q ?al))" using d(1) by (rule distinct_delete)
  have u': "map_of (AList.delete q ?al) r = Some u" using tu(2) False by (simp add: delete_conv')
  have "table_refs ?al = mset (live t) + (mset (live u) + table_refs (AList.delete r (AList.delete q ?al)))"
    unfolding table_refs_delete [OF d(1) tu(1)] table_refs_delete [OF d' u'] ..
  moreover have "t ! i \<in># mset (live t)" "t ! i \<in># mset (live u)"
    using live_member [of i t] live_member [of j u] i eq tu by (simp_all add: swa_block_table_def)
  then have "0 < count (mset (live t)) (t ! i)" "0 < count (mset (live u)) (t ! i)" by simp_all
  ultimately have "2 \<le> count (table_refs ?al) (t ! i)"
    by (simp del: count_greater_zero_iff)
  with d(2) [of "t ! i"] show ?thesis by simp
qed

lemma swa_id_range:
  assumes "swa_own {#} s" "swa_over c s" "i < length (swa_block_table q s)" "0 \<le> swa_block_table q s ! i"
  shows "nat (swa_block_table q s ! i) < kc_swa_max_blocks c"
proof -
  have "swa_block_table q s ! i \<in># table_refs (seq_swa_blocks s)"
    using assms(1,3,4) live_member [OF assms(3,4)] by (auto simp: swa_refs_mem swa_own_def)
  then have "swa_block_table q s ! i \<in> block_ids (kv_swa_pool s)"
    using assms(1) by (intro pool_ownedD(2)) (simp_all add: swa_own_def)
  with assms(2,4) show ?thesis by (simp add: swa_over_def)
qed

section \<open>The copies of one snapshot\<close>

text \<open>The window slots \<open>ids\<close> of a table: blocks of the group, none of them twice.\<close>

definition ids_ok :: "kv_cache \<Rightarrow> int list \<Rightarrow> nat \<Rightarrow> bool" where
  "ids_ok c ids n \<longleftrightarrow> (\<forall>i < n. 0 \<le> ids ! i \<longrightarrow> nat (ids ! i) < kc_swa_max_blocks c) \<and>
     (\<forall>i < n. \<forall>j < n. 0 \<le> ids ! i \<and> ids ! i = ids ! j \<longrightarrow> i = j)"

lemma window_ids_ok:
  assumes "swa_own {#} s" "swa_over c s" "a + n \<le> length (swa_block_table q s)"
  shows "ids_ok c (drop a (swa_block_table q s)) n"
proof -
  have r: "nat (drop a (swa_block_table q s) ! i) < kc_swa_max_blocks c"
    if "i < n" "0 \<le> drop a (swa_block_table q s) ! i" for i
    using swa_id_range [OF assms(1,2), of "a + i" q] that assms(3) by simp
  have "i = j" if "i < n" "j < n" "0 \<le> drop a (swa_block_table q s) ! i"
    "drop a (swa_block_table q s) ! i = drop a (swa_block_table q s) ! j" for i j
    using swa_slots_unique [OF assms(1), of "a + i" q "a + j" q] that assms(3) by simp
  with r show ?thesis unfolding ids_ok_def by blast
qed

lemma snap_layer:
  assumes "snap_ok c s ss" "j < length (ss_layers ss)"
  shows "ss_layers ss ! j < kc_n_layers c" "cache_layer_is_swa (ss_layers ss ! j) c"
    "j' < length (ss_layers ss) \<Longrightarrow> ss_layers ss ! j = ss_layers ss ! j' \<Longrightarrow> j = j'"
proof -
  have ls: "ss_layers ss = filter (\<lambda>l. cache_layer_is_swa l c) [0..<kc_n_layers c]"
    using assms(1) by (simp add: snap_ok_def)
  have "ss_layers ss ! j \<in> set (ss_layers ss)" using assms(2) by simp
  then show "ss_layers ss ! j < kc_n_layers c" "cache_layer_is_swa (ss_layers ss ! j) c"
    unfolding ls by simp_all
  have "distinct (ss_layers ss)" by (simp add: ls)
  then show "j' < length (ss_layers ss) \<Longrightarrow> ss_layers ss ! j = ss_layers ss ! j' \<Longrightarrow> j = j'"
    using assms(2) nth_eq_iff_index_eq by blast
qed

lemma snap_ok_wf: "snap_ok c s ss \<Longrightarrow> snap_wf (c, ss, p)"
proof -
  assume "snap_ok c s ss"
  then have "snap_wf (c, ss, 0)" by (simp add: snap_ok_def)
  then show ?thesis by (simp add: snap_wf_def)
qed

lemma cache_slots_apart:
  assumes bt: "kv_built alloc c" and ad: "allocs_disjoint alloc" and ok: "snap_ok c s ss"
    and id: "ids_ok c ids n"
    and x: "(j, i, sec) \<in> set (copy_index c (ss_layers ss) ids n)"
    and y: "(j', i', sec') \<in> set (copy_index c (ss_layers ss) ids n)"
    and ne: "(j, i, sec) \<noteq> (j', i', sec')"
  shows "sep (sec_addr c (ss_layers ss ! j) sec (nat (ids ! i))) (snap_bytes c (ss_layers ss ! j) sec)
    (sec_addr c (ss_layers ss ! j') sec' (nat (ids ! i'))) (snap_bytes c (ss_layers ss ! j') sec')"
proof -
  note x' = x [unfolded set_copy_index] and y' = y [unfolded set_copy_index]
  have b: "nat (ids ! i) < kc_swa_max_blocks c" "nat (ids ! i') < kc_swa_max_blocks c"
    using id x' y' by (simp_all add: ids_ok_def)
  have cap: "cache_capacity c (ss_layers ss ! k) = kc_swa_max_blocks c" if "k < length (ss_layers ss)" for k
    using capacity_swa snap_layer(2) [OF ok that] b(1) by simp
  have "(ss_layers ss ! j, sec, nat (ids ! i)) \<noteq> (ss_layers ss ! j', sec', nat (ids ! i'))"
  proof
    assume e: "(ss_layers ss ! j, sec, nat (ids ! i)) = (ss_layers ss ! j', sec', nat (ids ! i'))"
    then have "j = j'" using snap_layer(3) [OF ok] x' y' by simp
    moreover have "ids ! i = ids ! i'" using e x' y' by (simp add: eq_nat_nat_iff)
    then have "i = i'" using id x' y' unfolding ids_ok_def by blast
    ultimately show False using e ne by simp
  qed
  note ne' = this
  have jj: "j < length (ss_layers ss)" "j' < length (ss_layers ss)" using x' y' by blast+
  have r: "snap_bytes c (ss_layers ss ! j) sec \<noteq> 0" "sec < 4"
    "snap_bytes c (ss_layers ss ! j') sec' \<noteq> 0" "sec' < 4" using x' y' by blast+
  note sx = snap_bytes_raw [OF r(1,2)] and sy = snap_bytes_raw [OF r(3,4)]
  show ?thesis unfolding sx(1) sy(1)
    by (rule raw_apart [OF bt ad snap_layer(1) [OF ok jj(1)] snap_layer(1) [OF ok jj(2)] _ _ sx(2) sy(2) ne'])
      (simp_all only: cap jj b)
qed

lemma cache_slab_apart:
  assumes bt: "kv_built alloc c" and sa: "slab_apart alloc c ss p" and ok: "snap_ok c s ss"
    and id: "ids_ok c ids n" and x: "(j, i, sec) \<in> set (copy_index c (ss_layers ss) ids n)"
    and a: "p \<le> a" "a + k \<le> p + ss_bytes ss"
  shows "sep (sec_addr c (ss_layers ss ! j) sec (nat (ids ! i))) (snap_bytes c (ss_layers ss ! j) sec) a k"
proof -
  note x' = x [unfolded set_copy_index]
  have b: "nat (ids ! i) < kc_swa_max_blocks c" using id x' by (simp add: ids_ok_def)
  have "cache_capacity c (ss_layers ss ! j) = kc_swa_max_blocks c"
    using capacity_swa snap_layer(2) [OF ok] b x' by simp
  note cap = this
  have r: "j < length (ss_layers ss)" "snap_bytes c (ss_layers ss ! j) sec \<noteq> 0" "sec < 4" using x' by blast+
  note sx = snap_bytes_raw [OF r(2,3)]
  show ?thesis unfolding sx(1)
    by (rule sec_slab_apart [OF bt sa snap_layer(1) [OF ok r(1)] _ sx(2) a]) (simp only: cap b)
qed

lemma snap_independent:
  assumes bt: "kv_built alloc c" and ad: "allocs_disjoint alloc" and sa: "slab_apart alloc c ss p"
    and ok: "snap_ok c s ss" and id: "ids_ok c ids n" and n: "n \<le> nat (ss_win_blocks ss)"
  shows "independent (map (snap_desc to_slab c ss p ids) (copy_index c (ss_layers ss) ids n))"
proof (rule independent_map [OF distinct_copy_index])
  let ?X = "set (copy_index c (ss_layers ss) ids n)"
  have wf: "snap_wf (c, ss, p)" by (rule snap_ok_wf [OF ok])
  have ix: "j < length (ss_layers ss)" "i < nat (ss_win_blocks ss)" "sec < 4" if "(j, i, sec) \<in> ?X" for j i sec
  proof -
    have m: "j < length (ss_layers ss)" "i < n" "sec < 4" using that unfolding set_copy_index by blast+
    show "j < length (ss_layers ss)" "i < nat (ss_win_blocks ss)" "sec < 4" using m n by linarith+
  qed
  have inside: "p \<le> slab_slot c ss p (j, i, sec)"
    "slab_slot c ss p (j, i, sec) + snap_bytes c (ss_layers ss ! j) sec \<le> p + ss_bytes ss"
    if "(j, i, sec) \<in> ?X" for j i sec
    using slab_slot_inside [OF wf ix [OF that]] by blast+
  fix x y assume xy: "x \<in> ?X" "y \<in> ?X"
  obtain j i sec where e1: "x = (j, i, sec)" by (cases x)
  obtain j' i' sec' where e2: "y = (j', i', sec')" by (cases y)
  note e = e1 e2
  show "sep (cd_src (snap_desc to_slab c ss p ids x)) (cd_bytes (snap_desc to_slab c ss p ids x))
      (cd_dst (snap_desc to_slab c ss p ids y)) (cd_bytes (snap_desc to_slab c ss p ids y))"
  proof (cases to_slab)
    case True
    with cache_slab_apart [OF bt sa ok id xy(1) [unfolded e] inside [OF xy(2) [unfolded e]]]
    show ?thesis by (simp add: e snap_desc_def Let_def)
  next
    case False
    with cache_slab_apart [OF bt sa ok id xy(2) [unfolded e] inside [OF xy(1) [unfolded e]]]
    show ?thesis by (simp add: e snap_desc_def Let_def sep_sym [of "slab_slot c ss p (j, i, sec)"])
  qed
  assume ne: "x \<noteq> y"
  have "sep (slab_slot c ss p (j, i, sec)) (snap_bytes c (ss_layers ss ! j) sec)
      (slab_slot c ss p (j', i', sec')) (snap_bytes c (ss_layers ss ! j') sec')"
  proof (rule slab_slots_apart [OF wf])
    show "(j, i, sec) \<noteq> (j', i', sec')" using ne by (simp add: e)
  qed (rule ix [OF xy(1) [unfolded e]] ix [OF xy(2) [unfolded e]])+
  with cache_slots_apart [OF bt ad ok id xy(1) [unfolded e] xy(2) [unfolded e] ne [unfolded e]]
  show "sep (cd_dst (snap_desc to_slab c ss p ids x)) (cd_bytes (snap_desc to_slab c ss p ids x))
      (cd_dst (snap_desc to_slab c ss p ids y)) (cd_bytes (snap_desc to_slab c ss p ids y))"
    by (simp add: e snap_desc_def Let_def)
qed

text \<open>What the kernel leaves: the destination of each descriptor holds its source, the rest is unchanged.\<close>

lemma snap_copy_bytes:
  fixes to_slab :: bool and m :: mem
  assumes bt: "kv_built alloc c" and ad: "allocs_disjoint alloc" and sa: "slab_apart alloc c ss p"
    and ok: "snap_ok c s ss" and id: "ids_ok c ids n" and n: "n \<le> nat (ss_win_blocks ss)"
    and ord: "\<And>k. set (order k) = {..<k}"
  defines "X \<equiv> copy_index c (ss_layers ss) ids n"
  defines "m' \<equiv> batched_copy_device order (map (snap_desc to_slab c ss p ids) X) m"
  shows "\<lbrakk>(j, i, sec) \<in> set X; x < snap_bytes c (ss_layers ss ! j) sec; to_slab\<rbrakk> \<Longrightarrow>
      m' (slab_slot c ss p (j, i, sec) + x) = m (sec_addr c (ss_layers ss ! j) sec (nat (ids ! i)) + x)"
    "\<lbrakk>(j, i, sec) \<in> set X; x < snap_bytes c (ss_layers ss ! j) sec; \<not> to_slab\<rbrakk> \<Longrightarrow>
      m' (sec_addr c (ss_layers ss ! j) sec (nat (ids ! i)) + x) = m (slab_slot c ss p (j, i, sec) + x)"
    "\<lbrakk>\<And>y. y \<in> set X \<Longrightarrow> \<not> in_dst (snap_desc to_slab c ss p ids y) a\<rbrakk> \<Longrightarrow> m' a = m a"
proof -
  note ind = snap_independent [OF bt ad sa ok id n, of to_slab, folded X_def]
  have m': "m' = run_copies (map (snap_desc to_slab c ss p ids) X) m"
    unfolding m'_def by (rule batched_copy_eq [OF ord ind])
  note sp = run_copies_spec [OF ind, where m = m, folded m']
  have hit: "m' (cd_dst d + x) = m (cd_src d + x)"
    if "(j, i, sec) \<in> set X" "d = snap_desc to_slab c ss p ids (j, i, sec)" "x < cd_bytes d" for d j i sec x
    using sp [of d "cd_dst d + x"] that by (auto simp: in_dst_def)
  show "m' (slab_slot c ss p (j, i, sec) + x) = m (sec_addr c (ss_layers ss ! j) sec (nat (ids ! i)) + x)"
    if "(j, i, sec) \<in> set X" "x < snap_bytes c (ss_layers ss ! j) sec" "to_slab"
    using hit [OF that(1) refl, of x] that(2,3) by (simp add: snap_desc_def Let_def)
  show "m' (sec_addr c (ss_layers ss ! j) sec (nat (ids ! i)) + x) = m (slab_slot c ss p (j, i, sec) + x)"
    if "(j, i, sec) \<in> set X" "x < snap_bytes c (ss_layers ss ! j) sec" "\<not> to_slab"
    using hit [OF that(1) refl, of x] that(2,3) by (simp add: snap_desc_def Let_def)
  show "m' a = m a" if "\<And>y. y \<in> set X \<Longrightarrow> \<not> in_dst (snap_desc to_slab c ss p ids y) a"
    using sp [of _ a] that by auto
qed

section \<open>Pack\<close>

text \<open>What both directions assume of the cache, the layout, the slab and the launch order.\<close>

definition snap_env :: "(nat \<Rightarrow> nat \<Rightarrow> nat option) \<Rightarrow> (nat \<Rightarrow> nat list) \<Rightarrow> kv_cache \<Rightarrow> swa_snap \<Rightarrow> nat \<Rightarrow> bool" where
  "snap_env alloc order c ss p \<longleftrightarrow> kv_built alloc c \<and> allocs_disjoint alloc \<and> slab_apart alloc c ss p \<and>
     (\<forall>k. set (order k) = {..<k})"

text \<open>A manager over this cache, with the window the layout was made for.\<close>

definition snap_mgr :: "kv_cache \<Rightarrow> swa_snap \<Rightarrow> kv_mgr \<Rightarrow> bool" where
  "snap_mgr c ss s \<longleftrightarrow> kv_inv s \<and> swa_solo s \<and> swa_over c s \<and> snap_ok c s ss \<and> 0 \<le> swa_slack s"

lemma snap_mgrD:
  assumes "snap_mgr c ss s"
  shows "swa_own {#} s" "swa_over c s" "snap_ok c s ss" "0 \<le> swa_slack s" "0 < kv_block_size s"
  using assms by (simp_all add: snap_mgr_def swa_own_iff kv_inv_def)

lemma snap_mgr_frame:
  assumes "snap_mgr c ss s" "swa_frame s u" "swa_own {#} u"
  shows "snap_mgr c ss u"
proof -
  have "kv_inv u" using kv_inv_swa_frame assms by (auto simp: snap_mgr_def swa_own_iff)
  moreover note swa_frame_fields [OF assms(2)]
  moreover have "swa_over c u" using assms(1,2) by (simp add: snap_mgr_def swa_over_def swa_frame_def)
  ultimately show ?thesis using assms(1,3) by (simp add: snap_mgr_def swa_own_iff snap_ok_def)
qed

text \<open>The image of window slot \<open>i\<close> in the slab, against the blocks of table \<open>t\<close>.\<close>

definition slab_holds :: "kv_cache \<Rightarrow> swa_snap \<Rightarrow> nat \<Rightarrow> nat \<Rightarrow> int list \<Rightarrow> mem \<Rightarrow> mem \<Rightarrow> nat \<Rightarrow> bool" where
  "slab_holds c ss p a t m m' i \<longleftrightarrow> (\<forall>j < length (ss_layers ss). \<forall>sec < 4.
     \<forall>x < snap_bytes c (ss_layers ss ! j) sec.
       m' (slab_slot c ss p (j, i, sec) + x) =
         (if 0 \<le> t ! (a + i) then m (sec_addr c (ss_layers ss ! j) sec (nat (t ! (a + i))) + x) else 0))"

lemma copy_guards:
  assumes "swa_snapshot_copy order q up p to_slab c ss s m = (True, m')"
  shows "0 < up" "up mod kv_block_size s = 0" "win_end up s \<le> length (swa_block_table q s)"
proof -
  show "0 < up" "up mod kv_block_size s = 0"
    using assms by (auto simp: swa_snapshot_copy_def Let_def split: if_splits)
  obtain t where t: "map_of (seq_swa_blocks s) q = Some t"
    using assms by (cases "map_of (seq_swa_blocks s) q") (auto simp: swa_snapshot_copy_def Let_def split: if_splits)
  with assms have "\<not> int (length t) < up div kv_block_size s"
    by (auto simp: swa_snapshot_copy_def Let_def split: if_splits)
  then show "win_end up s \<le> length (swa_block_table q s)"
    by (simp add: swa_block_table_def t win_end_def nat_le_iff)
qed

lemma window_size:
  assumes "snap_mgr c ss s" "0 < up" "up mod kv_block_size s = 0"
  shows "win_end up s - win_first up s \<le> nat (ss_win_blocks ss)" "win_first up s < win_end up s"
  using window_count [OF snap_mgrD(3-5) [OF assms(1)] assms(2,3)] by (simp_all add: win_first_def win_end_def)

lemma pack_outcome:
  assumes env: "snap_env alloc order c ss p" and mgr: "snap_mgr c ss s"
    and run: "swa_snapshot_copy order q up p True c ss s m = (True, m1)"
  defines "t \<equiv> swa_block_table q s" and "a \<equiv> win_first up s" and "n \<equiv> win_end up s - win_first up s"
  shows "\<And>b. needed_start up s \<le> b \<Longrightarrow> b < win_end up s \<Longrightarrow> 0 \<le> t ! b"
    "\<And>i. i < n \<Longrightarrow> slab_holds c ss p a t m m1 i"
    "\<And>x. x < p \<or> p + ss_bytes ss \<le> x \<Longrightarrow> m1 x = m x"
proof -
  note g = copy_guards [OF run] and D = snap_mgrD [OF mgr]
  let ?ids = "drop a t" and ?ls = "ss_layers ss"
  define hole where "hole \<longleftrightarrow> (\<exists>b \<in> {win_first up s..<needed_start up s}. t ! b < 0)"
  define m0 where "m0 = (if hole then zero_range p (ss_bytes ss) m else m)"
  define X where "X = copy_index c ?ls ?ids n"
  have eq: "\<forall>b \<in> {needed_start up s..<win_end up s}. 0 \<le> t ! b"
    "m1 = batched_copy_device order (map (snap_desc True c ss p ?ids) X) m0"
    using run unfolding snapshot_copy_eq [OF D(3-5) g(1,2) refl g(3)]
    by (auto simp: t_def a_def n_def hole_def m0_def X_def split: if_splits)
  show "0 \<le> t ! b" if "needed_start up s \<le> b" "b < win_end up s" for b using eq(1) that by simp
  have an: "a + n \<le> length t" "a + n = win_end up s"
    using g(3) window_size(2) [OF mgr g(1,2)] by (simp_all add: a_def n_def t_def)
  have id: "ids_ok c ?ids n" using window_ids_ok [OF D(1,2)] an(1) by (simp add: t_def)
  have nw: "n \<le> nat (ss_win_blocks ss)" using window_size(1) [OF mgr g(1,2)] by (simp add: n_def)
  have e: "kv_built alloc c" "allocs_disjoint alloc" "slab_apart alloc c ss p" "\<And>k. set (order k) = {..<k}"
    using env by (simp_all add: snap_env_def)
  note cb = snap_copy_bytes [OF e(1-3) D(3) id nw e(4), where to_slab = True and m = m0,
    folded X_def, folded eq(2)]
  have wf: "snap_wf (c, ss, p)" by (rule snap_ok_wf [OF D(3)])
  have miss: "m1 y = m0 y"
    if "\<And>j i sec. (j, i, sec) \<in> set X \<Longrightarrow> \<not> (slab_slot c ss p (j, i, sec) \<le> y \<and>
      y < slab_slot c ss p (j, i, sec) + snap_bytes c (?ls ! j) sec)" for y
    using that by (intro cb(3)) (auto simp: in_dst_def snap_desc_def Let_def)
  show "m1 x = m x" if x: "x < p \<or> p + ss_bytes ss \<le> x" for x
  proof -
    have "m1 x = m0 x"
    proof (rule miss)
      fix j i sec assume "(j, i, sec) \<in> set X"
      then have "j < length ?ls" "i < nat (ss_win_blocks ss)" "sec < 4"
        using nw by (auto simp: X_def set_copy_index)
      from slab_slot_inside [OF wf this] x
      show "\<not> (slab_slot c ss p (j, i, sec) \<le> x \<and> x < slab_slot c ss p (j, i, sec) + snap_bytes c (?ls ! j) sec)"
        by linarith
    qed
    with x show ?thesis by (auto simp: m0_def zero_range_def)
  qed
  show "slab_holds c ss p a t m m1 i" if i: "i < n" for i
    unfolding slab_holds_def
  proof (intro allI impI)
    fix j sec x assume j: "j < length ?ls" and sec: "sec < 4" and x: "x < snap_bytes c (?ls ! j) sec"
    have ii: "i < nat (ss_win_blocks ss)" using i nw by simp
    have ti: "?ids ! i = t ! (a + i)" using i an(1) by simp
    note ins = slab_slot_inside [OF wf j ii sec]
    show "m1 (slab_slot c ss p (j, i, sec) + x) =
      (if 0 \<le> t ! (a + i) then m (sec_addr c (?ls ! j) sec (nat (t ! (a + i))) + x) else 0)"
    proof (cases "0 \<le> t ! (a + i)")
      case True
      then have X: "(j, i, sec) \<in> set X" using j i sec x ti by (simp add: X_def set_copy_index)
      have "sep (sec_addr c (?ls ! j) sec (nat (?ids ! i))) (snap_bytes c (?ls ! j) sec) p (ss_bytes ss)"
        by (rule cache_slab_apart [OF e(1,3) D(3) id X [unfolded X_def]]) simp_all
      then have "m0 (sec_addr c (?ls ! j) sec (nat (?ids ! i)) + x) = m (sec_addr c (?ls ! j) sec (nat (?ids ! i)) + x)"
        using x by (auto simp: m0_def zero_range_def sep_def)
      with cb(1) [OF X x] True show ?thesis unfolding ti by simp
    next
      case False
      have "m1 (slab_slot c ss p (j, i, sec) + x) = m0 (slab_slot c ss p (j, i, sec) + x)"
      proof (rule miss)
        fix j' i' sec' assume X: "(j', i', sec') \<in> set X"
        then have r: "j' < length ?ls" "i' < nat (ss_win_blocks ss)" "sec' < 4" "i' \<noteq> i"
          using nw False ti by (auto simp: X_def set_copy_index)
        have "sep (slab_slot c ss p (j, i, sec)) (snap_bytes c (?ls ! j) sec)
            (slab_slot c ss p (j', i', sec')) (snap_bytes c (?ls ! j') sec')"
          using r(4) by (intro slab_slots_apart [OF wf j r(1) ii r(2) sec r(3)]) simp
        with x show "\<not> (slab_slot c ss p (j', i', sec') \<le> slab_slot c ss p (j, i, sec) + x \<and>
            slab_slot c ss p (j, i, sec) + x < slab_slot c ss p (j', i', sec') + snap_bytes c (?ls ! j') sec')"
          by (auto simp: sep_def)
      qed
      moreover have "a + i < needed_start up s"
      proof (rule ccontr)
        assume "\<not> ?thesis"
        then have "0 \<le> t ! (a + i)" using eq(1) i an(2) by simp
        with False show False ..
      qed
      then have hole using False by (auto simp: hole_def a_def intro!: bexI [of _ "a + i"])
      moreover have "p \<le> slab_slot c ss p (j, i, sec) + x" "slab_slot c ss p (j, i, sec) + x < p + ss_bytes ss"
        using ins x by linarith+
      ultimately show ?thesis using False by (simp add: m0_def zero_range_def)
    qed
  qed
qed

section \<open>Restore\<close>

lemma window_ready_mgr:
  assumes "snap_mgr c ss s" "window_ready q up s u"
  shows "snap_mgr c ss u" "win_first up u = win_first up s" "win_end up u = win_end up s"
    "swa_window u = swa_window s" "kv_block_size u = kv_block_size s"
proof -
  have fr: "swa_frame s u" and own: "swa_own {#} u" using assms(2) by (simp_all add: window_ready_def)
  show "snap_mgr c ss u" by (rule snap_mgr_frame [OF assms(1) fr own])
  note f = swa_frame_fields [OF fr]
  show "win_first up u = win_first up s" "win_end up u = win_end up s"
    by (simp_all add: win_first_def win_end_def swa_first_live_block_def f)
  show "swa_window u = swa_window s" "kv_block_size u = kv_block_size s" by (simp_all add: f)
qed

lemma restore_copy_succeeds:
  assumes mgr: "snap_mgr c ss s" and rdy: "restore_ready q up (Some p) ss s" and w: "window_ready q up s u"
  shows "\<exists>m'. swa_snapshot_copy order q up p False c ss u m = (True, m')"
proof -
  note W = window_ready_mgr [OF mgr w]
  note D = snap_mgrD [OF W(1)]
  have up: "0 < up" "up mod kv_block_size u = 0" using rdy by (simp_all add: restore_ready_def W)
  have r: "restored q (win_first up s) (win_end up s) (padded q s) True (swa_block_table q u)"
    using w by (simp add: window_ready_def)
  have "win_end up s \<le> length (table_of q s)" using rdy by (simp add: restore_ready_def win_end_def nat_le_iff)
  moreover have "length (table_of q s) \<le> length (padded q s)" by (simp add: padded_def pad_holes_def)
  ultimately have len: "win_end up u \<le> length (swa_block_table q u)" using r by (simp add: W restored_def)
  have "\<forall>b \<in> {win_first up u..<win_end up u}. 0 \<le> swa_block_table q u ! b"
    using r by (simp add: W restored_def)
  then show ?thesis unfolding snapshot_copy_eq [OF D(3-5) up refl len] by simp
qed

lemma restore_bytes:
  assumes env: "snap_env alloc order c ss p" and mgr: "snap_mgr c ss u"
    and run: "swa_snapshot_copy order q up p False c ss u m = (True, m')"
  defines "t \<equiv> swa_block_table q u" and "a \<equiv> win_first up u" and "n \<equiv> win_end up u - win_first up u"
  shows "\<And>b. a \<le> b \<Longrightarrow> b < win_end up u \<Longrightarrow> 0 \<le> t ! b"
    "\<And>i j sec x. \<lbrakk>i < n; j < length (ss_layers ss); sec < 4; x < snap_bytes c (ss_layers ss ! j) sec\<rbrakk> \<Longrightarrow>
      m' (sec_addr c (ss_layers ss ! j) sec (nat (t ! (a + i))) + x) = m (slab_slot c ss p (j, i, sec) + x)"
    "\<And>r i j sec x. \<lbrakk>r \<noteq> q; i < length (swa_block_table r u); 0 \<le> swa_block_table r u ! i;
      j < length (ss_layers ss); sec < 4; x < snap_bytes c (ss_layers ss ! j) sec\<rbrakk> \<Longrightarrow>
      m' (sec_addr c (ss_layers ss ! j) sec (nat (swa_block_table r u ! i)) + x) =
      m (sec_addr c (ss_layers ss ! j) sec (nat (swa_block_table r u ! i)) + x)"
proof -
  note g = copy_guards [OF run] and D = snap_mgrD [OF mgr]
  let ?ids = "drop a t" and ?ls = "ss_layers ss"
  define X where "X = copy_index c ?ls ?ids n"
  have eq: "\<forall>b \<in> {a..<win_end up u}. 0 \<le> t ! b"
    "m' = batched_copy_device order (map (snap_desc False c ss p ?ids) X) m"
    using run unfolding snapshot_copy_eq [OF D(3-5) g(1,2) refl g(3)]
    by (auto simp: t_def a_def n_def X_def split: if_splits)
  show nn: "0 \<le> t ! b" if "a \<le> b" "b < win_end up u" for b using eq(1) that by simp
  have an: "a + n \<le> length t" "a + n = win_end up u"
    using g(3) window_size(2) [OF mgr g(1,2)] by (simp_all add: a_def n_def t_def)
  have id: "ids_ok c ?ids n" using window_ids_ok [OF D(1,2)] an(1) by (simp add: t_def)
  have nw: "n \<le> nat (ss_win_blocks ss)" using window_size(1) [OF mgr g(1,2)] by (simp add: n_def)
  have e: "kv_built alloc c" "allocs_disjoint alloc" "slab_apart alloc c ss p" "\<And>k. set (order k) = {..<k}"
    using env by (simp_all add: snap_env_def)
  note cb = snap_copy_bytes [OF e(1-3) D(3) id nw e(4), where to_slab = False and m = m,
    folded X_def, folded eq(2)]
  show "m' (sec_addr c (?ls ! j) sec (nat (t ! (a + i))) + x) = m (slab_slot c ss p (j, i, sec) + x)"
    if "i < n" "j < length ?ls" "sec < 4" "x < snap_bytes c (?ls ! j) sec" for i j sec x
  proof -
    have ti: "?ids ! i = t ! (a + i)" using that(1) an(1) by simp
    have "(j, i, sec) \<in> set X" using that nn [of "a + i"] an by (simp add: X_def set_copy_index)
    from cb(2) [OF this that(4)] show ?thesis unfolding ti by simp
  qed
  fix r i j sec x
  assume r: "r \<noteq> q" "i < length (swa_block_table r u)" "0 \<le> swa_block_table r u ! i"
    "j < length ?ls" "sec < 4" "x < snap_bytes c (?ls ! j) sec"
  let ?b = "nat (swa_block_table r u ! i)"
  have b: "?b < kc_swa_max_blocks c" by (rule swa_id_range [OF D(1,2) r(2,3)])
  have cap: "cache_capacity c (?ls ! k) = kc_swa_max_blocks c" if "k < length ?ls" for k
    using capacity_swa snap_layer(2) [OF D(3) that] b by simp
  have sx: "snap_bytes c (?ls ! j) sec = raw_bytes c (?ls ! j) sec" "sec < (if kc_scale_pool c = None then 2 else 4)"
    using snap_bytes_raw [of c "?ls ! j" sec] r(5,6) by (metis not_less0)+
  show "m' (sec_addr c (?ls ! j) sec ?b + x) = m (sec_addr c (?ls ! j) sec ?b + x)"
  proof (rule cb(3))
    fix y assume y: "y \<in> set X"
    obtain j' i' sec' where ye: "y = (j', i', sec')" by (cases y)
    have y': "j' < length ?ls" "i' < n" "0 \<le> ?ids ! i'" "sec' < 4" "snap_bytes c (?ls ! j') sec' \<noteq> 0"
      using y unfolding ye X_def set_copy_index by blast+
    note sy = snap_bytes_raw [OF y'(5,4)]
    have ti: "?ids ! i' = t ! (a + i')" "a + i' < length t" using y'(2) an(1) by simp_all
    have "swa_block_table r u ! i \<noteq> t ! (a + i')"
      using swa_slots_unique [OF D(1) r(2), of "a + i'" q] r(1,3) ti(2) unfolding t_def by blast
    then have "?b \<noteq> nat (?ids ! i')" using r(3) y'(3) unfolding ti by (simp add: eq_nat_nat_iff)
    then have ne: "(?ls ! j, sec, ?b) \<noteq> (?ls ! j', sec', nat (?ids ! i'))" by blast
    have "nat (?ids ! i') < kc_swa_max_blocks c" using id y' by (simp add: ids_ok_def)
    then have "sep (sec_addr c (?ls ! j) sec ?b) (raw_bytes c (?ls ! j) sec)
        (sec_addr c (?ls ! j') sec' (nat (?ids ! i'))) (raw_bytes c (?ls ! j') sec')"
      by (intro raw_apart [OF e(1,2) snap_layer(1) [OF D(3) r(4)] snap_layer(1) [OF D(3) y'(1)] _ _ sx(2) sy(2) ne])
        (simp_all only: cap r(4) y'(1) b)
    with r(6) show "\<not> in_dst (snap_desc False c ss p ?ids y) (sec_addr c (?ls ! j) sec ?b + x)"
      unfolding sx(1) by (auto simp: ye in_dst_def snap_desc_def Let_def sep_def sy(1))
  qed
qed

end
