(* ===== verification/KV_Persist.thy ===== *)
theory KV_Persist
  imports KV_Copy KV_Alloc_Inv
begin

text \<open>
  The persistent prefix cache: \<^verbatim>\<open>save_prefix_cache\<close> and \<^verbatim>\<open>load_prefix_cache\<close> of
  \<^verbatim>\<open>src/src/memory/kv_cache_manager.cpp\<close>. A file is its list of bytes. What the operating
  system and the device answer are arguments: \<open>room k\<close> is how many bytes of the \<open>k\<close>-th
  \<^verbatim>\<open>fwrite\<close> reach the file, \<open>copied i l sec\<close> whether the copy of section \<open>sec\<close> (K, V, K scales,
  V scales) of layer \<open>l\<close> of the \<open>i\<close>-th entry succeeds, \<open>reserve_ok n\<close> whether a vector of \<open>n\<close>
  entries can be allocated, and \<open>pad\<close> the four bytes the compiler puts between \<^verbatim>\<open>dtype\<close> and
  \<^verbatim>\<open>block_bytes\<close>. The host buffer slice of an entry is its list of bytes. Integers are stored
  little-endian.
\<close>

section \<open>Header\<close>

primrec le_bytes :: "nat \<Rightarrow> nat \<Rightarrow> u8 list" where
  "le_bytes 0 x = []"
| "le_bytes (Suc n) x = of_nat x # le_bytes n (x div 256)"

primrec le_value :: "u8 list \<Rightarrow> nat" where
  "le_value [] = 0"
| "le_value (b # bs) = unat b + 256 * le_value bs"

definition le_field :: "nat \<Rightarrow> nat \<Rightarrow> u8 list \<Rightarrow> nat" where
  "le_field off n bs = le_value (take n (drop off bs))"

definition kPrefixCacheMagic :: u32 where
  "kPrefixCacheMagic = 0x494D5043"

definition kPrefixCacheVersion :: u32 where
  "kPrefixCacheVersion = 3"

record prefix_cache_header =
  ph_magic :: u32
  ph_version :: u32
  ph_n_blocks :: u32
  ph_n_layers :: u32
  ph_n_kv_heads :: u32
  ph_head_dim :: u32
  ph_dtype :: u32
  ph_block_bytes :: u64
  ph_scale_block_bytes :: u64
  ph_model_fingerprint :: u64

definition header_size :: nat where
  [simp]: "header_size = 56"

definition header_bytes :: "u8 list \<Rightarrow> prefix_cache_header \<Rightarrow> u8 list" where
  "header_bytes pad h =
     le_bytes 4 (unat (ph_magic h)) @ le_bytes 4 (unat (ph_version h)) @ le_bytes 4 (unat (ph_n_blocks h)) @
     le_bytes 4 (unat (ph_n_layers h)) @ le_bytes 4 (unat (ph_n_kv_heads h)) @ le_bytes 4 (unat (ph_head_dim h)) @
     le_bytes 4 (unat (ph_dtype h)) @ take 4 pad @ le_bytes 8 (unat (ph_block_bytes h)) @
     le_bytes 8 (unat (ph_scale_block_bytes h)) @ le_bytes 8 (unat (ph_model_fingerprint h))"

definition header_of :: "u8 list \<Rightarrow> prefix_cache_header" where
  "header_of bs =
     \<lparr>ph_magic = of_nat (le_field 0 4 bs), ph_version = of_nat (le_field 4 4 bs),
      ph_n_blocks = of_nat (le_field 8 4 bs), ph_n_layers = of_nat (le_field 12 4 bs),
      ph_n_kv_heads = of_nat (le_field 16 4 bs), ph_head_dim = of_nat (le_field 20 4 bs),
      ph_dtype = of_nat (le_field 24 4 bs), ph_block_bytes = of_nat (le_field 32 8 bs),
      ph_scale_block_bytes = of_nat (le_field 40 8 bs), ph_model_fingerprint = of_nat (le_field 48 8 bs)\<rparr>"

definition per_block_total :: "kv_cache \<Rightarrow> nat" where
  "per_block_total c = kc_n_layers c * 2 * (kc_block_bytes c + kc_scale_block_bytes c)"

section \<open>Saving\<close>

text \<open>The header of the current cache.\<close>

definition header_for :: "nat \<Rightarrow> u64 \<Rightarrow> kv_cache \<Rightarrow> prefix_cache_header" where
  "header_for n_blocks model_fingerprint c =
     \<lparr>ph_magic = kPrefixCacheMagic, ph_version = kPrefixCacheVersion, ph_n_blocks = of_nat n_blocks,
      ph_n_layers = of_nat (kc_n_layers c), ph_n_kv_heads = of_nat (kc_n_kv_heads c),
      ph_head_dim = of_nat (kc_head_dim c), ph_dtype = ucast (to_underlying (kc_dtype c)),
      ph_block_bytes = of_nat (kc_block_bytes c), ph_scale_block_bytes = of_nat (kc_scale_block_bytes c),
      ph_model_fingerprint = model_fingerprint\<rparr>"

definition save_entries :: "kv_mgr \<Rightarrow> (int \<times> hash) list" where
  "save_entries s =
     List.map_filter (\<lambda>b. map_option (Pair b) (block_id_to_hash s b)) (cached_blocks_lru s)"

definition read_range :: "nat \<Rightarrow> nat \<Rightarrow> mem \<Rightarrow> u8 list" where
  "read_range p n m = map (\<lambda>i. m (p + i)) [0..<n]"

text \<open>The copies of one layer; \<open>None\<close> when one of them fails.\<close>

definition save_layer :: "(nat \<Rightarrow> nat \<Rightarrow> bool) \<Rightarrow> nat \<Rightarrow> kv_cache \<Rightarrow> mem \<Rightarrow> nat \<Rightarrow> u8 list option" where
  "save_layer copied b c m l =
     (let bb = kc_block_bytes c; sbb = kc_scale_block_bytes c;
          kv = read_range (k_ptr l b c) bb m @ read_range (v_ptr l b c) bb m in
      if \<not> copied l 0 then None
      else if \<not> copied l 1 then None
      else if sbb = 0 then Some kv
      else case (k_scale_ptr l b c, v_scale_ptr l b c) of
        (Some ks, Some vs) \<Rightarrow>
          if \<not> copied l 2 then None
          else if \<not> copied l 3 then None
          else Some (kv @ read_range ks sbb m @ read_range vs sbb m)
      | _ \<Rightarrow> None)"

fun save_layers :: "(nat \<Rightarrow> nat \<Rightarrow> bool) \<Rightarrow> nat \<Rightarrow> kv_cache \<Rightarrow> mem \<Rightarrow> nat list \<Rightarrow> u8 list option" where
  "save_layers copied b c m [] = Some []"
| "save_layers copied b c m (l # ls) =
     (case save_layer copied b c m l of
        None \<Rightarrow> None
      | Some d \<Rightarrow> (case save_layers copied b c m ls of None \<Rightarrow> None | Some ds \<Rightarrow> Some (d @ ds)))"

definition fwrite :: "nat \<Rightarrow> u8 list \<Rightarrow> u8 list \<Rightarrow> bool \<times> u8 list" where
  "fwrite room bs f =
     (if bs \<noteq> [] \<and> length bs \<le> room then (True, f @ bs) else (False, f @ take room bs))"

text \<open>The write loop over hash and data of each entry; \<open>k\<close> is the number of the next write.\<close>

fun write_blocks :: "(nat \<Rightarrow> nat) \<Rightarrow> nat \<Rightarrow> (hash \<times> u8 list option) list \<Rightarrow> int \<Rightarrow> u8 list \<Rightarrow> int \<times> u8 list" where
  "write_blocks room k [] saved f = (saved, f)"
| "write_blocks room k ((h, None) # es) saved f = write_blocks room k es saved f"
| "write_blocks room k ((h, Some d) # es) saved f =
     (case fwrite (room k) (le_bytes 8 (unat h)) f of
        (False, f1) \<Rightarrow> (-1, f1)
      | (True, f1) \<Rightarrow>
          (case fwrite (room (k + 1)) d f1 of
             (False, f2) \<Rightarrow> (-1, f2)
           | (True, f2) \<Rightarrow> write_blocks room (k + 2) es (saved + 1) f2))"

text \<open>The result and the file afterwards, \<open>None\<close> when it is not touched.\<close>

definition save_prefix_cache ::
  "bool \<Rightarrow> (nat \<Rightarrow> nat) \<Rightarrow> (nat \<Rightarrow> nat \<Rightarrow> nat \<Rightarrow> bool) \<Rightarrow> u8 list \<Rightarrow> u64 \<Rightarrow> kv_cache \<Rightarrow> kv_mgr \<Rightarrow> mem \<Rightarrow>
   int \<times> u8 list option" where
  "save_prefix_cache opened room copied pad model_fingerprint c s m =
     (if \<not> prefix_caching_enabled s \<or> cached_blocks_lru s = [] then (0, None)
      else if \<not> opened then (-1, None)
      else
        let n_blocks = length (cached_blocks_lru s) in
        case fwrite (room 0) (header_bytes pad (header_for n_blocks model_fingerprint c)) [] of
          (False, f) \<Rightarrow> (-1, Some f)
        | (True, f) \<Rightarrow>
            let entries = save_entries s in
            if entries = [] then (0, Some f)
            else
              let blocks = map (\<lambda>(i, b, h). (h, save_layers (copied i) (nat b) c m [0..<kc_n_layers c]))
                             (enumerate 0 entries)
              in case write_blocks room 1 blocks 0 f of (r, f1) \<Rightarrow> (r, Some f1))"

section \<open>Loading\<close>

datatype load_error = ReserveFailed

text \<open>The read loop: entries with the block acquired for each and its bytes.\<close>

primrec read_blocks :: "nat \<Rightarrow> nat \<Rightarrow> u8 list \<Rightarrow> kv_mgr \<Rightarrow> (hash \<times> int \<times> u8 list) list \<times> kv_mgr" where
  "read_blocks 0 per f s = ([], s)"
| "read_blocks (Suc n) per f s =
     (if length f < 8 then ([], s)
      else
        let h = of_nat (le_value (take 8 f)); f1 = drop 8 f in
        if per = 0 \<or> length f1 < per then ([], s)
        else if block_hash_to_id s h \<noteq> None then read_blocks n per (drop per f1) s
        else case acquire_block_ref s of (b, s1) \<Rightarrow>
          if b < 0 then ([], s1)
          else case read_blocks n per (drop per f1) s1 of (es, s2) \<Rightarrow> ((h, b, take per f1) # es, s2))"

definition write_range :: "nat \<Rightarrow> u8 list \<Rightarrow> mem \<Rightarrow> mem" where
  "write_range p bs m = (\<lambda>a. if p \<le> a \<and> a < p + length bs then bs ! (a - p) else m a)"

text \<open>The copies of one layer from offset \<open>off\<close> of the entry's bytes \<open>d\<close>.\<close>

definition load_layer ::
  "(nat \<Rightarrow> nat \<Rightarrow> bool) \<Rightarrow> nat \<Rightarrow> u8 list \<Rightarrow> kv_cache \<Rightarrow> nat \<Rightarrow> nat \<Rightarrow> mem \<Rightarrow> bool \<times> mem" where
  "load_layer copied b d c l off m =
     (let bb = kc_block_bytes c; sbb = kc_scale_block_bytes c;
          m1 = write_range (k_ptr l b c) (take bb (drop off d)) m;
          m2 = write_range (v_ptr l b c) (take bb (drop (off + bb) d)) m1 in
      if \<not> copied l 0 then (False, m)
      else if \<not> copied l 1 then (False, m1)
      else if sbb = 0 then (True, m2)
      else case (k_scale_ptr l b c, v_scale_ptr l b c) of
        (Some ks, Some vs) \<Rightarrow>
          (let m3 = write_range ks (take sbb (drop (off + 2 * bb) d)) m2;
               m4 = write_range vs (take sbb (drop (off + 2 * bb + sbb) d)) m3 in
           if \<not> copied l 2 then (False, m2)
           else if \<not> copied l 3 then (False, m3)
           else (True, m4))
      | _ \<Rightarrow> (False, m2))"

fun load_layers ::
  "(nat \<Rightarrow> nat \<Rightarrow> bool) \<Rightarrow> nat \<Rightarrow> u8 list \<Rightarrow> kv_cache \<Rightarrow> nat list \<Rightarrow> nat \<Rightarrow> mem \<Rightarrow> bool \<times> mem" where
  "load_layers copied b d c [] off m = (True, m)"
| "load_layers copied b d c (l # ls) off m =
     (case load_layer copied b d c l off m of
        (False, m1) \<Rightarrow> (False, m1)
      | (True, m1) \<Rightarrow> load_layers copied b d c ls (off + 2 * (kc_block_bytes c + kc_scale_block_bytes c)) m1)"

fun load_data ::
  "(nat \<Rightarrow> nat \<Rightarrow> nat \<Rightarrow> bool) \<Rightarrow> kv_cache \<Rightarrow> nat \<Rightarrow> (hash \<times> int \<times> u8 list) list \<Rightarrow> mem \<Rightarrow> bool list \<times> mem" where
  "load_data copied c i [] m = ([], m)"
| "load_data copied c i ((h, b, d) # es) m =
     (case load_layers (copied i) (nat b) d c [0..<kc_n_layers c] 0 m of (ok, m1) \<Rightarrow>
      case load_data copied c (i + 1) es m1 of (oks, m2) \<Rightarrow> (ok # oks, m2))"

definition register_loaded :: "(hash \<times> int \<times> u8 list) \<Rightarrow> kv_mgr \<Rightarrow> kv_mgr" where
  "register_loaded = (\<lambda>(h, b, d) s.
     let s1 = s\<lparr>block_hash_to_id := (block_hash_to_id s)(h \<mapsto> b),
                block_id_to_hash := (block_id_to_hash s)(b \<mapsto> h)\<rparr>
     in (cache_ref b b s1)\<lparr>reclaimable_cached_count := reclaimable_cached_count s + 1\<rparr>)"

definition header_matches :: "u64 \<Rightarrow> kv_cache \<Rightarrow> prefix_cache_header \<Rightarrow> bool" where
  "header_matches model_fingerprint c hdr \<longleftrightarrow>
     ph_magic hdr = kPrefixCacheMagic \<and> ph_version hdr = kPrefixCacheVersion \<and>
     ph_n_layers hdr = of_nat (kc_n_layers c) \<and> ph_n_kv_heads hdr = of_nat (kc_n_kv_heads c) \<and>
     ph_head_dim hdr = of_nat (kc_head_dim c) \<and> ph_dtype hdr = ucast (to_underlying (kc_dtype c)) \<and>
     ph_block_bytes hdr = of_nat (kc_block_bytes c) \<and> ph_model_fingerprint hdr = model_fingerprint \<and>
     ph_scale_block_bytes hdr = of_nat (kc_scale_block_bytes c)"

definition load_prefix_cache ::
  "(nat \<Rightarrow> bool) \<Rightarrow> (nat \<Rightarrow> nat \<Rightarrow> nat \<Rightarrow> bool) \<Rightarrow> u8 list option \<Rightarrow> u64 \<Rightarrow> kv_cache \<Rightarrow> kv_mgr \<Rightarrow> mem \<Rightarrow>
   load_error + (int \<times> kv_mgr \<times> mem)" where
  "load_prefix_cache reserve_ok copied file model_fingerprint c s m =
     (if \<not> prefix_caching_enabled s then Inr (-1, s, m)
      else case file of
        None \<Rightarrow> Inr (0, s, m)
      | Some f \<Rightarrow>
          if length f < header_size then Inr (-1, s, m)
          else
            let hdr = header_of f; n_blocks = sint (ph_n_blocks hdr) in
            if \<not> header_matches model_fingerprint c hdr then Inr (-1, s, m)
            else if n_blocks < 0 \<or> \<not> reserve_ok (nat n_blocks) then Inl ReserveFailed
            else
              case read_blocks (nat n_blocks) (per_block_total c) (drop header_size f) s of (es, s1) \<Rightarrow>
              case load_data copied c 0 es m of (oks, m1) \<Rightarrow>
                let loaded = map snd (filter fst (zip oks es));
                    failed = map snd (filter (\<lambda>x. \<not> fst x) (zip oks es));
                    s2 = fold register_loaded loaded s1
                in Inr (int (length loaded), drop_refs (map (\<lambda>(h, b, d). b) failed) s2, m1))"

section \<open>Invariants of loading\<close>

definition entry_ids :: "(hash \<times> int \<times> u8 list) list \<Rightarrow> int list" where
  "entry_ids es = map (\<lambda>(h, b, d). b) es"

lemma entry_ids_simps [simp]:
  "entry_ids [] = []" "entry_ids ((h, b, d) # es) = b # entry_ids es" "entry_ids (es @ es') = entry_ids es @ entry_ids es'"
  by (simp_all add: entry_ids_def)

text \<open>The read loop acquires one block per entry, none of them held by anyone.\<close>

definition read_outcome :: "int multiset \<Rightarrow> kv_mgr \<Rightarrow> (hash \<times> int \<times> u8 list) list \<Rightarrow> kv_mgr \<Rightarrow> bool" where
  "read_outcome X s es s' \<longleftrightarrow> own_with (mset (entry_ids es) + X) s' \<and>
     (\<exists>p. s' = s\<lparr>kv_pool := p\<rparr> \<and> block_ids p = block_ids (kv_pool s)) \<and>
     distinct (entry_ids es) \<and> (\<forall>b \<in> set (entry_ids es). 0 \<le> b \<and> b \<notin># kv_refs s + X) \<and>
     (\<forall>e \<in> set es. block_hash_to_id s (fst e) = None)"

lemma read_blocks_outcome:
  "own_with X s \<Longrightarrow> read_blocks n per f s = (es, s') \<Longrightarrow> read_outcome X s es s'"
proof (induction n arbitrary: f s es s' X)
  case 0
  then show ?case by (auto simp: read_outcome_def intro: exI [of _ "kv_pool s"])
next
  case (Suc n)
  define h :: hash where "h = of_nat (le_value (take 8 f))"
  define g where "g = drop per (drop 8 f)"
  have refl: "read_outcome X s [] s" using Suc.prems(1) by (auto simp: read_outcome_def intro: exI [of _ "kv_pool s"])
  obtain b s1 where a: "acquire_block_ref s = (b, s1)" by fastforce
  obtain es1 s2 where r: "read_blocks n per g s1 = (es1, s2)" by fastforce
  consider "es = [] \<and> s' = s" | "read_blocks n per g s = (es, s')" | "b < 0" "es = []" "s' = s1"
    | "0 \<le> b" "block_hash_to_id s h = None" "es = (h, b, take per (drop 8 f)) # es1" "s' = s2"
    using Suc.prems(2) unfolding read_blocks.simps Let_def h_def [symmetric] g_def [symmetric] a r prod.case
    by (metis linorder_not_le prod.inject)
  then show ?case
  proof cases
    case 3
    from own_acquire_cases [OF Suc.prems(1) a] 3(1) have "s1 = s" by cases auto
    with 3 refl show ?thesis by simp
  next
    case 4
    from own_acquire_cases [OF Suc.prems(1) a] 4(1) obtain p where
      p: "own_with (add_mset b X) s1" "b \<notin># kv_refs s + X" "s1 = s\<lparr>kv_pool := p\<rparr>"
        "block_ids p = block_ids (kv_pool s)" by cases auto
    have k: "kv_refs s1 = kv_refs s" by (simp add: p(3) kv_refs_def)
    obtain p' where o: "own_with (mset (entry_ids es1) + add_mset b X) s2" "s2 = s1\<lparr>kv_pool := p'\<rparr>"
      "block_ids p' = block_ids (kv_pool s1)" "distinct (entry_ids es1)"
      "\<forall>b' \<in> set (entry_ids es1). 0 \<le> b' \<and> b' \<notin># kv_refs s + add_mset b X"
      "\<forall>e \<in> set es1. block_hash_to_id s1 (fst e) = None"
      using Suc.IH [OF p(1) r] unfolding read_outcome_def k by blast
    show ?thesis unfolding read_outcome_def 4(3,4)
    proof (intro conjI)
      show "own_with (mset (entry_ids ((h, b, take per (drop 8 f)) # es1)) + X) s2" using o(1) by simp
      show "\<exists>p. s2 = s\<lparr>kv_pool := p\<rparr> \<and> block_ids p = block_ids (kv_pool s)" 
        using o(2,3) p(3,4) by (intro exI [of _ p']) simp
      show "distinct (entry_ids ((h, b, take per (drop 8 f)) # es1))" using o(4,5) by auto
      show "\<forall>b' \<in> set (entry_ids ((h, b, take per (drop 8 f)) # es1)). 0 \<le> b' \<and> b' \<notin># kv_refs s + X"
        using o(5) p(2) 4(1) by simp
      show "\<forall>e \<in> set ((h, b, take per (drop 8 f)) # es1). block_hash_to_id s (fst e) = None"
        using o(6) 4(2) by (simp add: p(3))
    qed
  next
    case 1
    with refl show ?thesis by simp
  next
    case 2
    then show ?thesis by (rule Suc.IH [OF Suc.prems(1)])
  qed
qed

lemma alloc_inv_register_loaded:
  assumes "alloc_inv (add_mset b X) s" "map_of (cached_blocks_map s) b = None"
    and "block_hash_to_id s h = None" "b \<notin> pinned_blocks s"
  shows "alloc_inv X (register_loaded (h, b, d) s)"
proof -
  have o: "own_with (add_mset b X) s" "cache_inv s" "hash_inv s" using assms(1) by (simp_all add: alloc_inv_def)
  define s1 where "s1 = s\<lparr>block_hash_to_id := (block_hash_to_id s)(h \<mapsto> b),
    block_id_to_hash := (block_id_to_hash s)(b \<mapsto> h)\<rparr>"
  have e: "register_loaded (h, b, d) s = (cache_ref b b s1)\<lparr>reclaimable_cached_count := reclaimable_cached_count s1 + 1\<rparr>"
    by (simp add: register_loaded_def s1_def Let_def)
  have f: "own_with (add_mset b X) s1" "cache_inv s1" "map_of (cached_blocks_map s1) b = None" "b \<notin> pinned_blocks s1"
    using o(1,2) assms(2,4) by (simp_all add: s1_def own_with_def kv_refs_def cache_inv_def)
  have "own_with X (register_loaded (h, b, d) s)"
    using own_cache_ref [OF f(1,3)] unfolding e by (simp add: own_with_def kv_refs_def)
  moreover have "cache_inv (register_loaded (h, b, d) s)"
    unfolding e using f(1) by (intro cache_inv_push(2) [OF f(2,3) _ f(4)]) (simp add: own_with_def)
  moreover have "hash_inv (register_loaded (h, b, d) s)"
    using o(3) assms(3) unfolding e by (auto simp: hash_inv_def cache_ref_def s1_def)
  ultimately show ?thesis by (simp add: alloc_inv_def)
qed

lemma register_loaded_fields:
  "alloc_frame s (register_loaded e s)"
  "map_of (cached_blocks_map (register_loaded e s)) = (map_of (cached_blocks_map s))(fst (snd e) \<mapsto> fst (snd e))"
  "block_hash_to_id (register_loaded e s) = (block_hash_to_id s)(fst e \<mapsto> fst (snd e))"
  "block_id_to_hash (register_loaded e s) = (block_id_to_hash s)(fst (snd e) \<mapsto> fst e)"
  by (auto simp: register_loaded_def cache_ref_def alloc_frame_def Let_def split: prod.splits)

lemma register_all:
  "alloc_inv (mset (entry_ids es) + X) s \<Longrightarrow> distinct (entry_ids es) \<Longrightarrow> distinct (map fst es) \<Longrightarrow>
    pinned_blocks s = {} \<Longrightarrow> \<forall>b \<in> set (entry_ids es). map_of (cached_blocks_map s) b = None \<Longrightarrow>
    \<forall>e \<in> set es. block_hash_to_id s (fst e) = None \<Longrightarrow>
    alloc_inv X (fold register_loaded es s) \<and> alloc_frame s (fold register_loaded es s)"
proof (induction es arbitrary: s)
  case (Cons e es)
  obtain h b d where e: "e = (h, b, d)" by (cases e)
  have a: "alloc_inv (mset (entry_ids es) + X) (register_loaded e s)"
    using Cons.prems unfolding e by (intro alloc_inv_register_loaded) (simp_all add: ac_simps)
  note f = register_loaded_fields [where s = s and e = e]
  have "pinned_blocks (register_loaded e s) = {}" using f(1) Cons.prems(4) by (simp add: alloc_frame_def)
  moreover have "\<forall>b \<in> set (entry_ids es). map_of (cached_blocks_map (register_loaded e s)) b = None"
    "\<forall>e' \<in> set es. block_hash_to_id (register_loaded e s) (fst e') = None"
    using Cons.prems unfolding f by (auto simp: e)
  ultimately show ?case using Cons.IH [OF a] Cons.prems(2,3) alloc_frame_trans [OF f(1)] by (simp add: e)
qed simp

lemma load_data_length: "load_data copied c i es m = (oks, m') \<Longrightarrow> length oks = length es"
  by (induction es arbitrary: i m oks m') (auto split: prod.splits)

lemma split_flags:
  "length oks = length es \<Longrightarrow>
    mset es = mset (map snd (filter fst (zip oks es))) + mset (map snd (filter (\<lambda>x. \<not> fst x) (zip oks es)))"
  by (induction oks es rule: list_induct2) auto

lemma live_nonneg: "\<forall>b \<in> set bs. 0 \<le> b \<Longrightarrow> live bs = bs"
  by (simp add: live_def)

text \<open>
  A load in a manager that pins nothing, from a file that repeats no hash, keeps the invariant
  and every table.
\<close>

definition clean_file :: "kv_cache \<Rightarrow> kv_mgr \<Rightarrow> u8 list \<Rightarrow> bool" where
  "clean_file c s f \<longleftrightarrow> distinct (map fst (fst (read_blocks (nat (sint (ph_n_blocks (header_of f))))
     (per_block_total c) (drop header_size f) s)))"

lemma kv_inv_alloc_frame: "kv_inv s \<Longrightarrow> alloc_frame s s' \<Longrightarrow> alloc_inv {#} s' \<Longrightarrow> kv_inv s'"
  using kv_inv_table_frame alloc_table_frame by blast

lemma alloc_inv_drop: "alloc_inv (mset (live bs) + X) s \<Longrightarrow> alloc_inv X (drop_refs bs s)"
  using own_drop_refs by (simp add: alloc_inv_def)

lemma alloc_frame_drop_refs: "alloc_frame s (drop_refs bs s)"
  by (simp add: alloc_frame_def drop_refs_def)

lemma read_outcome_alloc:
  assumes "alloc_inv X s" "read_outcome X s es s1"
  shows "alloc_inv (mset (entry_ids es) + X) s1" "alloc_frame s s1"
    "\<forall>b \<in> set (entry_ids es). 0 \<le> b \<and> map_of (cached_blocks_map s1) b = None"
    "\<forall>e \<in> set es. block_hash_to_id s1 (fst e) = None"
proof -
  obtain p where p: "own_with (mset (entry_ids es) + X) s1" "s1 = s\<lparr>kv_pool := p\<rparr>" "block_ids p = block_ids (kv_pool s)"
    "\<forall>b \<in> set (entry_ids es). 0 \<le> b \<and> b \<notin># kv_refs s + X" "\<forall>e \<in> set es. block_hash_to_id s (fst e) = None"
    using assms(2) unfolding read_outcome_def by blast
  show "alloc_inv (mset (entry_ids es) + X) s1"
    using assms(1) p(1) by (simp add: alloc_inv_def p(2) cache_inv_def hash_inv_def)
  show "alloc_frame s s1" by (simp add: alloc_frame_def p(2,3))
  show "\<forall>e \<in> set es. block_hash_to_id s1 (fst e) = None" using p(5) by (simp add: p(2))
  have o: "own_with X s" "cache_inv s" using assms(1) by (simp_all add: alloc_inv_def)
  have "map_of (cached_blocks_map s) b = None" if "b \<notin># kv_refs s" for b
  proof (rule ccontr)
    assume "map_of (cached_blocks_map s) b \<noteq> None"
    then have "b \<in> set (cached_blocks_lru s)"
      using o(2) by (metis cache_inv_def map_of_eq_None_iff)
    with cache_inv_nonneg(2) [OF o] that show False by blast
  qed
  with p(4) show "\<forall>b \<in> set (entry_ids es). 0 \<le> b \<and> map_of (cached_blocks_map s1) b = None" by (simp add: p(2))
qed

lemma load_registered:
  assumes ai: "alloc_inv X s" and ro: "read_outcome X s es s1" and len: "length oks = length es"
    and pin: "pinned_blocks s = {}" and d: "distinct (map fst es)"
  defines "good \<equiv> map snd (filter fst (zip oks es))" and "bad \<equiv> map snd (filter (\<lambda>x. \<not> fst x) (zip oks es))"
  defines "s' \<equiv> drop_refs (entry_ids bad) (fold register_loaded good s1)"
  shows "alloc_inv X s'" "alloc_frame s s'"
proof -
  note r = read_outcome_alloc [OF ai ro]
  have m: "mset es = mset good + mset bad" using split_flags [OF len] by (simp add: good_def bad_def)
  have ids: "mset (entry_ids es) = mset (entry_ids good) + mset (entry_ids bad)"
    using arg_cong [OF m, of "image_mset (\<lambda>(h, b, d). b)"] by (simp add: entry_ids_def)
  have dd: "distinct (entry_ids good @ entry_ids bad)" "distinct (map fst good @ map fst bad)"
    using ro d mset_eq_imp_distinct_iff [of "entry_ids good @ entry_ids bad" "entry_ids es"]
      mset_eq_imp_distinct_iff [of "map fst good @ map fst bad" "map fst es"]
    by (simp_all add: ids m read_outcome_def)
  have sub: "set (entry_ids good) \<union> set (entry_ids bad) = set (entry_ids es)" "set good \<subseteq> set es"
    using arg_cong [OF ids, of set_mset] arg_cong [OF m, of set_mset] by auto
  have "alloc_inv (mset (entry_ids good) + (mset (entry_ids bad) + X)) s1" using r(1) by (simp add: ids ac_simps)
  then have f: "alloc_inv (mset (entry_ids bad) + X) (fold register_loaded good s1) \<and>
      alloc_frame s1 (fold register_loaded good s1)"
    using dd r(2-4) sub pin by (intro register_all) (auto simp: alloc_frame_def)
  have "live (entry_ids bad) = entry_ids bad" using r(3) sub(1) by (intro live_nonneg) blast
  with f show "alloc_inv X s'" unfolding s'_def by (intro alloc_inv_drop) simp
  show "alloc_frame s s'" unfolding s'_def
    using f r(2) alloc_frame_drop_refs by (blast intro: alloc_frame_trans)
qed

lemma load_run:
  assumes "load_prefix_cache reserve_ok copied file fp c s m = Inr (r, s', m')"
  obtains (same) "s' = s" "m' = m" "r \<le> 0"
    | (loaded) f es s1 oks where "file = Some f" "header_size \<le> length f" "header_matches fp c (header_of f)"
      "0 \<le> sint (ph_n_blocks (header_of f))" "prefix_caching_enabled s"
      "read_blocks (nat (sint (ph_n_blocks (header_of f)))) (per_block_total c) (drop header_size f) s = (es, s1)"
      "load_data copied c 0 es m = (oks, m')" "r = int (length (filter fst (zip oks es)))"
      "s' = drop_refs (entry_ids (map snd (filter (\<lambda>x. \<not> fst x) (zip oks es))))
         (fold register_loaded (map snd (filter fst (zip oks es))) s1)"
  using assms unfolding load_prefix_cache_def entry_ids_def Let_def
  by (auto split: if_splits option.splits prod.splits)

lemma load_outcome:
  assumes inv: "kv_inv s" and run: "load_prefix_cache reserve_ok copied file fp c s m = Inr (r, s', m')"
    and pin: "pinned_blocks s = {}" and cl: "\<And>f. file = Some f \<Longrightarrow> clean_file c s f"
  shows "kv_inv s'" "alloc_frame s s'"
proof -
  have "kv_inv s' \<and> alloc_frame s s'" using run
  proof (cases rule: load_run)
    case same
    with inv show ?thesis by simp
  next
    case (loaded f es s1 oks)
    have a: "alloc_inv {#} s" "own_with {#} s" using kv_inv_alloc_inv [OF inv] by (simp_all add: alloc_inv_def)
    have "distinct (map fst es)" using cl [OF loaded(1)] loaded(6) by (simp add: clean_file_def)
    note g = load_registered [OF a(1) read_blocks_outcome [OF a(2) loaded(6)] load_data_length [OF loaded(7)] pin this,
      folded loaded(9)]
    from kv_inv_alloc_frame [OF inv g(2,1)] g(2) show ?thesis by simp
  qed
  then show "kv_inv s'" "alloc_frame s s'" by simp_all
qed

end
