(* ===== verification/KV_Reach.thy ===== *)
theory KV_Reach
  imports KV_Window KV_Persist
begin

text \<open>
  The life of a \<^verbatim>\<open>KVCacheManager\<close>: it is built over a cache and then every public operation can
  happen, in any order and with any arguments (a file is loaded while nothing is pinned, and repeats
  no hash; the files that are saved repeat none). Every state on the way satisfies the invariant,
  no window block is in two slots, and the geometry never changes; the properties of single
  operations are stated for all these states.
\<close>

section \<open>What no operation changes\<close>

definition geom :: "kv_mgr \<Rightarrow> int set \<times> int set \<times> int \<times> int" where
  "geom s = (block_ids (kv_pool s), block_ids (kv_swa_pool s), kv_block_size s, kv_swa_max_blocks s)"

text \<open>The part that only the window operations change.\<close>

definition base :: "kv_mgr \<Rightarrow> (int set \<times> int set \<times> int \<times> int) \<times> (int \<times> int list) list \<times> int \<times> int" where
  "base s = (geom s, seq_swa_blocks s, swa_window s, swa_slack s)"

lemmas base_defs = base_def geom_def

lemma base_alloc_frame: "alloc_frame s s' \<Longrightarrow> base s' = base s"
  by (simp add: base_defs alloc_frame_def)

lemma base_pin_frame: "pinq_frame s s' \<Longrightarrow> base s' = base s"
  by (simp add: base_defs pinq_frame_def pin_frame_def)

lemma block_ids_pool_acquire: "pool_acquire p = (b, p') \<Longrightarrow> block_ids p' = block_ids p"
  by (auto simp: pool_acquire_def block_ids_def Let_def split: if_splits)

lemma block_ids_share: "share_by_id b p = (c, p') \<Longrightarrow> block_ids p' = block_ids p"
  by (auto simp: share_by_id_def inc_ref_def block_ids_def Let_def split: if_splits)

lemma base_simps [simp]:
  "base (set_table seq t s) = base s" "base (push_ref seq b s) = base s" "base (drop_refs bs s) = base s"
  "base (shrink_table seq n s) = base s" "base (erase_table seq s) = base s"
  "base (track_lru seq s) = base s" "base (erase_hash_of b s) = base s"
  "base (drop_stale_hash_if_last b s) = base s" "base (set_hashes seq hs s) = base s"
  "base (push_hash seq h s) = base s" "base (put_hash h b s) = base s" "base (cache_ref b r s) = base s"
  "base (touch seq s) = base s" "base (s\<lparr>seq_block_hashes := hm\<rparr>) = base s"
  "base (s\<lparr>lru_order := l\<rparr>) = base s" "base (s\<lparr>kv_res := rs\<rparr>) = base s"
  "base (s\<lparr>cached_blocks_lru := l\<rparr>) = base s" "base (s\<lparr>cached_blocks_map := cm\<rparr>) = base s"
  "base (s\<lparr>reclaimable_cached_count := n'\<rparr>) = base s" "base (s\<lparr>pinned_blocks := ps\<rparr>) = base s"
  "base (s\<lparr>block_id_to_hash := ih\<rparr>) = base s" "base (s\<lparr>block_hash_to_id := hi\<rparr>) = base s"
  "base (s\<lparr>prefix_caching_enabled := en\<rparr>) = base s" "base (s\<lparr>pin_budget_blocks := n'\<rparr>) = base s"
  by (simp_all add: base_defs set_table_def push_ref_def drop_refs_def shrink_table_def erase_table_def
      track_lru_def erase_hash_of_def drop_stale_hash_if_last_def set_hashes_def push_hash_def
      put_hash_def cache_ref_def touch_def split: option.split)

lemma base_acquire: "acquire_block_ref s = (r, s') \<Longrightarrow> base s' = base s"
  by (auto simp: acquire_block_ref_def base_defs split: prod.splits dest: block_ids_pool_acquire)

lemma base_share: "share_block b s = (r, s') \<Longrightarrow> base s' = base s"
  by (auto simp: share_block_def base_defs split: prod.splits dest: block_ids_share)

lemma base_erase_cached [simp]: "base (erase_cached b s) = base s"
  by (simp add: erase_cached_def split: option.split)

lemma base_reclaim: "reclaim_cached_block s = (b, s') \<Longrightarrow> base s' = base s"
  by (auto simp: reclaim_cached_block_def Let_def split: if_splits)

lemma base_reclaim_until: "reclaim_until_acquired s = (b, s') \<Longrightarrow> base s' = base s"
proof (induction s arbitrary: b s' rule: reclaim_until_acquired.induct)
  case (1 s)
  obtain c s1 where c: "reclaim_cached_block s = (c, s1)" by fastforce
  obtain r s2 where r: "acquire_block_ref s1 = (r, s2)" by fastforce
  have e: "base s2 = base s" "base s1 = base s" using base_acquire [OF r] base_reclaim [OF c] by simp_all
  show ?case
  proof (cases "cached_blocks_lru s = [] \<or> c < 0 \<or> 0 \<le> r")
    case True
    with 1(2) c r e show ?thesis by (auto simp: reclaim_until_acquired.simps [of s] split: if_splits)
  next
    case False
    then have "reclaim_until_acquired s2 = (b, s')"
      using 1(2) c r by (simp add: reclaim_until_acquired.simps [of s])
    with 1(1) [OF _ c [symmetric] _ r [symmetric]] False e show ?thesis by simp
  qed
qed

lemma base_allocate_ref: "allocate_block_ref_with_eviction s = (b, s') \<Longrightarrow> base s' = base s"
  by (auto simp: allocate_block_ref_with_eviction_def split: prod.splits if_splits
      dest!: base_acquire base_reclaim_until)

lemma base_allocate_loop: "allocate_loop n seq s = (ok, s') \<Longrightarrow> base s' = base s"
proof (induction n arbitrary: s)
  case (Suc n)
  obtain r s1 where r: "allocate_block_ref_with_eviction s = (r, s1)" by fastforce
  have "base s1 = base s" by (rule base_allocate_ref [OF r])
  moreover have "allocate_loop n seq (push_ref seq r s1) = (ok, s')" if "\<not> r < 0"
    using Suc.prems r that by simp
  ultimately show ?case using Suc.IH [of "push_ref seq r s1"] Suc.prems r by (cases "r < 0") simp_all
qed simp

lemma base_allocate_blocks: "allocate_blocks seq n s = (ok, s') \<Longrightarrow> base s' = base s"
  by (auto simp: allocate_blocks_def Let_def split: if_splits prod.splits bool.splits
      dest!: base_allocate_loop)

lemma base_append_block: "append_block seq s = (r, s') \<Longrightarrow> base s' = base s"
  by (auto simp: append_block_def split: if_splits prod.splits option.splits dest!: base_allocate_ref)

lemma base_free_slots: "free_slots t s = (t', s') \<Longrightarrow> base s' = base s"
proof (induction t arbitrary: t' s)
  case (Cons b t)
  obtain c s1 where f: "free_slot b s = (c, s1)" by fastforce
  then have "base s1 = base s" by (auto simp: free_slot_def split: if_splits)
  with Cons f show ?case by (auto split: prod.splits)
qed simp

lemma base_evict_cached: "evict_cached_block s = (ok, s') \<Longrightarrow> base s' = base s"
  by (auto simp: evict_cached_block_def split: prod.splits dest!: base_reclaim)

lemma base_reuse [simp]: "base (reuse_block seq b s) = base s"
  by (auto simp: reuse_block_def split: option.split prod.split dest!: base_share)

lemma base_prefix_lookup: "prefix_lookup h s = (r, s') \<Longrightarrow> base s' = base s"
  by (auto simp: prefix_lookup_def split: option.splits if_splits)

lemma base_drop_stale_fold [simp]: "base (fold (\<lambda>j s. drop_stale_hash_if_last (f j) s) js s) = base s"
  by (induction js arbitrary: s) simp_all

lemma base_rollback_partial [simp]: "base (rollback_partial_allocation seq n s) = base s"
  by (simp add: rollback_partial_allocation_def Let_def)

lemma base_prefix_loop:
  "prefix_loop k b seq toks mr osz parent open reused s = (r, s') \<Longrightarrow> base s' = base s"
proof (induction k arbitrary: b parent "open" reused s)
  case (Suc k)
  from Suc.prems show ?case
    by (auto simp: Let_def split: if_splits prod.splits option.splits
        dest!: Suc.IH base_allocate_ref base_prefix_lookup)
qed simp

lemma base_allocate_prefix: "allocate_blocks_with_prefix seq toks mr salt s = (r, s') \<Longrightarrow> base s' = base s"
  by (auto simp: allocate_blocks_with_prefix_def Let_def split: if_splits prod.splits
      dest!: base_allocate_blocks base_prefix_loop)

lemma base_register_loop [simp]: "base (register_loop k b seq toks parent s) = base s"
  by (induction k arbitrary: b parent s) (simp_all add: Let_def)

lemma base_register [simp]: "base (register_block_hashes seq toks salt s) = base s"
  by (simp add: register_block_hashes_def split: option.split)

lemma base_pop_tail [simp]: "base (pop_tail k seq s) = base s"
  by (induction k arbitrary: s) (simp_all add: Let_def)

lemma base_evict_slot: "evict_slot seq i (k, s) = (k', s') \<Longrightarrow> base s' = base s"
  by (auto simp: evict_slot_def Let_def split: if_splits)

lemma base_evict_fold: "fold (evict_slot seq) is (k, s) = (k', s') \<Longrightarrow> base s' = base s"
proof (induction "is" arbitrary: k s)
  case (Cons i js)
  obtain k1 s1 where e: "evict_slot seq i (k, s) = (k1, s1)" by fastforce
  with Cons.IH [of k1 s1] Cons.prems base_evict_slot [OF e] show ?case by simp
qed simp

lemma base_clear_hash [simp]: "base (clear_hash seq i s) = base s"
  by (simp add: clear_hash_def Let_def)

lemma base_clear_fold [simp]: "base (fold (clear_hash seq) is s) = base s"
  by (induction "is" arbitrary: s) simp_all

lemma base_pin_prefix: "kv_inv s \<Longrightarrow> pin_prefix seq n s = Some s' \<Longrightarrow> base s' = base s"
  using pin_prefix_outcome [of s seq n] base_pin_frame by auto

lemma base_evict_middle:
  assumes "kv_inv s" "evict_middle_blocks seq n_sink n_window s = Some (k, s')"
  shows "base s' = base s"
  using assms
  by (auto simp: evict_middle_blocks_def Let_def split: option.splits if_splits prod.splits
      dest!: base_evict_fold base_pin_prefix [OF assms(1)])

text \<open>The operations that also touch the window tables: the rest stays.\<close>

definition wgeom :: "kv_mgr \<Rightarrow> (int set \<times> int set \<times> int \<times> int) \<times> int \<times> int" where
  "wgeom s = (geom s, swa_window s, swa_slack s)"

lemma wgeom_base: "base s' = base s \<Longrightarrow> wgeom s' = wgeom s"
  by (simp add: base_def wgeom_def)

lemma wgeom_free_swa [simp]: "wgeom (free_swa_block b s) = wgeom s"
  by (simp add: wgeom_def geom_def free_swa_block_def)

lemma wgeom_free_fold [simp]:
  "wgeom (fold (\<lambda>b s. if 0 \<le> b then free_swa_block b s else s) t s) = wgeom s"
  by (induction t arbitrary: s) simp_all

lemma wgeom_updates [simp]:
  "wgeom (s\<lparr>seq_swa_blocks := al\<rparr>) = wgeom s" "wgeom (s\<lparr>swa_trim_cursor := cu\<rparr>) = wgeom s"
  by (simp_all add: wgeom_def geom_def)

lemma wgeom_rollback: "wgeom (rollback seq n s) = wgeom s"
proof -
  have "wgeom (rollback_swa seq k u) = wgeom u" for k u
    by (simp add: rollback_swa_def Let_def split: option.split)
  moreover have "wgeom (u\<lparr>seq_block_hashes := h\<rparr>) = wgeom u" "wgeom (pop_tail k seq u) = wgeom u" for u h k
    by (rule wgeom_base, simp)+
  ultimately show ?thesis by (simp add: rollback_def Let_def split: option.split)
qed

lemma wgeom_free_sequence: "wgeom (free_sequence seq s) = wgeom s"
proof (cases "map_of (seq_blocks s) seq")
  case None
  then show ?thesis by (simp add: free_sequence_def)
next
  case (Some t)
  obtain t' s1 where f: "free_slots t s = (t', s1)" by fastforce
  have "wgeom (free_swa_table seq u) = wgeom u" for u
    by (simp add: free_swa_table_def split: option.split)
  moreover have "wgeom (u\<lparr>seq_block_hashes := h\<rparr>) = wgeom u" "wgeom (u\<lparr>lru_order := l\<rparr>) = wgeom u"
    "wgeom (u\<lparr>kv_res := x\<rparr>) = wgeom u" "wgeom (drop_refs t' u) = wgeom u" "wgeom (erase_table seq u) = wgeom u"
    for u h l x by (rule wgeom_base, simp)+
  moreover have "wgeom s1 = wgeom s" by (rule wgeom_base [OF base_free_slots [OF f]])
  ultimately show ?thesis by (simp add: free_sequence_def Some f Let_def)
qed

lemma wgeom_swa_frame: "swa_frame s s' \<Longrightarrow> wgeom s' = wgeom s"
  unfolding swa_frame_def by (cases s, cases s') (simp add: wgeom_def geom_def)

section \<open>Setters\<close>

definition set_prefix_caching_enabled :: "bool \<Rightarrow> kv_mgr \<Rightarrow> kv_mgr" where
  "set_prefix_caching_enabled enabled s = s\<lparr>prefix_caching_enabled := enabled\<rparr>"

definition set_pin_budget_blocks :: "int \<Rightarrow> kv_mgr \<Rightarrow> kv_mgr" where
  "set_pin_budget_blocks n s = s\<lparr>pin_budget_blocks := n\<rparr>"

lemma kv_inv_setters:
  "kv_inv s \<Longrightarrow> kv_inv (set_prefix_caching_enabled en s)" "kv_inv s \<Longrightarrow> kv_inv (set_pin_budget_blocks n s)"
  by (simp_all add: set_prefix_caching_enabled_def set_pin_budget_blocks_def kv_inv_def own_with_def
      kv_refs_def cache_inv_def swa_inv_def hash_inv_def pin_inv_def)

section \<open>The step relation\<close>

definition kv_init :: "kv_cache \<Rightarrow> kv_mgr" where
  "kv_init c = kv_new (kc_blocks c) (kc_swa_blocks c) (int (kc_block_size c)) (int (kc_swa_max_blocks c))"

inductive kv_step :: "kv_cache \<Rightarrow> kv_mgr \<Rightarrow> kv_mgr \<Rightarrow> bool" for c :: kv_cache where
  allocate: "allocate_blocks seq n s = (ok, s') \<Longrightarrow> kv_step c s s'"
| append: "append_block seq s = (r, s') \<Longrightarrow> kv_step c s s'"
| free: "kv_step c s (free_sequence seq s)"
| touched: "kv_step c s (touch seq s)"
| evict: "evict_lru s = (r, s') \<Longrightarrow> kv_step c s s'"
| evict_cached: "evict_cached_block s = (ok, s') \<Longrightarrow> kv_step c s s'"
| prefix: "allocate_blocks_with_prefix seq toks mr salt s = (r, s') \<Longrightarrow> kv_step c s s'"
| register: "kv_step c s (register_block_hashes seq toks salt s)"
| pin: "pin_prefix seq n s = Some s' \<Longrightarrow> kv_step c s s'"
| unpin: "kv_step c s (unpin_prefix seq s)"
| rolled: "kv_step c s (rollback seq n s)"
| evict_middle: "evict_middle_blocks seq n_sink n_window s = Some (k, s') \<Longrightarrow> kv_step c s s'"
| sizing: "kv_step c s (enable_swa_sizing window slack s)"
| prepare: "swa_prepare seq from_tokens upto_tokens s = (ok, s') \<Longrightarrow> kv_step c s s'"
| trim: "kv_step c s (swa_trim seq committed s)"
| restore: "swa_snapshot_restore order seq upto_tokens slab c ss s m = (ok, s', m') \<Longrightarrow> kv_step c s s'"
| residual: "res_step (kv_res s) r \<Longrightarrow> kv_step c s (s\<lparr>kv_res := r\<rparr>)"
| caching: "kv_step c s (set_prefix_caching_enabled en s)"
| budget: "kv_step c s (set_pin_budget_blocks n s)"
| load: "load_prefix_cache reserve_ok copied file fp c s m = Inr (n, s', m') \<Longrightarrow> pinned_blocks s = {} \<Longrightarrow>
    (\<And>f. file = Some f \<Longrightarrow> clean_file c s f) \<Longrightarrow> kv_step c s s'"

definition kv_reach :: "(nat \<Rightarrow> nat \<Rightarrow> nat option) \<Rightarrow> kv_cache \<Rightarrow> kv_mgr \<Rightarrow> bool" where
  "kv_reach alloc c s \<longleftrightarrow> kv_built alloc c \<and> 0 < kc_block_size c \<and> (kv_step c)\<^sup>*\<^sup>* (kv_init c) s"

section \<open>The invariant of all reachable states\<close>

definition kv_good :: "kv_cache \<Rightarrow> kv_mgr \<Rightarrow> bool" where
  "kv_good c s \<longleftrightarrow> kv_inv s \<and> swa_solo s \<and> geom s = geom (kv_init c) \<and>
     (swa_window s = 0 \<or> 0 < swa_window s \<and> kv_block_size s \<le> swa_slack s)"

lemma kv_good_base:
  assumes "kv_good c s" "base s' = base s" "kv_inv s'"
  shows "kv_good c s'"
proof -
  have e: "geom s' = geom s" "seq_swa_blocks s' = seq_swa_blocks s" "swa_window s' = swa_window s"
    "swa_slack s' = swa_slack s" using assms(2) by (simp_all add: base_def)
  then have "kv_block_size s' = kv_block_size s" by (simp add: geom_def)
  with assms(1,3) show ?thesis by (simp only: kv_good_def swa_solo_def e) blast
qed

lemma kv_good_wgeom:
  assumes "kv_good c s" "wgeom s' = wgeom s" "kv_inv s'" "swa_solo s'"
  shows "kv_good c s'"
proof -
  have e: "geom s' = geom s" "swa_window s' = swa_window s" "swa_slack s' = swa_slack s"
    using assms(2) by (simp_all add: wgeom_def)
  then have "kv_block_size s' = kv_block_size s" by (simp add: geom_def)
  with assms(1,3,4) show ?thesis by (simp only: kv_good_def e)
qed

lemma restore_good:
  assumes g: "kv_good c s" and run: "swa_snapshot_restore order seq up slab c ss s m = (ok, s', m')"
  shows "kv_good c s'"
proof (cases "restore_ready seq up slab ss s")
  case False
  with g run restore_not_ready show ?thesis by auto
next
  case True
  then obtain p where p: "slab = Some p" by (auto simp: restore_ready_def)
  have inv: "kv_inv s" "swa_solo s" using g by (simp_all add: kv_good_def)
  have "swa_own {#} s' \<and> swa_frame s s'"
    using restore_outcome [OF inv True [unfolded p] run [unfolded p]]
    by (auto simp: window_ready_def window_undone_def split: if_splits)
  then show ?thesis
    using kv_good_wgeom [OF g wgeom_swa_frame] kv_inv_swa_frame [OF inv(1)] by (simp add: swa_own_iff)
qed

lemma evict_lru_eq: "evict_lru s = (r, s') \<Longrightarrow> s' = s \<or> (\<exists>q. s' = free_sequence q s)"
  by (auto simp: evict_lru_def split: option.splits)

lemma free_good: "kv_good c s \<Longrightarrow> kv_good c (free_sequence q s)"
  by (rule kv_good_wgeom [OF _ wgeom_free_sequence])
    (auto simp: kv_good_def intro: free_sequence_inv free_sequence_solo)

lemma sizing_good:
  assumes "kv_good c s"
  shows "kv_good c (enable_swa_sizing w k s)"
proof -
  have "kv_inv s \<Longrightarrow> kv_inv (s\<lparr>swa_window := a, swa_slack := b\<rparr>)" for a b
    by (simp add: kv_inv_def own_with_def kv_refs_def cache_inv_def swa_inv_def hash_inv_def pin_inv_def)
  with assms show ?thesis by (auto simp: kv_good_def enable_swa_sizing_def swa_solo_def geom_def)
qed

lemma kv_good_inv: "kv_good c s \<Longrightarrow> kv_inv s" "kv_good c s \<Longrightarrow> swa_solo s"
  by (simp_all add: kv_good_def)

lemma global_step_good:
  assumes g: "kv_good c s"
  shows "allocate_blocks seq n s = (ok, s') \<Longrightarrow> kv_good c s'"
    "append_block seq s = (r, s') \<Longrightarrow> kv_good c s'"
    "evict_cached_block s = (ok, s') \<Longrightarrow> kv_good c s'"
    "allocate_blocks_with_prefix seq toks mr salt s = (r, s') \<Longrightarrow> kv_good c s'"
    "kv_good c (register_block_hashes seq toks salt s)"
    "pin_prefix seq n s = Some s' \<Longrightarrow> kv_good c s'"
    "kv_good c (unpin_prefix seq s)"
    "evict_middle_blocks seq n_sink n_window s = Some (k, s') \<Longrightarrow> kv_good c s'"
    "kv_good c (touch seq s)"
proof -
  note inv = kv_good_inv(1) [OF g]
  note good = kv_good_base [OF g]
  show "kv_good c s'" if "allocate_blocks seq n s = (ok, s')"
    by (rule good [OF base_allocate_blocks [OF that] allocate_blocks_outcome [OF inv that, THEN conjunct1]])
  show "kv_good c s'" if "append_block seq s = (r, s')"
    by (rule good [OF base_append_block [OF that] append_block_outcome [OF inv that, THEN conjunct1]])
  show "kv_good c s'" if e: "evict_cached_block s = (ok, s')"
    using good [OF base_evict_cached [OF e]] evict_cached_block_inv [OF inv] unfolding e snd_conv .
  show "kv_good c s'" if e: "allocate_blocks_with_prefix seq toks mr salt s = (r, s')"
    using good [OF base_allocate_prefix [OF e]] allocate_with_prefix_inv [OF inv, of seq toks mr salt]
    unfolding e snd_conv .
  show "kv_good c (register_block_hashes seq toks salt s)"
    by (rule good [OF base_register register_block_hashes_inv [OF inv]])
  show "kv_good c s'" if e: "pin_prefix seq n s = Some s'"
  proof -
    have "kv_inv s'" using pin_prefix_outcome [OF inv, of seq n] unfolding e by blast
    with base_pin_prefix [OF inv e] show ?thesis by (rule good)
  qed
  show "kv_good c (unpin_prefix seq s)"
  proof (cases "pinned_seq_blocks s seq")
    case None
    with g show ?thesis by (simp add: unpin_prefix_def)
  next
    case (Some bs)
    note u = unpin_prefix_inv [OF inv Some]
    show ?thesis by (rule good [OF base_pin_frame [OF u(2)] u(1)])
  qed
  show "kv_good c s'" if e: "evict_middle_blocks seq n_sink n_window s = Some (k, s')"
  proof -
    have "kv_inv s'" using evict_middle_outcome [OF inv, of seq n_sink n_window] unfolding e by auto
    with base_evict_middle [OF inv e] show ?thesis by (rule good)
  qed
  show "kv_good c (touch seq s)" by (rule good [OF _ touch_inv [OF inv]]) simp
qed

lemma window_step_good:
  assumes g: "kv_good c s"
  shows "swa_prepare seq fr up s = (ok, s') \<Longrightarrow> kv_good c s'" "kv_good c (swa_trim seq committed s)"
    "kv_good c (rollback seq n s)"
proof -
  note inv = kv_good_inv [OF g]
  show "kv_good c s'" if "swa_prepare seq fr up s = (ok, s')"
  proof -
    note o = swa_prepare_outcome [OF inv that]
    have "swa_frame s s'" "kv_inv s'" "swa_solo s'" using o by blast+
    then show ?thesis by (intro kv_good_wgeom [OF g wgeom_swa_frame])
  qed
  note t = swa_trim_outcome [OF inv order_refl, of seq committed]
  have "swa_frame s (swa_trim seq committed s)" "kv_inv (swa_trim seq committed s)"
    "swa_solo (swa_trim seq committed s)" using t by blast+
  then show "kv_good c (swa_trim seq committed s)" by (intro kv_good_wgeom [OF g wgeom_swa_frame])
  show "kv_good c (rollback seq n s)"
    by (rule kv_good_wgeom [OF g wgeom_rollback rollback_outcome [OF inv(1), THEN conjunct1]
          rollback_solo [OF inv]])
qed

lemma setting_step_good:
  assumes g: "kv_good c s"
  shows "res_step (kv_res s) r \<Longrightarrow> kv_good c (s\<lparr>kv_res := r\<rparr>)" "kv_good c (set_prefix_caching_enabled en s)"
    "kv_good c (set_pin_budget_blocks n s)"
proof -
  note inv = kv_good_inv(1) [OF g]
  show "kv_good c (s\<lparr>kv_res := r\<rparr>)" if "res_step (kv_res s) r"
  proof -
    have "res_inv r" using res_step_inv [OF that] inv by (simp add: kv_inv_def)
    with inv have "kv_inv (s\<lparr>kv_res := r\<rparr>)"
      by (simp add: kv_inv_def own_with_def kv_refs_def cache_inv_def swa_inv_def hash_inv_def pin_inv_def)
    then show ?thesis by (intro kv_good_base [OF g]) simp_all
  qed
  show "kv_good c (set_prefix_caching_enabled en s)"
    by (rule kv_good_base [OF g _ kv_inv_setters(1) [OF inv]]) (simp add: set_prefix_caching_enabled_def)
  show "kv_good c (set_pin_budget_blocks n s)"
    by (rule kv_good_base [OF g _ kv_inv_setters(2) [OF inv]]) (simp add: set_pin_budget_blocks_def)
qed

lemma kv_step_good:
  assumes "kv_step c s s'" "kv_good c s"
  shows "kv_good c s'"
  using assms(1)
proof cases
  case (load reserve_ok copied fo fp m n m')
  note o = load_outcome [OF kv_good_inv(1) [OF assms(2)] load]
  show ?thesis by (rule kv_good_base [OF assms(2) base_alloc_frame [OF o(2)] o(1)])
next
  case (evict r)
  then show ?thesis using evict_lru_eq [OF evict] free_good [OF assms(2)] assms(2) by auto
qed (simp_all only: global_step_good [OF assms(2)] window_step_good [OF assms(2)]
    setting_step_good [OF assms(2)] free_good [OF assms(2)] restore_good [OF assms(2)] sizing_good [OF assms(2)])

section \<open>The first state\<close>

definition pools_fresh :: "kv_cache \<Rightarrow> bool" where
  "pools_fresh c \<longleftrightarrow> pool_owned (kc_blocks c) {#} \<and> block_ids (kc_blocks c) = {0..<int (kc_max_blocks c)} \<and>
     pool_owned (kc_swa_blocks c) {#} \<and> block_ids (kc_swa_blocks c) = {0..<int (kc_swa_max_blocks c)}"

lemma open_slots_fresh:
  "open_slots n closed_pool = (Ok, p) \<Longrightarrow> pool_owned p {#} \<and> block_ids p = {0..<n}"
proof -
  assume o: "open_slots n closed_pool = (Ok, p)"
  then have n: "0 < n" and p: "p = init_slots n (closed_pool\<lparr>bp_block_bytes := 0\<rparr>)"
    by (auto simp: open_slots_def split: if_splits)
  have "block_ids p = {0..<n}" by (simp add: p init_slots_def block_ids_def)
  with pool_owned_init [of n "closed_pool\<lparr>bp_block_bytes := 0\<rparr>"] n show ?thesis by (simp add: p)
qed

lemma closed_pool_fresh: "pool_owned closed_pool {#} \<and> block_ids closed_pool = {0..<0}"
  using pool_inv_closed by (simp add: pool_owned_def block_ids_def closed_pool_def)

lemma kv_cache_new_fresh:
  "kv_cache_new alloc n nkv hdim dtype mb bs m = Inr (c, m') \<Longrightarrow> pools_fresh c"
  using closed_pool_fresh
  by (auto simp: kv_cache_new_def pools_fresh_def Let_def split: option.splits if_splits prod.splits
      dest!: open_slots_fresh)

lemma kv_cache_per_layer_fresh:
  "kv_cache_per_layer alloc n nkvs hds dtype mb bs swa smax m = Inr (c, m') \<Longrightarrow> pools_fresh c"
  using closed_pool_fresh
  by (auto simp: kv_cache_per_layer_def pools_fresh_def Let_def split: option.splits if_splits prod.splits
      dest!: open_slots_fresh)

lemma kv_built_fresh: "kv_built alloc c \<Longrightarrow> pools_fresh c"
  unfolding kv_built_def by (elim conjE disjE exE) (rule kv_cache_new_fresh kv_cache_per_layer_fresh, assumption)+

lemma kv_init_good:
  assumes "kv_built alloc c" "0 < kc_block_size c"
  shows "kv_good c (kv_init c)"
proof -
  have "kv_inv (kv_init c)"
    using kv_built_fresh [OF assms(1)] assms(2) res_inv_new
    by (simp add: kv_init_def kv_new_def pools_fresh_def kv_inv_def own_with_def kv_refs_def cache_inv_def
        swa_inv_def hash_inv_def pin_inv_def pin_count_def)
  then show ?thesis by (simp add: kv_good_def swa_solo_def) (simp add: kv_init_def kv_new_def)
qed

lemma kv_reach_good: "kv_reach alloc c s \<Longrightarrow> kv_good c s"
proof -
  assume r: "kv_reach alloc c s"
  then have "(kv_step c)\<^sup>*\<^sup>* (kv_init c) s" by (simp add: kv_reach_def)
  then show ?thesis
  proof (induction rule: rtranclp_induct)
    case base
    show ?case using r kv_init_good unfolding kv_reach_def by blast
  next
    case (step s1 s2)
    then show ?case using kv_step_good by blast
  qed
qed

lemma kv_reach_inv:
  assumes "kv_reach alloc c s"
  shows "kv_inv s" "swa_solo s" "kv_block_size s = int (kc_block_size c)" "swa_over c s"
    "block_ids (kv_pool s) = {0..<int (kc_max_blocks c)}" "0 < kv_block_size s"
    "0 < swa_window s \<Longrightarrow> kv_block_size s \<le> swa_slack s"
proof -
  note g = kv_reach_good [OF assms]
  have f: "pools_fresh c" using kv_built_fresh assms unfolding kv_reach_def by blast
  show "kv_inv s" "swa_solo s" using g by (simp_all add: kv_good_def)
  then show "0 < kv_block_size s" by (simp add: kv_inv_def)
  have ge: "geom s = geom (kv_init c)" using g by (simp add: kv_good_def)
  then show "kv_block_size s = int (kc_block_size c)" by (simp add: geom_def kv_init_def kv_new_def)
  show "swa_over c s" "block_ids (kv_pool s) = {0..<int (kc_max_blocks c)}"
    using ge f by (simp_all add: geom_def kv_init_def kv_new_def swa_over_def pools_fresh_def)
  show "0 < swa_window s \<Longrightarrow> kv_block_size s \<le> swa_slack s" using g by (auto simp: kv_good_def)
qed

end
