(* ===== verification/KV_Refine.thy ===== *)
theory KV_Refine
  imports KV_Reach
begin

text \<open>
  An abstract view of the manager: a block table per sequence. A step of the specification
  changes the table of one sequence only, by appending blocks no table holds, by starting it
  with blocks already held, by cutting off its tail, by punching holes into it or by dropping
  it. Every operation of the manager is such a step, in every reachable state.
\<close>

section \<open>Specification\<close>

definition tables :: "kv_mgr \<Rightarrow> int \<Rightarrow> int list" where
  "tables s = (\<lambda>q. table_of q s)"

definition held :: "kv_mgr \<Rightarrow> int set" where
  "held s = set_mset (kv_refs s)"

definition unused :: "(int \<Rightarrow> int list) \<Rightarrow> int list \<Rightarrow> bool" where
  "unused T rs \<longleftrightarrow> distinct rs \<and> (\<forall>r \<in> set rs. 0 \<le> r \<and> (\<forall>q. r \<notin> set (T q)))"

inductive table_step :: "int set \<Rightarrow> (int \<Rightarrow> int list) \<Rightarrow> (int \<Rightarrow> int list) \<Rightarrow> bool" for H where
  ts_skip: "table_step H T T"
| ts_grow: "unused T rs \<Longrightarrow> table_step H T (T(q := T q @ rs))"
| ts_share: "T q = [] \<Longrightarrow> set hs \<subseteq> H \<Longrightarrow> unused T rs \<Longrightarrow> table_step H T (T(q := hs @ rs))"
| ts_cut: "table_step H T (T(q := take n (T q)))"
| ts_punch: "table_step H T (T(q := punch a b (T q)))"
| ts_drop: "table_step H T (T(q := []))"

section \<open>Tables of the operations\<close>

lemma unused_tables:
  assumes "kv_inv s" "distinct rs" "\<forall>r \<in> set rs. 0 \<le> r \<and> r \<notin># table_refs (seq_blocks s)"
  shows "unused (tables s) rs"
proof -
  have "r \<notin> set (table_of q s)" if "r \<in> set rs" for r q
  proof
    assume r: "r \<in> set (table_of q s)"
    then obtain t where "map_of (seq_blocks s) q = Some t" "r \<in> set t"
      by (cases "map_of (seq_blocks s) q") (simp_all add: table_of_def)
    then have "r \<in># table_refs (seq_blocks s)"
      using assms(3) that unfolding table_refs_mem by (auto simp: live_def dest: map_of_SomeD)
    with assms(3) that show False by blast
  qed
  with assms show ?thesis by (simp add: unused_def tables_def)
qed

lemma table_step_upd:
  assumes "\<And>q. q \<noteq> seq \<Longrightarrow> table_of q s' = table_of q s"
  shows "table_of seq s' = table_of seq s \<Longrightarrow> table_step H (tables s) (tables s')"
    "table_of seq s' = table_of seq s @ rs \<Longrightarrow> unused (tables s) rs \<Longrightarrow> table_step H (tables s) (tables s')"
    "table_of seq s' = hs @ rs \<Longrightarrow> table_of seq s = [] \<Longrightarrow> set hs \<subseteq> H \<Longrightarrow> unused (tables s) rs \<Longrightarrow>
       table_step H (tables s) (tables s')"
    "table_of seq s' = take n (table_of seq s) \<Longrightarrow> table_step H (tables s) (tables s')"
    "table_of seq s' = punch a b (table_of seq s) \<Longrightarrow> table_step H (tables s) (tables s')"
    "table_of seq s' = [] \<Longrightarrow> table_step H (tables s) (tables s')"
proof -
  have e: "tables s' = (tables s)(seq := table_of seq s')" using assms by (auto simp: tables_def)
  have t: "table_of seq s = tables s seq" by (simp add: tables_def)
  show "table_of seq s' = table_of seq s \<Longrightarrow> table_step H (tables s) (tables s')"
    unfolding e t by (simp add: ts_skip)
  show "table_of seq s' = table_of seq s @ rs \<Longrightarrow> unused (tables s) rs \<Longrightarrow> table_step H (tables s) (tables s')"
    unfolding e t by (simp add: ts_grow)
  show "table_of seq s' = hs @ rs \<Longrightarrow> table_of seq s = [] \<Longrightarrow> set hs \<subseteq> H \<Longrightarrow> unused (tables s) rs \<Longrightarrow>
       table_step H (tables s) (tables s')"
    unfolding e t by (simp add: ts_share)
  show "table_of seq s' = take n (table_of seq s) \<Longrightarrow> table_step H (tables s) (tables s')"
    unfolding e t by (simp add: ts_cut)
  show "table_of seq s' = punch a b (table_of seq s) \<Longrightarrow> table_step H (tables s) (tables s')"
    unfolding e t by (simp add: ts_punch)
  show "table_of seq s' = [] \<Longrightarrow> table_step H (tables s) (tables s')"
    unfolding e t by (simp add: ts_drop)
qed

lemma same_tables: "seq_blocks s' = seq_blocks s \<Longrightarrow> table_step H (tables s) (tables s')"
  using ts_skip [of H "tables s"] by (simp add: tables_def table_of_def)

lemma allocate_table_step:
  assumes inv: "kv_inv s" and run: "allocate_blocks seq n s = (ok, s')"
  shows "table_step H (tables s) (tables s')"
proof -
  note o = allocate_blocks_outcome [OF inv run]
  show ?thesis
  proof (cases ok)
    case True
    with o obtain rs where "table_of seq s' = table_of seq s @ rs" "distinct rs"
      "\<forall>r \<in> set rs. 0 \<le> r \<and> r \<notin># table_refs (seq_blocks s)" by auto
    with o unused_tables [OF inv] show ?thesis by (intro table_step_upd(2)) auto
  next
    case False
    with o show ?thesis by (intro table_step_upd(1)) auto
  qed
qed

lemma append_table_step:
  assumes inv: "kv_inv s" and run: "append_block seq s = (r, s')"
  shows "table_step H (tables s) (tables s')"
proof -
  note o = append_block_outcome [OF inv run]
  show ?thesis
  proof (cases "map_of (seq_blocks s) seq \<noteq> None \<and> 0 < avail s")
    case True
    with o have a: "0 \<le> r \<and> r \<notin># table_refs (seq_blocks s)" "table_of seq s' = table_of seq s @ [r]"
      by simp_all
    then have "unused (tables s) [r]" by (intro unused_tables [OF inv]) simp_all
    with o a(2) show ?thesis by (intro table_step_upd(2)) auto
  next
    case False
    with o show ?thesis by (intro table_step_upd(1)) auto
  qed
qed

lemma free_sequence_tables:
  assumes inv: "kv_inv s"
  shows "tables (free_sequence seq s) = (tables s)(seq := [])"
proof (cases "map_of (seq_blocks s) seq")
  case None
  then show ?thesis by (auto simp: free_sequence_def tables_def table_of_def)
next
  case (Some t)
  note f = free_global_inv [OF inv Some]
  have "seq_blocks (free_swa_table seq u) = seq_blocks u" for u
    by (simp add: free_swa_table_def free_swa_fold split: option.split)
  then have e: "seq_blocks (free_sequence seq s) = seq_blocks (free_global seq t s)"
    by (simp add: free_sequence_eq [OF Some] Let_def)
  show ?thesis
    using table_frame_other [OF f(2)] f(3) by (intro ext) (auto simp: tables_def table_of_def e)
qed

lemma free_table_step: "kv_inv s \<Longrightarrow> table_step H (tables s) (tables (free_sequence seq s))"
  by (simp add: free_sequence_tables ts_drop)

lemma reuse_ids_held:
  assumes inv: "kv_inv s"
  shows "set (reuse_ids toks mr salt s) \<subseteq> held s"
proof -
  have "set (live_hits k b n toks mr (live_ids s) parent) \<subseteq> held s" for k b n parent
  proof (induction k arbitrary: b parent)
    case (Suc k)
    have "c \<in> held s" if "live_ids s h = Some c" for c h
    proof -
      have p: "0 < refs_of (kv_pool s) c" by (rule live_ids_Some [OF that])
      have own: "pool_owned (kv_pool s) (kv_refs s)" using inv by (simp add: kv_inv_def own_with_def)
      from pool_ownedD(5) [OF own refs_pos_in_ids [OF p]] p show ?thesis by (simp add: held_def)
    qed
    with Suc show ?case by (auto simp: Let_def split: option.splits)
  qed simp
  then show ?thesis unfolding reuse_ids_def by (cases "prefix_caching_enabled s") simp_all
qed

lemma prefix_table_step:
  assumes inv: "kv_inv s" and run: "allocate_blocks_with_prefix seq toks mr salt s = (r, s')"
  shows "table_step (held s) (tables s) (tables s')"
proof (cases "toks = [] \<or> table_of seq s \<noteq> []")
  case False
  note o = allocate_with_prefix_outcome [OF inv _ _ run]
  show ?thesis
  proof (cases "r < 0")
    case True
    with o False show ?thesis by (intro table_step_upd(6) [of seq]) auto
  next
    case rn: False
    with o False obtain fresh where "table_of seq s' = reuse_ids toks mr salt s @ fresh" "distinct fresh"
      "\<forall>c \<in> set fresh. 0 \<le> c \<and> c \<notin># table_refs (seq_blocks s)" by auto
    note f = this
    from o False have "table_of q s' = table_of q s" if "q \<noteq> seq" for q using that by blast
    from table_step_upd(3) [OF this f(1) _ reuse_ids_held [OF inv] unused_tables [OF inv f(2,3)]] False
    show ?thesis by simp
  qed
next
  case True
  let ?s0 = "set_table seq (table_of seq s) s"
  have t0: "tables ?s0 = tables s" by (simp add: tables_def fun_eq_iff)
  have i0: "kv_inv ?s0"
    using kv_inv_table_frame [OF inv table_frame_set_table
        alloc_inv_touch_entry [OF kv_inv_alloc_inv [OF inv]]] .
  have "s' = s \<or> s' = ?s0 \<or> (\<exists>n ok. allocate_blocks seq n ?s0 = (ok, s'))"
    using True run
    by (auto simp: allocate_blocks_with_prefix_def Let_def split: if_splits prod.splits)
  then show ?thesis
    using allocate_table_step [OF i0, of seq _ _ s' "held s"] ts_skip [of "held s" "tables s"] t0 by auto
qed

lemma seq_blocks_kept:
  "seq_blocks (touch seq s) = seq_blocks s" "seq_blocks (set_prefix_caching_enabled en s) = seq_blocks s"
  "seq_blocks (set_pin_budget_blocks n s) = seq_blocks s"
  "seq_blocks (enable_swa_sizing w k s) = seq_blocks s"
  by (simp_all add: touch_def set_prefix_caching_enabled_def set_pin_budget_blocks_def enable_swa_sizing_def)

lemma reclaim_seq_blocks: "reclaim_cached_block s = (b, s') \<Longrightarrow> seq_blocks s' = seq_blocks s"
proof -
  have "seq_blocks (erase_cached b u) = seq_blocks u" for b u
    by (simp add: erase_cached_def drop_refs_def split: option.split)
  then show "reclaim_cached_block s = (b, s') \<Longrightarrow> seq_blocks s' = seq_blocks s"
    by (auto simp: reclaim_cached_block_def Let_def split: if_splits)
qed

lemma pin_same_tables: "kv_inv s \<Longrightarrow> pinq_frame s s' \<Longrightarrow> tables s' = tables s"
  unfolding tables_def by (intro ext pinq_frame_alloc)

lemma kv_step_refines:
  assumes g: "kv_good c s" and st: "kv_step c s s'"
  shows "table_step (held s) (tables s) (tables s')"
proof -
  note inv = kv_good_inv [OF g]
  from st show ?thesis
  proof cases
    case (allocate seq n ok)
    then show ?thesis by (rule allocate_table_step [OF inv(1)])
  next
    case (append seq r)
    then show ?thesis by (rule append_table_step [OF inv(1)])
  next
    case (evict r)
    with evict_lru_eq [OF evict] free_table_step [OF inv(1)] ts_skip show ?thesis by auto
  next
    case (evict_cached ok)
    then show ?thesis
      using reclaim_seq_blocks by (intro same_tables) (auto simp: evict_cached_block_def split: prod.splits)
  next
    case (prefix seq toks mr salt r)
    then show ?thesis by (rule prefix_table_step [OF inv(1)])
  next
    case (register seq toks salt)
    then have "tables s' = tables s" by (simp add: tables_def)
    then show ?thesis by (simp add: ts_skip)
  next
    case (pin seq n)
    have "pinq_frame s s'" using pin_prefix_outcome [OF inv(1), of seq n] pin by auto
    from pin_same_tables [OF inv(1) this] show ?thesis by (simp add: ts_skip)
  next
    case (unpin seq)
    have "s' = s \<or> pinq_frame s s'"
      using unpin unpin_prefix_inv(2) [OF inv(1), of seq]
      by (cases "pinned_seq_blocks s seq") (auto simp: unpin_prefix_def)
    then have "tables s' = tables s" using pin_same_tables [OF inv(1)] by blast
    then show ?thesis by (simp add: ts_skip)
  next
    case (load reserve_ok copied fo fp m n m')
    have "seq_blocks s' = seq_blocks s" using load_outcome(2) [OF inv(1) load] by (simp add: alloc_frame_def)
    then show ?thesis by (rule same_tables)
  next
    case (rolled seq n)
    note o = rollback_outcome [OF inv(1), of seq n]
    show ?thesis
    proof (cases "n < 0")
      case True
      with o rolled show ?thesis by (intro table_step_upd(1) [of seq]) auto
    next
      case False
      with o rolled show ?thesis
        by (intro table_step_upd(4) [of seq _ _ "nat (blocks_for n (kv_block_size s))"]) auto
    qed
  next
    case (evict_middle seq n_sink n_window k)
    with evict_middle_outcome [OF inv(1), of seq n_sink n_window]
    have o: "\<And>q. q \<noteq> seq \<Longrightarrow> table_of q s' = table_of q s"
      "s' = s \<or> (\<exists>a b. table_of seq s' = punch a b (table_of seq s))"
      by (auto simp: Let_def split: if_splits)
    from o(2) table_step_upd(5) [OF o(1)] ts_skip show ?thesis by auto
  next
    case (prepare seq fr up ok)
    then show ?thesis
      using swa_prepare_outcome [OF inv prepare] swa_frame_fields(4) by (intro same_tables) blast
  next
    case (trim seq committed)
    have "swa_frame s s'" using swa_trim_outcome [OF inv order_refl, of seq committed] trim by blast
    then show ?thesis by (intro same_tables swa_frame_fields(4))
  next
    case (restore order seq up slab ss m ok m')
    show ?thesis
    proof (cases "restore_ready seq up slab ss s")
      case False
      with restore restore_not_ready ts_skip show ?thesis by auto
    next
      case True
      then obtain p where p: "slab = Some p" by (auto simp: restore_ready_def)
      have "swa_frame s s'"
        using restore_outcome [OF inv True [unfolded p] restore [unfolded p]]
        by (auto simp: window_ready_def window_undone_def split: if_splits)
      then show ?thesis by (intro same_tables swa_frame_fields(4))
    qed
  next
    case (residual r)
    then show ?thesis by (intro same_tables) simp
  qed (auto intro: free_table_step [OF inv(1)] same_tables seq_blocks_kept)
qed

end
