(* ===== verification/KV_Props.thy ===== *)
theory KV_Props
  imports KV_Refine
begin

text \<open>
  Properties of \<^verbatim>\<open>KVCacheManager\<close> in every state a manager can reach: exact reference counts,
  refinement of the table specification, allocation, reuse, rollback, middle eviction, pinning,
  the sliding window and its snapshots.
\<close>

section \<open>Example managers\<close>

text \<open>A manager over the two-layer example cache, and one over a small cache with blocks of two tokens.\<close>

definition win_mgr :: kv_mgr where
  "win_mgr = kv_new (snd (open_slots 4 closed_pool)) (snd (open_slots 2 closed_pool)) 16 2"

definition small_cache :: kv_cache where
  "small_cache = fst (projr (kv_cache_new example_alloc 1 1 16 F16 4 2 (\<lambda>a. 0)))"

definition small_mgr :: kv_mgr where
  "small_mgr = kv_new (snd (open_slots 4 closed_pool)) closed_pool 2 0"

lemma win_mgr_reach: "kv_reach example_alloc example_cache win_mgr"
proof -
  have "kv_init example_cache = win_mgr"
    by (simp add: win_mgr_def kv_init_def example_defs example_loops)
  moreover have "kc_block_size example_cache = 16" by (simp add: example_defs example_loops)
  ultimately show ?thesis using example_cache_built by (simp add: kv_reach_def)
qed

lemma small_mgr_reach: "kv_reach example_alloc small_cache small_mgr"
proof -
  note d = small_cache_def kv_cache_new_def example_alloc_def kv_bytes_def packed_4bit_def open_slots_def
    closed_pool_def Let_def
  have n: "\<exists>m'. kv_cache_new example_alloc 1 1 16 F16 4 2 (\<lambda>a. 0) = Inr (small_cache, m')" by (simp add: d)
  have f: "kc_n_layers small_cache = 1" "kc_block_size small_cache = 2" "kc_swa_max_blocks small_cache = 0"
    by (simp_all add: d)
  have "kv_built example_alloc small_cache" using n unfolding kv_built_def f by auto
  moreover have "kv_init small_cache = small_mgr" by (simp add: small_mgr_def kv_init_def d)
  ultimately show ?thesis by (simp add: kv_reach_def f)
qed

lemma kv_reach_step: "kv_reach alloc c s \<Longrightarrow> kv_step c s s' \<Longrightarrow> kv_reach alloc c s'"
  by (auto simp: kv_reach_def intro: rtranclp.rtrancl_into_rtrancl)

lemma kv_reach_allocate: "kv_reach alloc c s \<Longrightarrow> kv_reach alloc c (snd (allocate_blocks q n s))"
  by (rule kv_reach_step) (auto intro: kv_step.allocate [OF prod.collapse [symmetric]])

section \<open>References\<close>

lemma sole_le_reclaimable: "kv_inv s \<Longrightarrow> int (card (sole_cached s)) \<le> reclaimable_cached_count s"
proof -
  assume "kv_inv s"
  then have "reclaimable_cached_count s = int (card (set (cached_blocks_lru s) - pinned_blocks s))"
    by (simp add: kv_inv_def cache_inv_def)
  moreover have "card (sole_cached s) \<le> card (set (cached_blocks_lru s) - pinned_blocks s)"
    by (intro card_mono) (auto simp: sole_cached_def)
  ultimately show ?thesis by simp
qed

lemma ref_count_exact:
  assumes "kv_inv s" "b \<in> block_ids (kv_pool s)"
  shows "ref_count b (kv_pool s) = int (count (kv_refs s) b)"
proof -
  have own: "pool_owned (kv_pool s) (kv_refs s)" using assms(1) by (simp add: kv_inv_def own_with_def)
  have "0 \<le> ref_count b (kv_pool s)"
    using pool_refcount_nonneg [OF pool_ownedD(1) [OF own]] assms(2) by (auto simp: ref_count_def block_ids_def)
  with pool_ownedD(5) [OF own assms(2)] show ?thesis by (simp add: refs_of_def)
qed

text \<open>
  C1. References are exact in every reachable state: the count of each block is the number of
  table slots and cache entries that hold it, held and free blocks together are the pool, the
  counter of reclaimable blocks is the number of cached blocks that are not pinned, and no
  window block stands in two slots.
\<close>

theorem kv_refs_exact:
  assumes "kv_reach alloc c s"
  shows "(\<forall>b. 0 \<le> b \<and> b < int (kc_max_blocks c) \<longrightarrow> ref_count b (kv_pool s) = int (count (kv_refs s) b)) \<and>
    held s \<subseteq> {0..<int (kc_max_blocks c)} \<and> num_free_blocks s + int (card (held s)) = int (kc_max_blocks c) \<and>
    reclaimable_cached_count s = int (card (set (cached_blocks_lru s) - pinned_blocks s)) \<and>
    (\<forall>q r i j. i < length (swa_block_table q s) \<and> j < length (swa_block_table r s) \<and>
       swa_block_table q s ! i = swa_block_table r s ! j \<and> 0 \<le> swa_block_table q s ! i \<longrightarrow> q = r \<and> i = j)"
proof -
  note r = kv_reach_inv [OF assms]
  have own: "pool_owned (kv_pool s) (kv_refs s)" using r(1) by (simp add: kv_inv_def own_with_def)
  have "free_blocks (kv_pool s) + card (held s) = kc_max_blocks c"
    using pool_owned_conservation [OF own] by (simp add: held_def r(5))
  then have "num_free_blocks s + int (card (held s)) = int (kc_max_blocks c)"
    by (simp add: num_free_blocks_def free_count_def free_blocks_def flip: of_nat_add)
  moreover have "held s \<subseteq> {0..<int (kc_max_blocks c)}"
    using own r(5) by (simp add: pool_owned_def held_def)
  moreover have "reclaimable_cached_count s = int (card (set (cached_blocks_lru s) - pinned_blocks s))"
    using r(1) by (simp add: kv_inv_def cache_inv_def)
  moreover have so: "swa_own {#} s" using r(1,2) by (simp add: swa_own_iff kv_inv_def)
  ultimately show ?thesis using ref_count_exact [OF r(1)] r(5) swa_slots_unique [OF so] by auto
qed

theorem kv_refs_exact_witness:
  "num_free_blocks (snd (allocate_blocks 7 3 win_mgr)) + int (card (held (snd (allocate_blocks 7 3 win_mgr)))) =
     int (kc_max_blocks example_cache) \<and> num_free_blocks (snd (allocate_blocks 7 3 win_mgr)) = 1"
proof -
  have "num_free_blocks (snd (allocate_blocks 7 3 win_mgr)) = 1" by code_simp
  with kv_refs_exact [OF kv_reach_allocate [OF win_mgr_reach, of 7 3]] show ?thesis by blast
qed

text \<open>
  C2. Refinement: every operation of the manager is a step of the table specification: it
  changes the table of one sequence only, by adding blocks that no table holds, starting with
  blocks that are already held, cutting the tail, punching holes or dropping the table.
\<close>

theorem kv_refines_tables:
  assumes "kv_reach alloc c s" "kv_step c s s'"
  shows "table_step (held s) (tables s) (tables s')"
  using kv_step_refines [OF kv_reach_good [OF assms(1)] assms(2)] .

theorem kv_refines_tables_witness:
  "table_step (held win_mgr) (tables win_mgr) (tables (snd (allocate_blocks 7 3 win_mgr))) \<and>
   tables (snd (allocate_blocks 7 3 win_mgr)) 7 = [0, 1, 2]"
proof -
  have "kv_step example_cache win_mgr (snd (allocate_blocks 7 3 win_mgr))"
    by (rule kv_step.allocate [OF prod.collapse [symmetric]])
  moreover have "tables (snd (allocate_blocks 7 3 win_mgr)) 7 = [0, 1, 2]"
    unfolding tables_def by code_simp
  ultimately show ?thesis using kv_refines_tables [OF win_mgr_reach] by blast
qed

section \<open>Allocation\<close>

text \<open>
  C3. \<^verbatim>\<open>allocate_blocks\<close> is all or nothing: it succeeds exactly when enough blocks are free or
  cached without another owner and without a pin; then it appends that many different blocks
  that no table holds, otherwise the table is as before. Other sequences are never touched, and
  \<^verbatim>\<open>can_allocate\<close> is true whenever the allocation would succeed.
\<close>

theorem allocate_all_or_nothing:
  assumes "kv_reach alloc c s" "allocate_blocks seq n s = (ok, s')"
  shows "ok = (n \<le> int (avail s)) \<and> (ok \<longrightarrow> can_allocate n s) \<and>
    (\<forall>q. q \<noteq> seq \<longrightarrow> table_of q s' = table_of q s) \<and>
    (if ok then \<exists>rs. table_of seq s' = table_of seq s @ rs \<and> length rs = nat n \<and> unused (tables s) rs
     else table_of seq s' = table_of seq s)"
proof -
  note inv = kv_reach_inv(1) [OF assms(1)]
  note o = allocate_blocks_outcome [OF inv assms(2)]
  have "can_allocate n s" if "n \<le> int (avail s)"
    using that sole_le_reclaimable [OF inv]
    by (simp add: can_allocate_def Let_def avail_def num_free_blocks_def free_count_def free_blocks_def)
  with o unused_tables [OF inv] show ?thesis by (cases ok) auto
qed

theorem allocate_all_or_nothing_witness:
  "fst (allocate_blocks 7 3 win_mgr) \<and> can_allocate 3 win_mgr \<and>
   table_of 7 (snd (allocate_blocks 7 3 win_mgr)) = [0, 1, 2] \<and> \<not> fst (allocate_blocks 8 5 win_mgr) \<and>
   table_of 8 (snd (allocate_blocks 8 5 win_mgr)) = []"
proof -
  have v: "fst (allocate_blocks 7 3 win_mgr)" "table_of 7 (snd (allocate_blocks 7 3 win_mgr)) = [0, 1, 2]"
    "\<not> fst (allocate_blocks 8 5 win_mgr)" "table_of 8 win_mgr = []" by code_simp+
  from allocate_all_or_nothing [OF win_mgr_reach prod.collapse [symmetric], of 7 3] v(1,2)
    allocate_all_or_nothing [OF win_mgr_reach prod.collapse [symmetric], of 8 5] v(3,4)
  show ?thesis by simp
qed

text \<open>Without sequences the cache has the only reference of every block it holds.\<close>

lemma sole_cached_idle:
  assumes "kv_inv s" "seq_blocks s = []"
  shows "sole_cached s = set (cached_blocks_lru s) - pinned_blocks s" "set_mset (kv_refs s) = set (cached_blocks_lru s)"
proof -
  let ?ids = "set (cached_blocks_lru s)"
  have own: "pool_owned (kv_pool s) (kv_refs s)" "distinct (map fst (cached_blocks_map s))"
    "\<forall>e \<in> set (cached_blocks_map s). snd e = fst e"
    using assms(1) by (simp_all add: kv_inv_def own_with_def)
  have ci: "?ids = fst ` set (cached_blocks_map s)" using assms(1) by (simp add: kv_inv_def cache_inv_def)
  have "map snd (cached_blocks_map s) = map fst (cached_blocks_map s)" using own(3) by simp
  then have refs: "kv_refs s = mset (map fst (cached_blocks_map s))" 
    by (simp only: kv_refs_def assms(2) table_refs_Nil add_0)
  then show set: "set_mset (kv_refs s) = ?ids" by (simp add: ci)
  have "refs_of (kv_pool s) b = 1" if b: "b \<in> ?ids" for b
  proof -
    have "b \<in># kv_refs s" using b set by simp
    then have "refs_of (kv_pool s) b = count (kv_refs s) b"
      using pool_ownedD(5) [OF own(1)] pool_ownedD(2) [OF own(1)] by blast
    also have "\<dots> = 1" using own(2) b ci unfolding refs by (simp add: distinct_count_atmost_1)
    finally show ?thesis .
  qed
  then show "sole_cached s = ?ids - pinned_blocks s" by (auto simp: sole_cached_def)
qed

lemma avail_idle:
  assumes "kv_reach alloc c s" "seq_blocks s = []"
  shows "avail s + card (set (cached_blocks_lru s) \<inter> pinned_blocks s) = kc_max_blocks c"
proof -
  note r = kv_reach_inv [OF assms(1)] and i = sole_cached_idle [OF kv_reach_inv(1) [OF assms(1)] assms(2)]
  have own: "pool_owned (kv_pool s) (kv_refs s)" using r(1) by (simp add: kv_inv_def own_with_def)
  have "card (set (cached_blocks_lru s)) = card (set (cached_blocks_lru s) \<inter> pinned_blocks s) +
      card (set (cached_blocks_lru s) - pinned_blocks s)"
    by (rule card_Int_Diff) simp
  then show ?thesis using pool_owned_conservation [OF own] by (simp add: avail_def i r(5))
qed

text \<open>
  C14. Nothing leaks: once every sequence is freed and nothing is pinned, every block of the pool
  can be allocated again, whatever happened before.
\<close>

theorem kv_no_leak:
  assumes "kv_reach alloc c s" "seq_blocks s = []" "pinned_blocks s = {}"
  shows "fst (allocate_blocks seq n s) = (n \<le> int (kc_max_blocks c))"
  using allocate_blocks_outcome [OF kv_reach_inv(1) [OF assms(1)] prod.collapse [symmetric], of seq n]
    avail_idle [OF assms(1,2)] assms(3) by simp

theorem kv_no_leak_witness:
  "fst (allocate_blocks 9 4 (free_sequence 7 (snd (allocate_blocks 7 1 win_mgr))))"
proof -
  let ?s = "free_sequence 7 (snd (allocate_blocks 7 1 win_mgr))"
  have "kv_reach example_alloc example_cache ?s"
    by (rule kv_reach_step [OF kv_reach_allocate [OF win_mgr_reach] kv_step.free])
  moreover have "seq_blocks ?s = []" "pinned_blocks ?s = {}" by code_simp+
  moreover have "kc_max_blocks example_cache = 4" by (simp add: example_defs example_loops)
  ultimately show ?thesis using kv_no_leak [of example_alloc example_cache ?s 9 4] by simp
qed

section \<open>Truncation\<close>

text \<open>
  C11. \<^verbatim>\<open>rollback\<close> to a length keeps exactly the blocks that hold that many tokens, of that
  sequence only, and keeps the invariant.
\<close>

theorem rollback_keeps_prefix:
  assumes "kv_reach alloc c s" "0 \<le> n"
  shows "kv_inv (rollback seq n s) \<and> (\<forall>q. q \<noteq> seq \<longrightarrow> table_of q (rollback seq n s) = table_of q s) \<and>
    table_of seq (rollback seq n s) = take (nat (blocks_for n (kv_block_size s))) (table_of seq s) \<and>
    (\<forall>p. 0 \<le> p \<and> p < n \<longrightarrow> id_at (table_of seq (rollback seq n s)) (nat (p div kv_block_size s)) =
       id_at (table_of seq s) (nat (p div kv_block_size s)))"
proof -
  note r = kv_reach_inv [OF assms(1)] and o = rollback_outcome [OF kv_reach_inv(1) [OF assms(1)], of seq n]
  have "id_at (take (nat (blocks_for n (kv_block_size s))) t) (nat (p div kv_block_size s)) =
      id_at t (nat (p div kv_block_size s))" if "0 \<le> p" "p < n" for p t
  proof -
    have "p div kv_block_size s < blocks_for n (kv_block_size s)" by (rule div_le_blocks_for [OF r(6) that(2)])
    moreover have "0 \<le> p div kv_block_size s" using that(1) r(6) by (simp add: pos_imp_zdiv_nonneg_iff)
    ultimately have "nat (p div kv_block_size s) < nat (blocks_for n (kv_block_size s))" by linarith
    then show ?thesis by (auto simp: id_at_def)
  qed
  with o assms(2) show ?thesis by simp
qed

theorem rollback_keeps_prefix_witness:
  "table_of 7 (rollback 7 17 (snd (allocate_blocks 7 3 win_mgr))) = [0, 1]"
proof -
  have "table_of 7 (snd (allocate_blocks 7 3 win_mgr)) = [0, 1, 2]"
    "kv_block_size (snd (allocate_blocks 7 3 win_mgr)) = 16" by code_simp+
  with rollback_keeps_prefix [OF kv_reach_allocate [OF win_mgr_reach], of 17 7 7 3] show ?thesis
    by (simp add: blocks_for_def)
qed

text \<open>
  C9. \<^verbatim>\<open>evict_middle_blocks\<close> never drops a block the decode kernel reads: the sink blocks and
  every block from the kernel's first window block on keep their place, for each context that
  ends in the last block of the table, and only the table of that sequence changes.
\<close>

theorem evict_middle_spares_window:
  assumes "kv_reach alloc c s" "t = table_of seq s"
    and "evict_middle_blocks seq n_sink n_window s = Some (freed, s')"
    and "(int (length t) - 1) * kv_block_size s < ctx" "0 < n_window" "n_window \<le> ctx"
    and "i < length t"
    and "int i < blocks_for n_sink (kv_block_size s) \<or> (ctx - n_window) div kv_block_size s \<le> int i"
  shows "table_of seq s' ! i = t ! i \<and> length (table_of seq s') = length t \<and>
    (\<forall>q. q \<noteq> seq \<longrightarrow> table_of q s' = table_of q s)"
proof -
  note r = kv_reach_inv [OF assms(1)]
  let ?bs = "kv_block_size s"
  from evict_middle_outcome [OF r(1), of seq n_sink n_window] assms(3)
  have o: "\<forall>q. q \<noteq> seq \<longrightarrow> table_of q s' = table_of q s"
    "table_of seq s' = t \<or> table_of seq s' = punch (nat (blocks_for n_sink ?bs))
       (nat (window_start_block (int (length t)) n_window ?bs)) t"
    by (auto simp: Let_def assms(2) split: if_splits)
  have "1 \<le> int (length t)" using assms(7) by simp
  from window_covers_kernel [OF r(6) assms(5,4,6) this] assms(8)
  have "i < nat (blocks_for n_sink ?bs) \<or> \<not> i < nat (window_start_block (int (length t)) n_window ?bs)"
    by linarith
  with o assms(7) show ?thesis by (auto simp: punch_def)
qed

theorem evict_middle_spares_window_witness:
  "table_of 7 (snd (the (evict_middle_blocks 7 1 1 (snd (allocate_blocks 7 4 small_mgr))))) = [0, -1, 2, 3] \<and>
   table_of 7 (snd (the (evict_middle_blocks 7 1 1 (snd (allocate_blocks 7 4 small_mgr))))) ! 3 =
     [0, 1, 2, 3 :: int] ! 3"
proof -
  let ?s = "snd (allocate_blocks 7 4 small_mgr)"
  have v: "table_of 7 ?s = [0, 1, 2, 3]" "kv_block_size ?s = 2"
    "evict_middle_blocks 7 1 1 ?s \<noteq> None" by code_simp+
  have w: "table_of 7 (snd (the (evict_middle_blocks 7 1 1 ?s))) = [0, -1, 2, 3]" by code_simp
  obtain k u where u: "evict_middle_blocks 7 1 1 ?s = Some (k, u)" using v(3) by auto
  from evict_middle_spares_window [OF kv_reach_allocate [OF small_mgr_reach] refl u, of 7 3] w
  show ?thesis by (simp add: u v)
qed

section \<open>Pins\<close>

text \<open>
  C16. \<^verbatim>\<open>pin_prefix\<close> always returns: its loop that unpins the oldest owners ends, in every
  reachable state. It changes no table and no reference count, and with a budget that was
  respected before, the number of pinned blocks stays within it.
\<close>

theorem pin_prefix_terminates:
  assumes "kv_reach alloc c s"
  shows "\<exists>s'. pin_prefix seq n s = Some s' \<and> kv_inv s' \<and> tables s' = tables s \<and> kv_pool s' = kv_pool s \<and>
    (0 < pin_budget_blocks s \<and> num_pinned_blocks s \<le> pin_budget_blocks s \<longrightarrow>
       num_pinned_blocks s' \<le> pin_budget_blocks s)"
proof -
  note inv = kv_reach_inv(1) [OF assms]
  obtain s' where p: "pin_prefix seq n s = Some s'" "kv_inv s'" "pinq_frame s s'"
    "0 < pin_budget_blocks s \<and> num_pinned_blocks s \<le> pin_budget_blocks s \<longrightarrow>
       num_pinned_blocks s' \<le> pin_budget_blocks s"
    using pin_prefix_outcome [OF inv, of seq n] by blast
  have "kv_pool s' = kv_pool s" using p(3) by (simp add: pinq_frame_def pin_frame_def)
  with p pin_same_tables [OF inv p(3)] show ?thesis by blast
qed

theorem pin_prefix_terminates_witness:
  "\<exists>s'. pin_prefix 7 2 (set_pin_budget_blocks 1 (snd (allocate_blocks 7 3 win_mgr))) = Some s' \<and>
     num_pinned_blocks s' \<le> 1"
proof -
  let ?s = "set_pin_budget_blocks 1 (snd (allocate_blocks 7 3 win_mgr))"
  have "kv_reach example_alloc example_cache ?s"
    by (rule kv_reach_step [OF kv_reach_allocate [OF win_mgr_reach] kv_step.budget])
  moreover have "pin_budget_blocks ?s = 1" "num_pinned_blocks ?s = 0" by code_simp+
  ultimately show ?thesis using pin_prefix_terminates [of example_alloc example_cache ?s 7 2] by auto
qed

section \<open>Prefix reuse\<close>

text \<open>
  C4. \<^verbatim>\<open>allocate_blocks_with_prefix\<close> of a fresh sequence reuses exactly the longest run of
  leading full blocks whose chained hash maps to a block that is still held, up to the cap, and
  returns its length; the rest are different blocks no table holds. It fails only when it needs
  more blocks than it can reuse, and then no table is changed.
\<close>

theorem prefix_reuse_exact:
  assumes "kv_reach alloc c s" "table_of seq s = []" "toks \<noteq> []"
    and "allocate_blocks_with_prefix seq toks max_reuse salt s = (r, s')"
  shows "(\<forall>q. q \<noteq> seq \<longrightarrow> table_of q s' = table_of q s) \<and> set (reuse_ids toks max_reuse salt s) \<subseteq> held s \<and>
    (if r < 0 then r = -1 \<and> table_of seq s' = [] \<and>
       int (length (reuse_ids toks max_reuse salt s)) < blocks_for (int (length toks)) (kv_block_size s)
     else r = int (length (reuse_ids toks max_reuse salt s)) \<and>
       (\<exists>fresh. table_of seq s' = reuse_ids toks max_reuse salt s @ fresh \<and>
          int (length (table_of seq s')) = blocks_for (int (length toks)) (kv_block_size s) \<and>
          unused (tables s) fresh))"
proof -
  note inv = kv_reach_inv(1) [OF assms(1)]
  from allocate_with_prefix_outcome [OF inv assms(2-4)] reuse_ids_held [OF inv] unused_tables [OF inv]
  show ?thesis by (cases "r < 0") auto
qed

definition prefix_mgr :: kv_mgr where
  "prefix_mgr = snd (allocate_blocks_with_prefix 8 [1, 2] (-1) 0 (set_prefix_caching_enabled True small_mgr))"

lemma prefix_mgr_reach: "kv_reach example_alloc small_cache prefix_mgr"
proof -
  have a: "kv_reach example_alloc small_cache (set_prefix_caching_enabled True small_mgr)"
    by (rule kv_reach_step [OF small_mgr_reach kv_step.caching])
  show ?thesis unfolding prefix_mgr_def
    by (rule kv_reach_step [OF a kv_step.prefix [OF prod.collapse [symmetric]]])
qed

lemma prefix_mgr_registered:
  "map_prod id (table_of 9) (allocate_blocks_with_prefix 9 [1, 2, 3] (-1) 0
     (register_block_hashes 8 [1, 2] 0 prefix_mgr)) = (1, [0, 1])"
  by code_simp

theorem prefix_reuse_exact_witness:
  "reuse_ids [1, 2, 3] (-1) 0 (register_block_hashes 8 [1, 2] 0 prefix_mgr) = [0]"
proof -
  let ?s = "register_block_hashes 8 [1, 2] 0 prefix_mgr"
  have re: "kv_reach example_alloc small_cache ?s" by (rule kv_reach_step [OF prefix_mgr_reach kv_step.register])
  have t: "table_of 9 ?s = []" unfolding register_frame by code_simp
  obtain r u where run: "allocate_blocks_with_prefix 9 [1, 2, 3] (-1) 0 ?s = (r, u)" by fastforce
  have v: "r = 1" "table_of 9 u = [0, 1]" using prefix_mgr_registered unfolding run by simp_all
  obtain fresh where f: "int (length (reuse_ids [1, 2, 3] (-1) 0 ?s)) = 1"
    "reuse_ids [1, 2, 3] (-1) 0 ?s @ fresh = [0, 1]"
    using prefix_reuse_exact [OF re t _ run] unfolding v by auto
  have "reuse_ids [1, 2, 3] (-1) 0 ?s = take (length (reuse_ids [1, 2, 3] (-1) 0 ?s)) [0, 1]"
    using f(2) by (metis append_eq_conv_conj)
  with f(1) show ?thesis by simp
qed



text \<open>
  C17. Salts separate: the chained hashes of the same tokens under two different salts differ
  in every block, so a prompt with other image content never matches, whatever its tokens are.
\<close>

theorem salted_chains_differ:
  assumes "salt \<noteq> salt'" "i < length (hash_chain k b n toks salt)"
  shows "hash_chain k b n toks salt ! i \<noteq> hash_chain k b n toks salt' ! i"
  using assms
proof (induction k arbitrary: b salt salt' i)
  case (Suc k)
  have ne: "compute_block_hash (block_tokens n toks b) salt \<noteq> compute_block_hash (block_tokens n toks b) salt'"
    using Suc.prems(1) by (simp add: compute_block_hash_parent_inj)
  show ?case
  proof (cases i)
    case 0
    with Suc.prems(2) ne show ?thesis by (auto simp: Let_def split: if_splits)
  next
    case (Suc j)
    with Suc.prems Suc.IH [OF ne] show ?thesis by (auto simp: Let_def split: if_splits)
  qed
qed simp

theorem salted_chains_differ_witness:
  "hash_chain 2 0 2 [1, 2, 3, 4] 5 ! 1 \<noteq> hash_chain 2 0 2 [1, 2, 3, 4] 6 ! 1"
proof -
  have "1 < length (hash_chain 2 0 2 [1, 2, 3, 4] 5)" by code_simp
  with salted_chains_differ [of 5 6 1 2 0 2 "[1, 2, 3, 4]"] show ?thesis by simp
qed

end
