(* ===== verification/KV_Window_Props.thy ===== *)
theory KV_Window_Props
  imports KV_Props
begin

text \<open>
  Properties of the sliding-window tables and of window snapshots, in every reachable state of
  the manager.
\<close>

section \<open>The window stays backed\<close>

text \<open>
  C12. After a successful prepare for the tokens up to \<open>up\<close>, trimming at a commit point and rolling
  back at most the slack below it, every position of the window before the new end is backed by
  the block it had after the prepare.
\<close>

theorem swa_window_survives:
  assumes "kv_reach alloc c s" "0 < swa_window s"
    and "swa_prepare seq fr up s = (True, s')" "up \<le> kv_block_size s * int (length (table_of seq s))"
    and "n \<le> up" "fr - swa_slack s \<le> n" "commit - swa_slack s \<le> n"
    and "0 \<le> p" "n - swa_window s \<le> p" "p < n"
  shows "0 \<le> backing seq p s' \<and> backing seq p (rollback seq n (swa_trim seq commit s')) = backing seq p s'"
proof -
  note r = kv_reach_inv [OF assms(1)]
  note o = swa_prepare_outcome [OF r(1,2) assms(3)]
  have fr: "swa_frame s s'" "kv_inv s'" "swa_solo s'" using o by blast+
  note f = swa_frame_fields [OF fr(1)]
  have bk: "0 \<le> backing seq p s'" using o assms(2,4-10) by auto
  note t = swa_trim_outcome [OF fr(2,3) assms(8), of seq commit]
  have "backing seq p (swa_trim seq commit s') = backing seq p s'" using t assms(7,9) by (simp add: f)
  moreover have "0 < kv_block_size (swa_trim seq commit s')" using t by (simp add: kv_inv_def)
  ultimately show ?thesis using bk swa_rollback_backing [OF _ assms(8,10)] by simp
qed

definition win_ready_mgr :: kv_mgr where
  "win_ready_mgr = enable_swa_sizing 16 16 (snd (allocate_blocks 2 1 (snd (allocate_blocks 1 1 win_mgr))))"

lemma win_ready_reach: "kv_reach example_alloc example_cache win_ready_mgr"
  unfolding win_ready_mgr_def
  by (rule kv_reach_step [OF kv_reach_allocate [OF kv_reach_allocate [OF win_mgr_reach]] kv_step.sizing])

lemma win_ready_fields:
  "swa_window win_ready_mgr = 16" "swa_slack win_ready_mgr = 16" "kv_block_size win_ready_mgr = 16"
  "table_of 1 win_ready_mgr = [0]" "table_of 2 win_ready_mgr = [1]" "free_blocks (kv_swa_pool win_ready_mgr) = 2"
  "swa_block_table 1 win_ready_mgr = []" "swa_block_table 2 win_ready_mgr = []"
  by code_simp+

theorem swa_window_survives_witness:
  "0 \<le> backing 1 3 (snd (swa_prepare 1 0 16 win_ready_mgr)) \<and>
   backing 1 3 (rollback 1 10 (swa_trim 1 16 (snd (swa_prepare 1 0 16 win_ready_mgr)))) =
     backing 1 3 (snd (swa_prepare 1 0 16 win_ready_mgr))"
proof -
  have "fst (swa_prepare 1 0 16 win_ready_mgr)" by code_simp
  then have "swa_prepare 1 0 16 win_ready_mgr = (True, snd (swa_prepare 1 0 16 win_ready_mgr))"
    by (simp add: prod_eq_iff)
  from swa_window_survives [OF win_ready_reach _ this, of 10 16 3] show ?thesis by (simp add: win_ready_fields)
qed

section \<open>Snapshots\<close>

text \<open>The layout of a snapshot, from the operation that computes it.\<close>

definition layout_of :: "kv_cache \<Rightarrow> kv_mgr \<Rightarrow> swa_snap \<Rightarrow> bool" where
  "layout_of c s ss \<longleftrightarrow> enable_swa_snapshots True c s swa_snap_new = (True, ss) \<and> 0 < ss_bytes ss"

lemma reach_snap_mgr:
  assumes "kv_reach alloc c s" "layout_of c s ss"
  shows "snap_mgr c ss s"
proof -
  note r = kv_reach_inv [OF assms(1)]
  have ok: "snap_ok c s ss" using assms(2) enable_snap_ok unfolding layout_of_def by blast
  then have "0 < swa_window s" by (simp add: snap_ok_def)
  with r ok show ?thesis by (simp add: snap_mgr_def)
qed

lemma undone_same:
  assumes "snap_mgr c ss s" "window_undone seq up s s'"
  shows "backing q p s' = backing q p s" "free_blocks (kv_swa_pool s') = free_blocks (kv_swa_pool s)"
proof -
  have u: "swa_own {#} s'" "swa_frame s s'" "\<And>q. q \<noteq> seq \<Longrightarrow> swa_block_table q s' = swa_block_table q s"
    "restored seq (win_first up s) (win_end up s) (padded seq s) False (swa_block_table seq s')"
    using assms(2) by (simp_all add: window_undone_def)
  note b = swa_frame_fields(3) [OF u(2)]
  note rb = restored_backing [OF u(4) [unfolded padded_def] b]
  show "backing q p s' = backing q p s" using rb(2) u(3) b by (cases "q = seq") (simp_all add: backing_def)
  have "live (swa_block_table q s') = live (swa_block_table q s)" for q
    using rb(3) u(3) by (cases "q = seq") simp_all
  from same_live_same_free [OF snap_mgrD(1) [OF assms(1)] u(1,2) this]
  show "free_blocks (kv_swa_pool s') = free_blocks (kv_swa_pool s)" .
qed

text \<open>
  C15. A restore succeeds exactly when its arguments are valid and the group has a free block for
  each hole of the window; otherwise every position is backed as before, the group has as many
  free blocks as before and no byte is written.
\<close>

theorem restore_all_or_nothing:
  assumes "kv_reach alloc c s" "layout_of c s ss"
    and "swa_snapshot_restore order seq up slab c ss s m = (ok, s', m')"
  shows "ok = (restore_ready seq up slab ss s \<and> restore_need seq up s \<le> free_blocks (kv_swa_pool s)) \<and>
    (\<not> ok \<longrightarrow> m' = m \<and> (\<forall>q p. backing q p s' = backing q p s) \<and>
       free_blocks (kv_swa_pool s') = free_blocks (kv_swa_pool s)) \<and>
    (ok \<longrightarrow> (\<forall>q p. 0 \<le> backing q p s \<longrightarrow> backing q p s' = backing q p s))"
proof (cases "restore_ready seq up slab ss s")
  case False
  with assms(3) show ?thesis by (simp add: restore_not_ready)
next
  case True
  note mgr = reach_snap_mgr [OF assms(1,2)] and r = kv_reach_inv [OF assms(1)]
  obtain p where p: "slab = Some p" using True by (auto simp: restore_ready_def)
  note o = restore_outcome [OF r(1,2) True [unfolded p] assms(3) [unfolded p]]
  show ?thesis
  proof (cases "restore_need seq up s \<le> free_blocks (kv_swa_pool s)")
    case False
    with o have "\<not> ok" "m' = m" "window_undone seq up s s'" by simp_all
    with undone_same [OF mgr this(3)] False show ?thesis by simp
  next
    case need: True
    with o obtain u where u: "window_ready seq up s u"
      "swa_snapshot_copy order seq up p False c ss u m = (ok, m')" "ok \<longrightarrow> s' = u" by auto
    have ok: ok using restore_copy_succeeds [OF mgr True [unfolded p] u(1), of order m] u(2) by simp
    have w: "swa_frame s u" "\<And>q. q \<noteq> seq \<Longrightarrow> swa_block_table q u = swa_block_table q s"
      "restored seq (win_first up s) (win_end up s) (padded seq s) True (swa_block_table seq u)"
      using u(1) by (simp_all add: window_ready_def)
    note b = swa_frame_fields(3) [OF w(1)]
    have "backing q x u = backing q x s" if "0 \<le> backing q x s" for q x
      using restored_backing(1) [OF w(3) [unfolded padded_def] b, of x] w(2) b that
      by (cases "q = seq") (simp_all add: backing_def)
    with ok u(3) True need show ?thesis by simp
  qed
qed

definition example_snap :: swa_snap where
  "example_snap = \<lparr>ss_layers = [1], ss_layer_off = [0], ss_win_blocks = 3, ss_bytes = 1728, ss_desc_cap = 12\<rparr>"

lemma example_cache_layers:
  "filter (\<lambda>l. cache_layer_is_swa l example_cache) [0..<kc_n_layers example_cache] = [1]"
  "layer_block_bytes 1 example_cache = 256" "snap_scale_bytes example_cache 1 = 32"
proof -
  have u: "[0..<2] = [0, 1 :: nat]" by code_simp
  show "filter (\<lambda>l. cache_layer_is_swa l example_cache) [0..<kc_n_layers example_cache] = [1]"
    unfolding example_cache_fields u by (simp add: cache_layer_is_swa_def example_defs example_loops)
  show "layer_block_bytes 1 example_cache = 256" "snap_scale_bytes example_cache 1 = 32"
    by (simp_all add: layer_block_bytes_def snap_scale_bytes_def k_scale_ptr_def layer_scale_block_bytes_def
        example_defs example_loops)
qed

lemma example_layout:
  assumes "swa_window s = 16" "swa_slack s = 16" "kv_block_size s = 16" "kv_swa_max_blocks s = 2"
  shows "layout_of example_cache s example_snap"
  by (simp add: layout_of_def enable_swa_snapshots_def assms swa_enabled_def example_cache_layers
      example_cache_layers(2,3) [simplified] example_snap_def swa_snap_new_def Let_def)

lemma win_ready_layout: "layout_of example_cache win_ready_mgr example_snap"
proof (rule example_layout)
  show "kv_swa_max_blocks win_ready_mgr = 2" by code_simp
qed (simp_all add: win_ready_fields)

theorem restore_all_or_nothing_witness:
  "fst (swa_snapshot_restore (\<lambda>k. [0..<k]) 2 16 (Some 131072) example_cache example_snap win_ready_mgr (\<lambda>a. 0)) \<and>
   \<not> fst (swa_snapshot_restore (\<lambda>k. [0..<k]) 2 8 (Some 131072) example_cache example_snap win_ready_mgr (\<lambda>a. 0))"
proof -
  have m: "map_of (seq_blocks win_ready_mgr) 2 \<noteq> None" by code_simp
  then have r: "restore_ready 2 16 (Some 131072) example_snap win_ready_mgr"
    "\<not> restore_ready 2 8 (Some 131072) example_snap win_ready_mgr"
    by (simp_all add: restore_ready_def win_ready_fields example_snap_def)
  have "restore_need 2 16 win_ready_mgr = 1"
    by (simp add: restore_need_def win_defs swa_first_live_block_def win_ready_fields pad_holes_def holes_def)
  with r restore_all_or_nothing [OF win_ready_reach win_ready_layout, where seq = 2 and slab = "Some 131072"
      and order = "\<lambda>k. [0..<k]" and m = "\<lambda>a. 0"] show ?thesis
    by (metis win_ready_fields(6) one_le_numeral prod.collapse)
qed

section \<open>Round trip\<close>

lemma kv_addr_sec: "kv_addr v l b c = sec_addr c l (if v then 1 else 0) b"
  "scale_addr v l b c = sec_addr c l (if v then 3 else 2) b"
  by (simp_all add: sec_addr_def)

lemma snap_bytes_sec:
  "snap_bytes c l (if v then 1 else 0) = layer_block_bytes l c"
  "kc_scale_pool c \<noteq> None \<Longrightarrow> snap_bytes c l (if v then 3 else 2) = layer_scale_block_bytes l c"
  by (auto simp: snap_bytes_def snap_scale_bytes_def k_scale_ptr_def)

lemma swa_layer_index:
  assumes "snap_ok c s ss" "l < kc_n_layers c" "cache_layer_is_swa l c"
  obtains j where "j < length (ss_layers ss)" "ss_layers ss ! j = l"
proof -
  have "l \<in> set (ss_layers ss)" using assms by (simp add: snap_ok_def)
  then show thesis using that by (metis in_set_conv_nth)
qed

text \<open>The bytes of one block in every section, as the sections of another block in another memory.\<close>

definition same_block :: "kv_cache \<Rightarrow> nat \<Rightarrow> mem \<Rightarrow> int \<Rightarrow> mem \<Rightarrow> int \<Rightarrow> bool" where
  "same_block c l m b m' b' \<longleftrightarrow> (\<forall>v.
     (\<forall>x < layer_block_bytes l c. m' (kv_addr v l (nat b') c + x) = m (kv_addr v l (nat b) c + x)) \<and>
     (kc_scale_pool c \<noteq> None \<longrightarrow> (\<forall>x < layer_scale_block_bytes l c.
        m' (scale_addr v l (nat b') c + x) = m (scale_addr v l (nat b) c + x))))"

lemma same_blockI:
  assumes "\<And>sec x. sec < 4 \<Longrightarrow> x < snap_bytes c l sec \<Longrightarrow>
    m' (sec_addr c l sec (nat b') + x) = m (sec_addr c l sec (nat b) + x)"
  shows "same_block c l m b m' b'"
  unfolding same_block_def kv_addr_sec
proof (intro allI conjI impI)
  fix v x
  show "m' (sec_addr c l (if v then 1 else 0) (nat b') + x) = m (sec_addr c l (if v then 1 else 0) (nat b) + x)"
    if "x < layer_block_bytes l c"
    using that by (intro assms) (cases v, simp_all add: snap_bytes_sec(1) [where v = v, symmetric])
  show "m' (sec_addr c l (if v then 3 else 2) (nat b') + x) = m (sec_addr c l (if v then 3 else 2) (nat b) + x)"
    if "kc_scale_pool c \<noteq> None" "x < layer_scale_block_bytes l c"
    using that by (intro assms) (cases v, simp_all add: snap_bytes_sec(2) [where v = v, symmetric])
qed

lemma backing_slot:
  assumes "t = swa_block_table q s" "i = nat (p div kv_block_size s)" "i < length t" "0 \<le> t ! i"
  shows "backing q p s = t ! i"
  using assms by (simp add: backing_def id_at_def)

lemma backing_nth:
  assumes "0 \<le> backing q p s"
  shows "nat (p div kv_block_size s) < length (swa_block_table q s)"
    "swa_block_table q s ! nat (p div kv_block_size s) = backing q p s"
  using assms by (auto simp: backing_def id_at_def split: if_splits)

lemma window_slot:
  assumes "snap_mgr c ss s" "0 < up" "up mod kv_block_size s = 0" "0 \<le> p" "up - swa_window s \<le> p" "p < up"
  defines "b \<equiv> nat (p div kv_block_size s)"
  shows "needed_start up s \<le> b" "b < win_end up s" "win_first up s \<le> b"
proof -
  note D = snap_mgrD [OF assms(1)]
  show n: "needed_start up s \<le> b" unfolding b_def by (rule needed_start_window [OF D(5,4) assms(4,5)])
  with needed_start_range(1) [OF D(3-5) assms(2,3)] show "win_first up s \<le> b" by simp
  have "up = up div kv_block_size s * kv_block_size s" using assms(3) by (simp add: mod_eq_0_iff_dvd)
  then have "p div kv_block_size s < up div kv_block_size s"
    using int_div_less_iff [OF D(5), of p "up div kv_block_size s"] assms(6) by simp
  moreover have "0 \<le> p div kv_block_size s" using assms(4) D(5) by (simp add: pos_imp_zdiv_nonneg_iff)
  ultimately show "b < win_end up s" by (simp add: b_def win_end_def)
qed

lemma restore_run:
  assumes "kv_reach alloc c u" "snap_mgr c ss u"
    and "swa_snapshot_restore order b up (Some p) c ss u m = (ok, u', m')"
    and "restore_ready b up (Some p) ss u"
  shows "ok \<longleftrightarrow> restore_need b up u \<le> free_blocks (kv_swa_pool u)"
    "ok \<Longrightarrow> window_ready b up u u' \<and> swa_snapshot_copy order b up p False c ss u' m = (True, m')"
proof -
  note r = kv_reach_inv [OF assms(1)]
  note o = restore_outcome [OF r(1,2) assms(4,3)]
  show "ok \<longleftrightarrow> restore_need b up u \<le> free_blocks (kv_swa_pool u)"
    using o restore_copy_succeeds [OF assms(2,4), where order = order and m = m]
    by (fastforce split: if_splits)
  show "window_ready b up u u' \<and> swa_snapshot_copy order b up p False c ss u' m = (True, m')" if ok
    using o that by (auto split: if_splits)
qed

lemma slab_slot_bytes:
  assumes "snap_ok c s ss" "j < length (ss_layers ss)" "i < nat (ss_win_blocks ss)" "sec < 4"
    and "x < snap_bytes c (ss_layers ss ! j) sec" "\<And>y. p \<le> y \<Longrightarrow> y < p + ss_bytes ss \<Longrightarrow> m2 y = m1 y"
  shows "m2 (slab_slot c ss p (j, i, sec) + x) = m1 (slab_slot c ss p (j, i, sec) + x)"
  using slab_slot_inside [OF snap_ok_wf [OF assms(1), of p] assms(2-4)] assms(5) by (intro assms(6)) linarith+

text \<open>
  C7. A window packed from one sequence and restored into another, in the same or in a later state
  of a manager with the same window, is the window: every position of the window before the
  packed end is backed in both sequences, and its block holds the same keys, values and scales in
  every windowed layer, as long as the slab keeps its bytes in between. The window blocks of other
  sequences keep their bytes.
\<close>

theorem snapshot_roundtrip:
  assumes "kv_reach alloc c s" "kv_reach alloc c u" "snap_env alloc order c ss p"
    and "layout_of c s ss" "layout_of c u ss" "swa_window u = swa_window s" "swa_slack u = swa_slack s"
    and "swa_snapshot_pack order a up (Some p) c ss s m = (True, m1)"
    and "\<And>y. p \<le> y \<Longrightarrow> y < p + ss_bytes ss \<Longrightarrow> m2 y = m1 y"
    and "swa_snapshot_restore order b up (Some p) c ss u m2 = (True, u', m3)"
    and "l < kc_n_layers c" "cache_layer_is_swa l c"
  shows "(\<forall>pos. 0 \<le> pos \<and> up - swa_window s \<le> pos \<and> pos < up \<longrightarrow>
      0 \<le> backing a pos s \<and> 0 \<le> backing b pos u' \<and>
      same_block c l m (backing a pos s) m3 (backing b pos u')) \<and>
    (\<forall>q pos. q \<noteq> b \<and> 0 \<le> backing q pos u \<longrightarrow>
      backing q pos u' = backing q pos u \<and> same_block c l m2 (backing q pos u) m3 (backing q pos u))"
proof -
  note ms = reach_snap_mgr [OF assms(1,4)] and mu = reach_snap_mgr [OF assms(2,5)]
  note D = snap_mgrD [OF ms]
  obtain j where j: "j < length (ss_layers ss)" "ss_layers ss ! j = l"
    using swa_layer_index [OF D(3) assms(11,12)] by blast
  have run: "swa_snapshot_copy order a up p True c ss s m = (True, m1)"
    using assms(4,8) by (simp add: swa_snapshot_pack_def layout_of_def)
  note g = copy_guards [OF run] and P = pack_outcome [OF assms(3) ms run]
  have "restore_ready b up (Some p) ss u" using assms(10) restore_not_ready by fastforce
  note R = restore_run(2) [OF assms(2) mu assms(10) this TrueI]
  note W = window_ready_mgr [OF mu R [THEN conjunct1]]
  note B = restore_bytes [OF assms(3) W(1) R [THEN conjunct2]]
  have bs: "kv_block_size u = kv_block_size s"
    using kv_reach_inv(3) [OF assms(1)] kv_reach_inv(3) [OF assms(2)] by simp
  have wu: "win_first up u' = win_first up s" "win_end up u' = win_end up s" "kv_block_size u' = kv_block_size s"
    unfolding W(2,3,5) by (simp_all add: win_first_def win_end_def swa_first_live_block_def assms(6,7) bs)
  have len: "win_end up s \<le> length (swa_block_table b u')"
    using copy_guards(3) [OF R [THEN conjunct2]] by (simp add: wu)
  show ?thesis
  proof (intro conjI allI impI; (elim conjE)?)
    fix pos assume pos: "0 \<le> pos" "up - swa_window s \<le> pos" "pos < up"
    define k where "k = nat (pos div kv_block_size s)"
    note w = window_slot [OF ms g(1,2) pos, folded k_def]
    have ka: "0 \<le> swa_block_table a s ! k" using P(1) [OF w(1,2)] .
    have kb: "0 \<le> swa_block_table b u' ! k" using B(1) [of k] w by (simp add: wu)
    have A: "backing a pos s = swa_block_table a s ! k"
      using backing_slot [OF refl k_def _ ka] w(2) g(3) by simp
    have C: "backing b pos u' = swa_block_table b u' ! k"
      using backing_slot [OF refl, of k pos u' b] w(2) len kb by (simp add: wu k_def)
    show "0 \<le> backing a pos s" "0 \<le> backing b pos u'" using ka kb by (simp_all add: A C)
    define i where "i = k - win_first up s"
    have i: "i < win_end up s - win_first up s" "win_first up s + i = k" using w by (simp_all add: i_def)
    have iw: "i < nat (ss_win_blocks ss)" using window_size(1) [OF ms g(1,2)] i(1) by simp
    show "same_block c l m (backing a pos s) m3 (backing b pos u')"
      unfolding A C
    proof (rule same_blockI)
      fix sec x assume x: "sec < (4 :: nat)" "x < snap_bytes c l sec"
      have "m3 (sec_addr c l sec (nat (swa_block_table b u' ! k)) + x) = m2 (slab_slot c ss p (j, i, sec) + x)"
        using B(2) [of i j sec x] i x j by (simp add: wu)
      also have "\<dots> = m1 (slab_slot c ss p (j, i, sec) + x)"
        using x j by (intro slab_slot_bytes [OF D(3) j(1) iw x(1) _ assms(9)]) simp_all
      also have "\<dots> = m (sec_addr c l sec (nat (swa_block_table a s ! k)) + x)"
        using P(2) [OF i(1)] j x ka by (simp add: slab_holds_def i(2))
      finally show "m3 (sec_addr c l sec (nat (swa_block_table b u' ! k)) + x) =
        m (sec_addr c l sec (nat (swa_block_table a s ! k)) + x)" .
    qed
  next
    fix q pos assume q: "q \<noteq> b" "0 \<le> backing q pos u"
    have t: "swa_block_table q u' = swa_block_table q u" using R q(1) by (simp add: window_ready_def)
    then show "backing q pos u' = backing q pos u" by (simp add: backing_def wu(3) bs)
    note n = backing_nth [OF q(2)]
    show "same_block c l m2 (backing q pos u) m3 (backing q pos u)"
      using B(3) [OF q(1), of "nat (pos div kv_block_size u)" j] n q(2) j t by (intro same_blockI) simp
  qed
qed

definition win_held_mgr :: kv_mgr where
  "win_held_mgr = snd (swa_prepare 1 0 16 win_ready_mgr)"

lemma win_held_reach: "kv_reach example_alloc example_cache win_held_mgr"
  unfolding win_held_mgr_def by (rule kv_reach_step [OF win_ready_reach kv_step.prepare [OF prod.collapse [symmetric]]])

lemma win_held_fields:
  "swa_window win_held_mgr = 16" "swa_slack win_held_mgr = 16" "kv_block_size win_held_mgr = 16"
  "kv_swa_max_blocks win_held_mgr = 2" "free_blocks (kv_swa_pool win_held_mgr) = 1"
  "swa_block_table 1 win_held_mgr = [0]" "swa_block_table 2 win_held_mgr = []" "table_of 2 win_held_mgr = [1]"
  "map_of (seq_blocks win_held_mgr) 2 \<noteq> None"
  by code_simp+

lemma example_snap_env: "snap_env example_alloc (\<lambda>k. [0..<k]) example_cache example_snap 131072"
  using example_cache_built example_allocs_disjoint
  by (auto simp: snap_env_def slab_apart_def example_alloc_def example_snap_def sep_def split: if_splits)

theorem snapshot_roundtrip_witness:
  "\<exists>m1 u' m3. swa_snapshot_pack (\<lambda>k. [0..<k]) 1 16 (Some 131072) example_cache example_snap win_held_mgr of_nat = (True, m1) \<and>
     swa_snapshot_restore (\<lambda>k. [0..<k]) 2 16 (Some 131072) example_cache example_snap win_held_mgr m1 = (True, u', m3) \<and>
     0 \<le> backing 2 7 u' \<and>
     same_block example_cache 1 of_nat (backing 1 7 win_held_mgr) m3 (backing 2 7 u')"
proof -
  note lay = example_layout [OF win_held_fields(1-4)]
  note mgr = reach_snap_mgr [OF win_held_reach lay]
  note D = snap_mgrD [OF mgr]
  let ?o = "\<lambda>k. [0..<k]"
  have e: "win_end 16 win_held_mgr = 1" by (simp add: win_end_def win_held_fields)
  have "fst (swa_snapshot_copy ?o 1 16 131072 True example_cache example_snap win_held_mgr of_nat)"
    by (subst snapshot_copy_eq [OF D(3-5) _ _ win_held_fields(6)]) (simp_all add: e win_held_fields(3))
  moreover have "ss_bytes example_snap \<noteq> 0" by (simp add: example_snap_def)
  ultimately obtain m1 where
    p: "swa_snapshot_pack ?o 1 16 (Some 131072) example_cache example_snap win_held_mgr of_nat = (True, m1)"
    unfolding swa_snapshot_pack_def option.case by (metis (full_types) prod.collapse)
  have rdy: "restore_ready 2 16 (Some 131072) example_snap win_held_mgr"
    using win_held_fields by (simp add: restore_ready_def example_snap_def)
  have nd: "restore_need 2 16 win_held_mgr \<le> free_blocks (kv_swa_pool win_held_mgr)"
    by (simp add: restore_need_def win_defs swa_first_live_block_def win_held_fields pad_holes_def holes_def)
  obtain ok u' m3 where
    r: "swa_snapshot_restore ?o 2 16 (Some 131072) example_cache example_snap win_held_mgr m1 = (ok, u', m3)"
    by (rule prod_cases3)
  have ok using restore_run(1) [OF win_held_reach mgr r rdy] nd by blast
  note r = r [unfolded eqTrueI [OF this]]
  have sw: "1 < kc_n_layers example_cache" "cache_layer_is_swa 1 example_cache"
    using arg_cong [OF example_cache_layers(1), of set] by auto
  have "0 \<le> backing 2 7 u' \<and> same_block example_cache 1 of_nat (backing 1 7 win_held_mgr) m3 (backing 2 7 u')"
    using snapshot_roundtrip [OF win_held_reach win_held_reach example_snap_env lay lay refl refl p refl r sw,
        THEN conjunct1, rule_format, of 7] by (simp add: win_held_fields(1))
  with p r show ?thesis by blast
qed

end
