(* ===== verification/KV_Persist_Data.thy ===== *)
theory KV_Persist_Data
  imports KV_Persist
begin

text \<open>
  The bytes of a prefix-cache file and of the blocks it restores: the header and the blocks can
  be read back from what was written, and a load puts every byte of an entry into the block it
  acquired and into no other.
\<close>

section \<open>Codec\<close>

lemma length_le_bytes [simp]: "length (le_bytes n x) = n"
  by (induction n arbitrary: x) simp_all

lemma le_value_bytes: "le_value (le_bytes n x) = x mod 256 ^ n"
proof (induction n arbitrary: x)
  case (Suc n)
  have "x mod 256 + 256 * (x div 256 mod 256 ^ n) = x mod (256 * 256 ^ n)"
    by (simp add: mod_mult2_eq)
  with Suc show ?case by (simp add: unat_of_nat)
qed simp

lemma le_value_word32: "of_nat (le_value (le_bytes 4 (unat w))) = (w :: u32)"
proof -
  have "unat w < 256 ^ 4" using unsigned_less [of w] by simp
  then show ?thesis by (simp add: le_value_bytes)
qed

lemma le_value_word64: "of_nat (le_value (le_bytes 8 (unat w))) = (w :: u64)"
proof -
  have "unat w < 256 ^ 8" using unsigned_less [of w] by simp
  then show ?thesis by (simp add: le_value_bytes)
qed

lemma header_bytes_length: "length pad = 4 \<Longrightarrow> length (header_bytes pad h) = header_size"
  by (simp add: header_bytes_def)

lemma header_roundtrip: "length pad = 4 \<Longrightarrow> header_of (header_bytes pad h @ rest) = h"
  by (simp add: header_of_def le_field_def header_bytes_def le_value_word32 le_value_word64)

section \<open>Ranges\<close>

lemma length_read_range [simp]: "length (read_range p n m) = n"
  by (simp add: read_range_def)

lemma read_range_0 [simp]: "read_range p 0 m = []"
  by (simp add: read_range_def)

lemma read_range_eqI: "(\<And>i. i < n \<Longrightarrow> m' (p + i) = m (p + i)) \<Longrightarrow> read_range p n m' = read_range p n m"
  by (simp add: read_range_def)

lemma read_write_other:
  "sep p n q (length bs) \<Longrightarrow> read_range p n (write_range q bs m) = read_range p n m"
  by (intro read_range_eqI) (auto simp: write_range_def sep_def)

lemma read_write_same: "read_range p (length bs) (write_range p bs m) = bs"
  by (rule nth_equalityI) (simp_all add: read_range_def write_range_def)

definition write_all :: "(nat \<times> u8 list) list \<Rightarrow> mem \<Rightarrow> mem" where
  "write_all ws m = fold (\<lambda>(p, bs). write_range p bs) ws m"

lemma write_all_simps [simp]:
  "write_all [] m = m" "write_all ((p, bs) # ws) m = write_all ws (write_range p bs m)"
  "write_all (ws @ ws') m = write_all ws' (write_all ws m)"
  by (simp_all add: write_all_def)

lemma write_all_other:
  "\<forall>w \<in> set ws. sep p n (fst w) (length (snd w)) \<Longrightarrow> read_range p n (write_all ws m) = read_range p n m"
  by (induction ws arbitrary: m) (auto simp: read_write_other)

text \<open>Writes to pairwise disjoint ranges, given by a family.\<close>

lemma write_all_reads:
  assumes "distinct xs" "x \<in> set xs"
    and "\<And>y. y \<in> set xs \<Longrightarrow> y \<noteq> x \<Longrightarrow> sep (fst (w x)) (length (snd (w x))) (fst (w y)) (length (snd (w y)))"
  shows "read_range (fst (w x)) (length (snd (w x))) (write_all (map w xs) m) = snd (w x)"
  using assms
proof (induction xs arbitrary: m)
  case (Cons y ys)
  obtain q bs where q: "w y = (q, bs)" by fastforce
  show ?case
  proof (cases "y = x")
    case True
    have "\<forall>w' \<in> set (map w ys). sep (fst (w x)) (length (snd (w x))) (fst w') (length (snd w'))"
      using Cons.prems True by auto
    from write_all_other [OF this, of "write_range q bs m"] True q show ?thesis by (simp add: read_write_same)
  next
    case False
    with Cons q show ?thesis by simp
  qed
qed simp

section \<open>The image of a block\<close>

text \<open>The caches of the uniform constructor: every layer has the geometry of the header.\<close>

definition uniform_cache :: "(nat \<Rightarrow> nat \<Rightarrow> nat option) \<Rightarrow> kv_cache \<Rightarrow> bool" where
  "uniform_cache alloc c \<longleftrightarrow> 0 < kc_n_layers c \<and>
     (\<exists>nkv hdim dtype mb bs m m'. kv_cache_new alloc (kc_n_layers c) nkv hdim dtype mb bs m = Inr (c, m'))"

lemma kv_cache_new_uniform:
  assumes "kv_cache_new alloc n nkv hdim dtype mb bs m = Inr (c, m')"
  shows "kc_layer_block_bytes c = []" "kc_layer_scale_block_bytes c = []" "kc_layer_is_swa c = []"
    "kc_scale_block_bytes c = 0 \<or> kc_scale_pool c \<noteq> None"
  using assms by (auto simp: kv_cache_new_def Let_def split: option.splits if_splits prod.splits)

lemma uniform_fields:
  assumes "uniform_cache alloc c"
  shows "kv_built alloc c" "kc_layer_block_bytes c = []" "kc_layer_scale_block_bytes c = []" "kc_layer_is_swa c = []"
    "kc_scale_block_bytes c = 0 \<or> kc_scale_pool c \<noteq> None"
proof -
  obtain nkv hdim dtype mb bs m m' where
    n: "0 < kc_n_layers c" "kv_cache_new alloc (kc_n_layers c) nkv hdim dtype mb bs m = Inr (c, m')"
    using assms unfolding uniform_cache_def by (elim conjE exE)
  show "kv_built alloc c" unfolding kv_built_def by (intro conjI disjI1 exI) (rule n)+
  show "kc_layer_block_bytes c = []" "kc_layer_scale_block_bytes c = []" "kc_layer_is_swa c = []"
    "kc_scale_block_bytes c = 0 \<or> kc_scale_pool c \<noteq> None"
    by (rule kv_cache_new_uniform [OF n(2)])+
qed

definition n_secs :: "kv_cache \<Rightarrow> nat" where
  "n_secs c = (if kc_scale_block_bytes c = 0 then 2 else 4)"

definition sec_len :: "kv_cache \<Rightarrow> nat \<Rightarrow> nat" where
  "sec_len c sec = (if sec < 2 then kc_block_bytes c else kc_scale_block_bytes c)"

definition sec_off :: "kv_cache \<Rightarrow> nat \<Rightarrow> nat" where
  "sec_off c sec = (\<Sum>i < sec. sec_len c i)"

text \<open>All bytes of a block: K, V and their scales, layer by layer.\<close>

definition layer_image :: "kv_cache \<Rightarrow> mem \<Rightarrow> nat \<Rightarrow> nat \<Rightarrow> u8 list" where
  "layer_image c m b l = concat (map (\<lambda>sec. read_range (sec_addr c l sec b) (sec_len c sec) m) [0..<n_secs c])"

definition block_image :: "kv_cache \<Rightarrow> mem \<Rightarrow> nat \<Rightarrow> u8 list" where
  "block_image c m b = concat (map (layer_image c m b) [0..<kc_n_layers c])"

definition layer_len :: "kv_cache \<Rightarrow> nat" where
  "layer_len c = 2 * (kc_block_bytes c + kc_scale_block_bytes c)"

lemma per_block_layers: "per_block_total c = kc_n_layers c * layer_len c"
  by (simp add: per_block_total_def layer_len_def)

lemma secs: "[0..<4 :: nat] = [0, 1, 2, 3]" "[0..<2 :: nat] = [0, 1]"
  by (simp_all add: upt_rec)

lemma layer_image_eq:
  "layer_image c m b l = read_range (k_ptr l b c) (kc_block_bytes c) m @ read_range (v_ptr l b c) (kc_block_bytes c) m @
     (if kc_scale_block_bytes c = 0 then []
      else read_range (k_scale_at c l b) (kc_scale_block_bytes c) m @
           read_range (v_scale_at c l b) (kc_scale_block_bytes c) m)"
  by (simp add: layer_image_def n_secs_def secs sec_addr_def sec_len_def kv_addr_def scale_addr_def)

lemma length_layer_image [simp]: "length (layer_image c m b l) = layer_len c"
  by (simp add: layer_image_eq layer_len_def)

lemma length_block_image: "length (block_image c m b) = per_block_total c"
proof -
  have "length (concat (map (layer_image c m b) ls)) = length ls * layer_len c" for ls
    by (induction ls) simp_all
  then show ?thesis by (simp add: block_image_def per_block_total_def layer_len_def)
qed

lemma concat_slice:
  assumes "\<And>x. x \<in> set xs \<Longrightarrow> length (f x) = k" "i < length xs"
  shows "take k (drop (i * k) (concat (map f xs))) = f (xs ! i)"
  using assms
proof (induction xs arbitrary: i)
  case (Cons x xs)
  then show ?case by (cases i) auto
qed simp

definition entry_slice :: "kv_cache \<Rightarrow> u8 list \<Rightarrow> nat \<Rightarrow> nat \<Rightarrow> u8 list" where
  "entry_slice c d l sec = take (sec_len c sec) (drop (l * layer_len c + sec_off c sec) d)"

lemma persisted_secs: "sec < n_secs c \<longleftrightarrow> sec = 0 \<or> sec = 1 \<or> (sec = 2 \<or> sec = 3) \<and> kc_scale_block_bytes c \<noteq> 0"
  by (auto simp: n_secs_def)

lemma sec_offs:
  "sec_off c 0 = 0" "sec_off c (Suc 0) = kc_block_bytes c" "sec_off c 2 = 2 * kc_block_bytes c"
  "sec_off c 3 = 2 * kc_block_bytes c + kc_scale_block_bytes c"
  by (simp_all add: sec_off_def sec_len_def lessThan_nat_numeral lessThan_Suc eval_nat_numeral)

lemma sec_off_end: "sec < n_secs c \<Longrightarrow> sec_off c sec + sec_len c sec \<le> layer_len c"
  by (auto simp: persisted_secs sec_offs sec_len_def layer_len_def)

lemma layer_slice:
  assumes "sec < n_secs c"
  shows "take (sec_len c sec) (drop (sec_off c sec) (layer_image c m b l)) =
    read_range (sec_addr c l sec b) (sec_len c sec) m"
  using assms unfolding layer_image_eq persisted_secs
  by (auto simp: sec_offs sec_len_def sec_addr_def kv_addr_def scale_addr_def)

lemma image_slice:
  assumes "l < kc_n_layers c" "sec < n_secs c"
  shows "entry_slice c (block_image c m b) l sec = read_range (sec_addr c l sec b) (sec_len c sec) m"
proof -
  let ?img = "concat (map (layer_image c m b) [0..<kc_n_layers c])"
  have "layer_image c m b l = take (layer_len c) (drop (l * layer_len c) ?img)"
    using concat_slice [of "[0..<kc_n_layers c]" "layer_image c m b" "layer_len c" l] assms(1) by simp
  then have "take (sec_len c sec) (drop (sec_off c sec) (layer_image c m b l)) =
      take (sec_len c sec) (take (layer_len c - sec_off c sec) (drop (sec_off c sec) (drop (l * layer_len c) ?img)))"
    by (simp only: drop_take)
  also have "\<dots> = entry_slice c (block_image c m b) l sec"
    using sec_off_end [OF assms(2)] by (simp add: entry_slice_def block_image_def min_def ac_simps)
  finally show ?thesis using layer_slice [OF assms(2)] by simp
qed

section \<open>Saving without a device error\<close>

lemma scale_ptrs:
  assumes "uniform_cache alloc c" "kc_scale_block_bytes c \<noteq> 0"
  shows "k_scale_ptr l b c = Some (k_scale_at c l b)" "v_scale_ptr l b c = Some (v_scale_at c l b)"
  using uniform_fields(5) [OF assms(1)] assms(2)
  by (auto simp: k_scale_at_def v_scale_at_def k_scale_ptr_def v_scale_ptr_def)

lemma save_layers_image:
  assumes "uniform_cache alloc c" "\<And>l sec. copied l sec"
  shows "save_layers copied b c m ls = Some (concat (map (layer_image c m b) ls))"
proof (induction ls)
  case (Cons l ls)
  have "save_layer copied b c m l = Some (layer_image c m b l)"
    using scale_ptrs [OF assms(1)] by (simp add: save_layer_def layer_image_eq assms(2) Let_def)
  with Cons show ?case by simp
qed simp

lemma write_blocks_all:
  assumes "\<And>k. 8 \<le> room k" "\<And>k. per \<le> room k" "0 < per"
  shows "\<forall>e \<in> set hds. length (snd e) = per \<Longrightarrow>
    write_blocks room k (map (\<lambda>(h, d). (h, Some d)) hds) n f =
      (n + int (length hds), f @ concat (map (\<lambda>(h, d). le_bytes 8 (unat h) @ d) hds))"
proof (induction hds arbitrary: k n f)
  case (Cons e hds)
  obtain h d where e: "e = (h, d)" by fastforce
  have "le_bytes 8 (unat h) \<noteq> []" "d \<noteq> []" "length d \<le> room (k + 1)"
    using Cons.prems assms(2,3) by (auto simp: e simp flip: length_greater_0_conv)
  with Cons assms(1) show ?case by (simp add: e fwrite_def)
qed simp

section \<open>Reading the blocks back\<close>

lemma acquire_free:
  assumes "own_with X s" "0 < free_blocks (kv_pool s)" "acquire_block_ref s = (b, s1)"
  shows "0 \<le> b" "own_with (add_mset b X) s1" "free_blocks (kv_pool s) = free_blocks (kv_pool s1) + 1"
    "block_hash_to_id s1 = block_hash_to_id s"
proof -
  from own_acquire_cases [OF assms(1,3)] assms(2)
  show "0 \<le> b" "own_with (add_mset b X) s1" "block_hash_to_id s1 = block_hash_to_id s" by (cases; simp)+
  show "free_blocks (kv_pool s) = free_blocks (kv_pool s1) + 1"
    using assms(2,3) by (auto simp: acquire_block_ref_def pool_acquire_def free_blocks_def Let_def split: if_splits)
qed

lemma read_blocks_all:
  assumes "0 < per"
  shows "own_with X s \<Longrightarrow> length hds \<le> free_blocks (kv_pool s) \<Longrightarrow> length hds \<le> n \<Longrightarrow>
    \<forall>e \<in> set hds. length (snd e) = per \<and> block_hash_to_id s (fst e) = None \<Longrightarrow>
    \<exists>es s'. read_blocks n per (concat (map (\<lambda>(h, d). le_bytes 8 (unat h) @ d) hds)) s = (es, s') \<and>
      map (\<lambda>(h, b, d). (h, d)) es = hds"
proof (induction hds arbitrary: n s X)
  case Nil
  then show ?case by (cases n) simp_all
next
  case (Cons e hds)
  obtain h d where e: "e = (h, d)" by fastforce
  obtain k where n: "n = Suc k" using Cons.prems(3) by (cases n) simp_all
  obtain b s1 where a: "acquire_block_ref s = (b, s1)" by fastforce
  have fr: "0 < free_blocks (kv_pool s)" using Cons.prems(2) by simp
  note q = acquire_free [OF Cons.prems(1) fr a]
  have "\<exists>es s'. read_blocks k per (concat (map (\<lambda>(h, d). le_bytes 8 (unat h) @ d) hds)) s1 = (es, s') \<and>
      map (\<lambda>(h, b, d). (h, d)) es = hds"
    using Cons.prems(2-4) q(3,4) n by (intro Cons.IH [OF q(2)]) simp_all
  then obtain es s' where r: "read_blocks k per (concat (map (\<lambda>(h, d). le_bytes 8 (unat h) @ d) hds)) s1 = (es, s')"
    "map (\<lambda>(h, b, d). (h, d)) es = hds" by blast
  have "length d = per" "block_hash_to_id s h = None" using Cons.prems(4) by (simp_all add: e)
  with a q(1) r assms n show ?case by (simp add: e le_value_word64)
qed

section \<open>Loading without a device error\<close>

definition layer_writes :: "kv_cache \<Rightarrow> nat \<Rightarrow> u8 list \<Rightarrow> nat \<Rightarrow> (nat \<times> u8 list) list" where
  "layer_writes c b d l = map (\<lambda>sec. (sec_addr c l sec b, entry_slice c d l sec)) [0..<n_secs c]"

lemma load_layer_all:
  assumes "uniform_cache alloc c" "\<And>l sec. copied l sec"
  shows "load_layer copied b d c l (l * layer_len c) m = (True, write_all (layer_writes c b d l) m)"
  using scale_ptrs [OF assms(1)]
  by (simp add: load_layer_def layer_writes_def assms(2) Let_def n_secs_def secs sec_addr_def kv_addr_def
      scale_addr_def entry_slice_def sec_len_def sec_offs ac_simps)

lemma load_layers_all:
  assumes "uniform_cache alloc c" "\<And>l sec. copied l sec"
  shows "load_layers copied b d c [a..<a + k] (a * layer_len c) m =
    (True, write_all (concat (map (layer_writes c b d) [a..<a + k])) m)"
proof (induction k arbitrary: a m)
  case (Suc k)
  have u: "[a..<a + Suc k] = a # [Suc a..<Suc a + k]" by (simp add: upt_conv_Cons)
  have off: "a * layer_len c + 2 * (kc_block_bytes c + kc_scale_block_bytes c) = Suc a * layer_len c"
    by (simp add: layer_len_def)
  show ?case
    unfolding u load_layers.simps load_layer_all [OF assms] off prod.case bool.case Suc.IH by simp
qed simp

lemma load_data_all:
  assumes "uniform_cache alloc c" "\<And>i l sec. copied i l sec"
  shows "load_data copied c i es m =
    (replicate (length es) True,
     write_all (concat (map (\<lambda>(h, b, d). concat (map (layer_writes c (nat b) d) [0..<kc_n_layers c])) es)) m)"
proof (induction es arbitrary: i m)
  case (Cons e es)
  obtain h b d where e: "e = (h, b, d)" by (cases e)
  note l = load_layers_all [OF assms(1), where copied = "copied i" and a = 0 and k = "kc_n_layers c", OF assms(2)]
  show ?case using l Cons.IH by (simp add: e)
qed simp

text \<open>The same writes as a family over entry, layer and section.\<close>

definition entry_write :: "kv_cache \<Rightarrow> (hash \<times> int \<times> u8 list) \<times> nat \<times> nat \<Rightarrow> nat \<times> u8 list" where
  "entry_write c = (\<lambda>((h, b, d), l, sec). (sec_addr c l sec (nat b), entry_slice c d l sec))"

definition write_index :: "kv_cache \<Rightarrow> 'e list \<Rightarrow> ('e \<times> nat \<times> nat) list" where
  "write_index c es = List.product es (List.product [0..<kc_n_layers c] [0..<n_secs c])"

lemma writes_family:
  "concat (map (\<lambda>(h, b, d). concat (map (layer_writes c (nat b) d) [0..<kc_n_layers c])) es) =
    map (entry_write c) (write_index c es)"
proof (induction es)
  case (Cons e es)
  obtain h b d where e: "e = (h, b, d)" by (cases e)
  have "concat (map (layer_writes c (nat b) d) ls) = map (entry_write c) (map (Pair e) (List.product ls [0..<n_secs c]))" for ls
    by (induction ls) (simp_all add: layer_writes_def entry_write_def e)
  with Cons show ?case by (simp add: write_index_def e)
qed (simp add: write_index_def)

definition loadable :: "kv_cache \<Rightarrow> (hash \<times> int \<times> u8 list) list \<Rightarrow> bool" where
  "loadable c es \<longleftrightarrow> distinct (entry_ids es) \<and>
     (\<forall>(h, b, d) \<in> set es. 0 \<le> b \<and> nat b < kc_max_blocks c \<and> length d = per_block_total c)"

lemma uniform_sep:
  assumes "uniform_cache alloc c" "allocs_disjoint alloc" "l < kc_n_layers c" "l' < kc_n_layers c"
    and "b < kc_max_blocks c" "b' < kc_max_blocks c" "sec < n_secs c" "sec' < n_secs c" "(l, sec, b) \<noteq> (l', sec', b')"
  shows "sep (sec_addr c l sec b) (sec_len c sec) (sec_addr c l' sec' b') (sec_len c sec')"
proof -
  note u = uniform_fields [OF assms(1)]
  have cap: "cache_capacity c k = kc_max_blocks c" for k by (rule capacity_not_swa) (simp add: cache_layer_is_swa_def u)
  have raw: "raw_bytes c k x = sec_len c x" for k x
    by (simp add: raw_bytes_def sec_len_def layer_block_bytes_def layer_scale_block_bytes_def u)
  have sec: "x < (if kc_scale_pool c = None then 2 else 4)" if "x < n_secs c" for x
    using that u(5) by (auto simp: n_secs_def split: if_splits)
  from raw_apart [OF u(1) assms(2-4), of b b' sec sec'] assms(5-9) sec show ?thesis unfolding cap raw by simp
qed

lemma length_slice:
  assumes "length d = per_block_total c" "l < kc_n_layers c" "sec < n_secs c"
  shows "length (entry_slice c d l sec) = sec_len c sec"
proof -
  have "Suc l * layer_len c \<le> kc_n_layers c * layer_len c" using assms(2) by (intro mult_le_mono1) simp
  then have "l * layer_len c + sec_off c sec + sec_len c sec \<le> per_block_total c"
    using sec_off_end [OF assms(3)] unfolding per_block_layers by simp
  with assms(1) show ?thesis by (simp add: entry_slice_def)
qed

lemma load_data_reads:
  assumes u: "uniform_cache alloc c" "allocs_disjoint alloc" and es: "loadable c es"
    and m': "m' = write_all (map (entry_write c) (write_index c es)) m"
  shows "\<And>h b d l sec. (h, b, d) \<in> set es \<Longrightarrow> l < kc_n_layers c \<Longrightarrow> sec < n_secs c \<Longrightarrow>
      read_range (sec_addr c l sec (nat b)) (sec_len c sec) m' = entry_slice c d l sec"
    "\<And>b l sec. b < kc_max_blocks c \<Longrightarrow> int b \<notin> set (entry_ids es) \<Longrightarrow> l < kc_n_layers c \<Longrightarrow> sec < n_secs c \<Longrightarrow>
      read_range (sec_addr c l sec b) (sec_len c sec) m' = read_range (sec_addr c l sec b) (sec_len c sec) m"
proof -
  have idx: "set (write_index c es) = {(e, l, sec). e \<in> set es \<and> l < kc_n_layers c \<and> sec < n_secs c}"
    by (auto simp: write_index_def)
  have ids: "distinct (map (\<lambda>e. fst (snd e)) es)" and ok: "\<And>h b d. (h, b, d) \<in> set es \<Longrightarrow>
      0 \<le> b \<and> nat b < kc_max_blocks c \<and> length d = per_block_total c"
    using es by (auto simp: loadable_def entry_ids_def case_prod_unfold)
  have d: "distinct (write_index c es)"
    using ids unfolding write_index_def by (intro distinct_product) (auto simp: distinct_map)
  have len: "length (snd (entry_write c ((h, b, d), l, sec))) = sec_len c sec"
    if "((h, b, d), l, sec) \<in> set (write_index c es)" for h b d l sec
    using that ok length_slice by (auto simp: idx entry_write_def)
  show "read_range (sec_addr c l sec (nat b)) (sec_len c sec) m' = entry_slice c d l sec"
    if x: "(h, b, d) \<in> set es" "l < kc_n_layers c" "sec < n_secs c" for h b d l sec
  proof -
    let ?x = "((h, b, d), l, sec)"
    have xin: "?x \<in> set (write_index c es)" using x by (simp add: idx)
    have "sep (fst (entry_write c ?x)) (length (snd (entry_write c ?x))) (fst (entry_write c y)) (length (snd (entry_write c y)))"
      if y: "y \<in> set (write_index c es)" "y \<noteq> ?x" for y
    proof -
      obtain h' b' d' l' sec' where ye: "y = ((h', b', d'), l', sec')" by (metis surj_pair)
      have yi: "(h', b', d') \<in> set es" "l' < kc_n_layers c" "sec' < n_secs c" using y(1) by (simp_all add: idx ye)
      have "(l, sec, nat b) \<noteq> (l', sec', nat b')"
      proof
        assume eq: "(l, sec, nat b) = (l', sec', nat b')"
        then have "b = b'" using ok [OF x(1)] ok [OF yi(1)] by (simp add: eq_nat_nat_iff)
        then have "(h, b, d) = (h', b', d')" using ids x(1) yi(1) unfolding distinct_map inj_on_def by fastforce
        with eq y(2) ye show False by simp
      qed
      from uniform_sep [OF u x(2) yi(2) _ _ x(3) yi(3) this] ok [OF x(1)] ok [OF yi(1)] len [OF xin] len [OF y(1) [unfolded ye]]
      show ?thesis unfolding ye by (simp add: entry_write_def)
    qed
    from write_all_reads [OF d xin, of "entry_write c" m, OF this] len [OF xin] show ?thesis
      by (simp add: m' entry_write_def)
  qed
  show "read_range (sec_addr c l sec b) (sec_len c sec) m' = read_range (sec_addr c l sec b) (sec_len c sec) m"
    if x: "b < kc_max_blocks c" "int b \<notin> set (entry_ids es)" "l < kc_n_layers c" "sec < n_secs c" for b l sec
    unfolding m'
  proof (rule write_all_other, rule ballI)
    fix w assume "w \<in> set (map (entry_write c) (write_index c es))"
    then obtain y where y: "y \<in> set (write_index c es)" "w = entry_write c y" by auto
    obtain h' b' d' l' sec' where ye: "y = ((h', b', d'), l', sec')" by (metis surj_pair)
    have yi: "(h', b', d') \<in> set es" "l' < kc_n_layers c" "sec' < n_secs c" using y(1) by (simp_all add: idx ye)
    have "b' \<in> set (entry_ids es)" using yi(1) by (force simp: entry_ids_def)
    then have "b \<noteq> nat b'" using x(2) ok [OF yi(1)] by auto
    then have "(l, sec, b) \<noteq> (l', sec', nat b')" by simp
    from uniform_sep [OF u x(3) yi(2) x(1) _ x(4) yi(3) this] ok [OF yi(1)] len [OF y(1) [unfolded ye]]
    show "sep (sec_addr c l sec b) (sec_len c sec) (fst w) (length (snd w))"
      unfolding y(2) ye by (simp add: entry_write_def)
  qed
qed

text \<open>Caches that agree on what the header records.\<close>

definition same_geometry :: "kv_cache \<Rightarrow> kv_cache \<Rightarrow> bool" where
  "same_geometry c c' \<longleftrightarrow> kc_n_layers c' = kc_n_layers c \<and> kc_n_kv_heads c' = kc_n_kv_heads c \<and>
     kc_head_dim c' = kc_head_dim c \<and> kc_dtype c' = kc_dtype c \<and> kc_block_bytes c' = kc_block_bytes c \<and>
     kc_scale_block_bytes c' = kc_scale_block_bytes c"

lemma block_image_cong:
  assumes "same_geometry c c'" "\<And>l sec. l < kc_n_layers c \<Longrightarrow> sec < n_secs c \<Longrightarrow>
    read_range (sec_addr c' l sec b') (sec_len c sec) m' = read_range (sec_addr c l sec b) (sec_len c sec) m"
  shows "block_image c' m' b' = block_image c m b"
proof -
  have g: "kc_n_layers c' = kc_n_layers c" "n_secs c' = n_secs c" "sec_len c' = sec_len c"
    using assms(1) by (simp_all add: same_geometry_def n_secs_def sec_len_def fun_eq_iff)
  have "layer_image c' m' b' l = layer_image c m b l" if "l < kc_n_layers c" for l
    unfolding layer_image_def g using assms(2) [OF that] by (intro arg_cong [of _ _ concat] map_cong) simp_all
  then show ?thesis unfolding block_image_def g by (intro arg_cong [of _ _ concat] map_cong) simp_all
qed

lemma slice_geometry: "same_geometry c c' \<Longrightarrow> entry_slice c' d l sec = entry_slice c d l sec"
proof -
  assume g: "same_geometry c c'"
  then have "sec_len c' = sec_len c" by (simp add: same_geometry_def sec_len_def fun_eq_iff)
  moreover have "layer_len c' = layer_len c" using g by (simp add: same_geometry_def layer_len_def)
  ultimately show ?thesis by (simp add: entry_slice_def sec_off_def)
qed

end
