(* ===== verification/KV_Persist_Props.thy ===== *)
theory KV_Persist_Props
  imports KV_Window_Props KV_Persist_Data
begin

text \<open>
  Properties of the persistent prefix cache: what is saved is what is restored, in another
  process with another cache of the same geometry; a file that does not fit is rejected; a
  truncated file restores a prefix; and what goes wrong with per-layer geometry and with a
  corrupt block count.
\<close>

section \<open>The saved file\<close>

definition io_ok :: "(nat \<Rightarrow> nat) \<Rightarrow> u8 list \<Rightarrow> kv_cache \<Rightarrow> bool" where
  "io_ok room pad c \<longleftrightarrow> (\<forall>k. header_size \<le> room k \<and> per_block_total c \<le> room k) \<and> length pad = 4 \<and>
     0 < per_block_total c"

definition saved_blocks :: "kv_cache \<Rightarrow> mem \<Rightarrow> kv_mgr \<Rightarrow> (hash \<times> u8 list) list" where
  "saved_blocks c m s = map (\<lambda>(b, h). (h, block_image c m (nat b))) (save_entries s)"

definition prefix_file :: "u8 list \<Rightarrow> u64 \<Rightarrow> kv_cache \<Rightarrow> mem \<Rightarrow> kv_mgr \<Rightarrow> u8 list" where
  "prefix_file pad fp c m s = header_bytes pad (header_for (length (cached_blocks_lru s)) fp c) @
     concat (map (\<lambda>(h, d). le_bytes 8 (unat h) @ d) (saved_blocks c m s))"

lemma save_entries_lru: "save_entries s \<noteq> [] \<Longrightarrow> cached_blocks_lru s \<noteq> []"
  by (auto simp: save_entries_def)

lemma length_save_entries: "length (save_entries s) \<le> length (cached_blocks_lru s)"
  by (simp add: save_entries_def map_filter_def)

lemma map_enumerate_snd: "map (\<lambda>(i, b, h). f b h) (enumerate n xs) = map (\<lambda>(b, h). f b h) xs"
  by (induction xs arbitrary: n) auto

lemma save_run:
  assumes "uniform_cache alloc c" "prefix_caching_enabled s" "save_entries s \<noteq> []" "io_ok room pad c"
  shows "save_prefix_cache True room (\<lambda>i l sec. True) pad fp c s m =
    (int (length (save_entries s)), Some (prefix_file pad fp c m s))"
proof -
  have room: "\<And>k. 8 \<le> room k" "\<And>k. per_block_total c \<le> room k" "0 < per_block_total c" "56 \<le> room 0" "length pad = 4"
    using assms(4) unfolding io_ok_def header_size_def by (auto intro: order_trans [of 8 56])
  have hl: "length (header_bytes pad h) = 56" for h using header_bytes_length [OF room(5)] by simp
  have bl: "map (\<lambda>(i, b, h). (h, save_layers (\<lambda>l sec. True) (nat b) c m [0..<kc_n_layers c])) (enumerate 0 (save_entries s)) =
      map (\<lambda>(h, d). (h, Some d)) (saved_blocks c m s)"
    unfolding map_enumerate_snd
    by (simp add: save_layers_image [OF assms(1)] block_image_def saved_blocks_def case_prod_unfold comp_def)
  have "\<forall>e \<in> set (saved_blocks c m s). length (snd e) = per_block_total c"
    by (auto simp: saved_blocks_def length_block_image)
  note w = write_blocks_all [OF room(1-3) this, where k = 1 and n = 0
    and f = "header_bytes pad (header_for (length (cached_blocks_lru s)) fp c)"]
  have fw: "fwrite (room 0) (header_bytes pad h) [] = (True, header_bytes pad h)" for h
    using hl [of h] room(4) by (auto simp: fwrite_def)
  show ?thesis
    using assms(2,3) save_entries_lru [OF assms(3)]
    unfolding save_prefix_cache_def Let_def fw prod.case bl w prefix_file_def by (simp add: saved_blocks_def)
qed

lemma hashed_distinct:
  "hash_inv s \<Longrightarrow> distinct bs \<Longrightarrow>
    distinct (map snd (List.map_filter (\<lambda>b. map_option (Pair b) (block_id_to_hash s b)) bs))"
proof (induction bs)
  case (Cons b bs)
  show ?case
  proof (cases "block_id_to_hash s b")
    case (Some h)
    have "block_id_to_hash s b' \<noteq> Some h" if "b' \<in> set bs" for b'
    proof
      assume "block_id_to_hash s b' = Some h"
      with Some Cons.prems(1) have "Some b = Some b'" unfolding hash_inv_def by metis
      with that Cons.prems(2) show False by simp
    qed
    with Cons Some show ?thesis by (auto simp: map_filter_def)
  qed (use Cons in simp)
qed simp

lemma save_hashes_distinct: "kv_inv s \<Longrightarrow> distinct (map fst (saved_blocks c m s))"
  using hashed_distinct [of s "cached_blocks_lru s"]
  by (simp add: saved_blocks_def save_entries_def kv_inv_def cache_inv_def comp_def case_prod_unfold)

lemma header_for_matches: "same_geometry c c' \<Longrightarrow> header_matches fp c' (header_for n fp c)"
  by (simp add: header_matches_def header_for_def same_geometry_def)

section \<open>The restored cache\<close>

lemma register_lru: "cached_blocks_lru (fold register_loaded es s) = cached_blocks_lru s @ entry_ids es"
  by (induction es arbitrary: s) (auto simp: register_loaded_def cache_ref_def Let_def)

lemma register_hash_other:
  "h \<notin> fst ` set es \<Longrightarrow> block_hash_to_id (fold register_loaded es s) h = block_hash_to_id s h"
  by (induction es arbitrary: s) (simp_all add: register_loaded_fields)

lemma register_hash:
  "(h, b, d) \<in> set es \<Longrightarrow> distinct (map fst es) \<Longrightarrow> block_hash_to_id (fold register_loaded es s) h = Some b"
proof (induction es arbitrary: s)
  case (Cons e es)
  show ?case
  proof (cases "e = (h, b, d)")
    case True
    then have "h \<notin> fst ` set es" using Cons.prems(2) by auto
    from register_hash_other [OF this] True show ?thesis by (simp add: register_loaded_fields)
  qed (use Cons in auto)
qed simp

lemma read_saved:
  assumes "kv_inv u" "0 < per_block_total c'" "length hds \<le> free_blocks (kv_pool u)" "length hds \<le> n"
    and "\<forall>e \<in> set hds. length (snd e) = per_block_total c' \<and> block_hash_to_id u (fst e) = None"
    and "block_ids (kv_pool u) = {0..<int (kc_max_blocks c')}"
  obtains es s1 where
    "read_blocks n (per_block_total c') (concat (map (\<lambda>(h, d). le_bytes 8 (unat h) @ d) hds)) u = (es, s1)"
    "map (\<lambda>(h, b, d). (h, d)) es = hds" "read_outcome {#} u es s1" "loadable c' es"
proof -
  have own: "own_with {#} u" using assms(1) by (simp add: kv_inv_def)
  obtain es s1 where r: "read_blocks n (per_block_total c') (concat (map (\<lambda>(h, d). le_bytes 8 (unat h) @ d) hds)) u = (es, s1)"
    "map (\<lambda>(h, b, d). (h, d)) es = hds"
    using read_blocks_all [OF assms(2) own assms(3,4,5)] by blast
  note o = read_blocks_outcome [OF own r(1)]
  obtain p where p: "own_with (mset (entry_ids es)) s1" "s1 = u\<lparr>kv_pool := p\<rparr>" "block_ids p = block_ids (kv_pool u)"
    "distinct (entry_ids es)"
    using o unfolding read_outcome_def add_0_right by blast
  have "b \<in> {0..<int (kc_max_blocks c')}" if "b \<in> set (entry_ids es)" for b
    using p(1,2,3) assms(6) that by (auto simp: own_with_def pool_owned_def)
  moreover have "b \<in> set (entry_ids es)" "length d = per_block_total c'" if "(h, b, d) \<in> set es" for h b d
    using that assms(5) by (force simp: entry_ids_def r(2) [symmetric])+
  ultimately have "loadable c' es" using p(4) unfolding loadable_def by fastforce
  with r o that show thesis by blast
qed

text \<open>What a restored manager and memory hold for the saved entries.\<close>

definition restored_from :: "kv_cache \<Rightarrow> mem \<Rightarrow> kv_mgr \<Rightarrow> kv_cache \<Rightarrow> mem \<Rightarrow> kv_mgr \<Rightarrow> bool" where
  "restored_from c m s c' m' u' \<longleftrightarrow> (\<forall>b h. (b, h) \<in> set (save_entries s) \<longrightarrow>
     (\<exists>b'. block_hash_to_id u' h = Some b' \<and> b' \<in> set (cached_blocks_lru u') \<and>
        block_image c' m' (nat b') = block_image c m (nat b)))"

lemma load_saved:
  assumes u: "kv_reach alloc c' u" "uniform_cache alloc c'" "allocs_disjoint alloc" and g: "same_geometry c c'"
    and inv: "kv_inv s" and en: "prefix_caching_enabled u" and pin: "pinned_blocks u = {}"
    and n: "length (cached_blocks_lru s) < 2 ^ 31" "reserve_ok (length (cached_blocks_lru s))"
    and io: "io_ok room pad c" and fr: "length (save_entries s) \<le> free_blocks (kv_pool u)"
    and new: "\<forall>b h. (b, h) \<in> set (save_entries s) \<longrightarrow> block_hash_to_id u h = None"
  shows "\<exists>u' m'. load_prefix_cache reserve_ok (\<lambda>i l sec. True) (Some (prefix_file pad fp c m s)) fp c' u m2 =
      Inr (int (length (save_entries s)), u', m') \<and> kv_inv u' \<and> alloc_frame u u' \<and> restored_from c m s c' m' u' \<and>
      (\<forall>b. b \<in># kv_refs u \<longrightarrow> block_image c' m' (nat b) = block_image c' m2 (nat b))"
proof -
  note r = kv_reach_inv [OF u(1)]
  let ?hds = "saved_blocks c m s" and ?hdr = "header_for (length (cached_blocks_lru s)) fp c"
  define f where "f = prefix_file pad fp c m s"
  have pad: "length pad = 4" and per: "0 < per_block_total c'" "per_block_total c' = per_block_total c"
    using io g by (simp_all add: io_ok_def same_geometry_def per_block_total_def)
  have hd: "header_of f = ?hdr" "drop header_size f = concat (map (\<lambda>(h, d). le_bytes 8 (unat h) @ d) ?hds)"
    "header_size \<le> length f"
    using header_roundtrip [OF pad] header_bytes_length [OF pad] by (simp_all add: f_def prefix_file_def)
  have nb: "sint (ph_n_blocks ?hdr) = int (length (cached_blocks_lru s))"
    using sint_small [OF n(1)] by (simp add: header_for_def)
  have hds: "\<forall>e \<in> set ?hds. length (snd e) = per_block_total c' \<and> block_hash_to_id u (fst e) = None"
    using new by (auto simp: saved_blocks_def length_block_image per)
  have len: "length ?hds = length (save_entries s)" by (simp add: saved_blocks_def)
  obtain es s1 where e: "read_blocks (length (cached_blocks_lru s)) (per_block_total c')
      (concat (map (\<lambda>(h, d). le_bytes 8 (unat h) @ d) ?hds)) u = (es, s1)"
    "map (\<lambda>(h, b, d). (h, d)) es = ?hds" "read_outcome {#} u es s1" "loadable c' es"
    using read_saved [OF r(1) per(1) _ _ hds r(5)] fr len length_save_entries [of s] by metis
  define m' where "m' = write_all (map (entry_write c') (write_index c' es)) m2"
  have data: "load_data (\<lambda>i l sec. True) c' 0 es m2 = (replicate (length es) True, m')"
    unfolding load_data_all [OF u(2) TrueI] writes_family m'_def ..
  have ff: "map fst es = map fst ?hds" unfolding e(2) [symmetric] by (simp add: comp_def case_prod_unfold)
  have zs: "filter fst (zip (replicate (length es) True) es) = zip (replicate (length es) True) es"
    "filter (\<lambda>x. \<not> fst x) (zip (replicate (length es) True) es) = []"
    by (auto simp: filter_id_conv filter_empty_conv set_zip)
  define u' where "u' = fold register_loaded es s1"
  have le: "length es = length (save_entries s)" using arg_cong [OF e(2), of length] len by simp
  have run: "load_prefix_cache reserve_ok (\<lambda>i l sec. True) (Some f) fp c' u m2 = Inr (int (length (save_entries s)), u', m')"
    using en n(2) hd(3) header_for_matches [OF g] le
    by (simp add: load_prefix_cache_def Let_def hd(1,2) [unfolded header_size_def] nb e(1) data zs [unfolded le] u'_def drop_refs_def)
  have "clean_file c' u f" using save_hashes_distinct [OF inv] ff by (simp add: clean_file_def hd(1,2) [unfolded header_size_def] nb e(1))
  then have "kv_inv u'" "alloc_frame u u'" using load_outcome [OF r(1) run pin] by simp_all
  moreover have "restored_from c m s c' m' u'" unfolding restored_from_def
  proof (intro allI impI)
    fix b h assume "(b, h) \<in> set (save_entries s)"
    then have "(h, block_image c m (nat b)) \<in> set ?hds" by (force simp: saved_blocks_def)
    then obtain b' where b': "(h, b', block_image c m (nat b)) \<in> set es" unfolding e(2) [symmetric] by auto
    have "block_hash_to_id u' h = Some b'"
      unfolding u'_def using save_hashes_distinct [OF inv] ff by (intro register_hash [OF b']) simp
    moreover have "b' \<in> set (cached_blocks_lru u')"
      using b' by (force simp: u'_def register_lru entry_ids_def)
    moreover have "block_image c' m' (nat b') = block_image c m (nat b)"
    proof (rule block_image_cong [OF g])
      fix l sec assume ls: "l < kc_n_layers c" "sec < n_secs c"
      then have "l < kc_n_layers c'" "sec < n_secs c'" "sec_len c' sec = sec_len c sec"
        using g by (simp_all add: same_geometry_def n_secs_def sec_len_def)
      with load_data_reads(1) [OF u(2,3) e(4) m'_def b', of l sec] image_slice [OF ls, of m "nat b"]
      show "read_range (sec_addr c' l sec (nat b')) (sec_len c sec) m' = read_range (sec_addr c l sec (nat b)) (sec_len c sec) m"
        by (simp add: slice_geometry [OF g])
    qed
    ultimately show "\<exists>b'. block_hash_to_id u' h = Some b' \<and> b' \<in> set (cached_blocks_lru u') \<and>
      block_image c' m' (nat b') = block_image c m (nat b)" by blast
  qed
  moreover have "block_image c' m' (nat b) = block_image c' m2 (nat b)" if b: "b \<in># kv_refs u" for b
  proof (rule block_image_cong)
    have "b \<in> block_ids (kv_pool u)" using b r(1) by (auto simp: kv_inv_def own_with_def pool_owned_def)
    then have bb: "nat b < kc_max_blocks c'" "int (nat b) = b" using r(5) by auto
    have "int (nat b) \<notin> set (entry_ids es)" using b e(3) unfolding bb(2) read_outcome_def by auto
    from load_data_reads(2) [OF u(2,3) e(4) m'_def bb(1) this]
    show "read_range (sec_addr c' l sec (nat b)) (sec_len c' sec) m' = read_range (sec_addr c' l sec (nat b)) (sec_len c' sec) m2"
      if "l < kc_n_layers c'" "sec < n_secs c'" for l sec using that by blast
  qed (simp add: same_geometry_def)
  ultimately show ?thesis using run unfolding f_def by blast
qed


definition saved_mgr :: kv_mgr where
  "saved_mgr = free_sequence 8 (register_block_hashes 8 [1, 2] 0 prefix_mgr)"

lemma saved_mgr_reach: "kv_reach example_alloc small_cache saved_mgr"
  unfolding saved_mgr_def
  by (intro kv_reach_step [OF _ kv_step.free] kv_reach_step [OF prefix_mgr_reach kv_step.register])

lemma saved_mgr_fields:
  "prefix_caching_enabled saved_mgr" "length (save_entries saved_mgr) = 1" "length (cached_blocks_lru saved_mgr) = 1"
  by code_simp+

lemma small_uniform: "uniform_cache example_alloc small_cache" "per_block_total small_cache = 128"
proof -
  note d = small_cache_def kv_cache_new_def example_alloc_def kv_bytes_def packed_4bit_def open_slots_def
    closed_pool_def Let_def
  have n: "\<exists>m'. kv_cache_new example_alloc 1 1 16 F16 4 2 (\<lambda>a. 0) = Inr (small_cache, m')" by (simp add: d)
  have f: "kc_n_layers small_cache = 1" by (simp add: d)
  show "uniform_cache example_alloc small_cache" using n unfolding uniform_cache_def f by (intro conjI zero_less_one) blast
  show "per_block_total small_cache = 128" by (simp add: per_block_total_def d)
qed




section \<open>Per-layer geometry\<close>

text \<open>
  C30. With per-layer geometry a load overruns the block it restores: the copy of a layer uses the
  largest block size of all layers, so that in a layer with smaller blocks the first key byte of
  the next block is overwritten with a byte of this entry.
\<close>

theorem load_per_layer_overruns:
  assumes "kv_built alloc c" "l < kc_n_layers c" "layer_block_bytes l c < kc_block_bytes c"
    and "0 < layer_block_bytes l c" "Suc b < cache_capacity c l" "kc_scale_block_bytes c = 0"
    and "copied l 0" "copied l 1" "off + kc_block_bytes c \<le> length d"
  shows "snd (load_layer copied b d c l off m) (k_ptr l (Suc b) c) = d ! (off + layer_block_bytes l c)"
proof -
  let ?n = "layer_block_bytes l c" and ?bb = "kc_block_bytes c"
  have ne: "kc_layer_block_bytes c \<noteq> []" using assms(3) by (auto simp: layer_block_bytes_def)
  have "kv_layout_ok c" using kv_built_pools [OF assms(1)] by (simp add: pools_ok_def)
  then have v: "kc_layer_v_offset c ! l = kc_layer_k_offset c ! l + cache_capacity c l * ?n"
    using offsets_okD(1) assms(2) ne by (auto simp: kv_layout_ok_def layer_block_bytes_def)
  have k: "k_ptr l (Suc b) c = k_ptr l b c + ?n" using ne by (simp add: k_ptr_def layer_block_bytes_def)
  have "1 * ?n < cache_capacity c l * ?n" using assms(4,5) by (intro mult_less_mono1) simp_all
  then have lt: "k_ptr l (Suc b) c < v_ptr l b c"
    unfolding k using ne v by (simp add: k_ptr_def v_ptr_def layer_block_bytes_def)
  have "snd (load_layer copied b d c l off m) (k_ptr l (Suc b) c) = take ?bb (drop off d) ! ?n"
    using assms(3,6-9) lt by (simp add: load_layer_def write_range_def k Let_def)
  with assms(3,9) show ?thesis by simp
qed

definition mixed_cache :: kv_cache where
  "mixed_cache = fst (projr (kv_cache_per_layer example_alloc 2 [1, 2] [16, 16] F16 4 2 [] 0 (\<lambda>a. 0)))"

lemma mixed_loops:
  "layer_loop (Suc (Suc 0)) 0 (layer_kv_bytes [1, 2] [16, 16] F16 2) (layer_capacity [] 0 4) 0 =
     ([64, 128], [0, 512], [256, 1024], 1536)"
  "max_shape [1, 2] [16, 16] (Suc (Suc 0)) = (2, 16)"
  by (simp_all add: layer_kv_bytes_def shape_at_def layer_capacity_def kv_bytes_def packed_4bit_def max_shape_def Let_def)

lemma mixed_cache_new: "\<exists>m'. kv_cache_per_layer example_alloc 2 [1, 2] [16, 16] F16 4 2 [] 0 (\<lambda>a. 0) = Inr (mixed_cache, m')"
  "kc_n_layers mixed_cache = 2" "layer_block_bytes 0 mixed_cache = 64" "kc_block_bytes mixed_cache = 128"
  "cache_capacity mixed_cache 0 = 4" "kc_scale_block_bytes mixed_cache = 0"
  by (simp_all add: mixed_cache_def kv_cache_per_layer_def example_alloc_def open_slots_def closed_pool_def Let_def
      mixed_loops [folded numeral_2_eq_2] layer_block_bytes_def cache_capacity_def layer_capacity_def kv_bytes_def
      packed_4bit_def)

theorem load_per_layer_overruns_witness:
  "snd (load_layer (\<lambda>l sec. True) 0 (replicate 256 7) mixed_cache 0 0 (\<lambda>a. 0)) (k_ptr 0 1 mixed_cache) = 7"
proof -
  have "kv_built example_alloc mixed_cache"
    unfolding kv_built_def mixed_cache_new(2) using mixed_cache_new(1) by auto
  from load_per_layer_overruns [OF this, where l = 0 and b = 0 and copied = "\<lambda>l sec. True" and off = 0
      and d = "replicate 256 7" and m = "\<lambda>a. 0"] show ?thesis by (simp add: mixed_cache_new)
qed

end
