(* ===== verification/Snapshot_Store.thy ===== *)
theory Snapshot_Store
  imports KV_Prefix Device_Mem
begin

text \<open>
  \<^verbatim>\<open>RecurrentSnapshotStore\<close> (\<^verbatim>\<open>src/src/memory/recurrent_snapshot_store.h\<close>, \<^verbatim>\<open>.cpp\<close>): an LRU
  store of device snapshots that are handed out as shared pointers. The state has the references
  the store holds (its map) and, as \<open>rs_held\<close>, those of the requests; the deleter of an entry runs
  when the last reference goes. \<open>rs_freed\<close> lists the buffers given to \<^verbatim>\<open>cudaFree\<close>. Buffers and
  addresses are natural numbers; the answers of \<^verbatim>\<open>cudaMalloc\<close> and of the copies are arguments.
  The order of the association list stands for the iteration order of the map.
\<close>

section \<open>State\<close>

record snap_entry =
  se_key :: hash
  se_n_tokens :: int
  se_data :: nat

record snap_store =
  rs_pool :: bool
  rs_shutdown :: bool
  rs_free :: "nat list"
  rs_freed :: "nat list"
  rs_entry_bytes :: nat
  rs_capacity :: int
  rs_entries :: "(hash \<times> snap_entry) list"
  rs_lru :: "hash list"
  rs_held :: "snap_entry multiset"

definition snap_store_new :: snap_store where
  "snap_store_new = \<lparr>rs_pool = False, rs_shutdown = False, rs_free = [], rs_freed = [], rs_entry_bytes = 0,
     rs_capacity = 0, rs_entries = [], rs_lru = [], rs_held = {#}\<rparr>"

section \<open>Operations\<close>

primrec take_bufs :: "nat \<Rightarrow> nat \<Rightarrow> (nat \<Rightarrow> nat option) \<Rightarrow> nat list" where
  "take_bufs 0 i malloc = []"
| "take_bufs (Suc n) i malloc = (case malloc i of None \<Rightarrow> [] | Some p \<Rightarrow> p # take_bufs n (Suc i) malloc)"

definition snap_init :: "nat \<Rightarrow> nat \<Rightarrow> (nat \<Rightarrow> nat option) \<Rightarrow> snap_store \<Rightarrow> snap_store" where
  "snap_init entry_bytes budget_bytes malloc s =
     (let s1 = s\<lparr>rs_entry_bytes := entry_bytes\<rparr>;
          want = (if 0 < entry_bytes then sint (word_of_nat (budget_bytes div entry_bytes) :: u32) else 0) in
      if want \<le> 0 then s1
      else let bufs = take_bufs (nat want) 0 malloc in
        s1\<lparr>rs_free := bufs, rs_capacity := int (length bufs), rs_pool := (bufs \<noteq> [])\<rparr>)"

definition snap_enabled :: "snap_store \<Rightarrow> bool" where
  "snap_enabled s \<longleftrightarrow> 0 < rs_capacity s"

definition snap_contains :: "hash \<Rightarrow> snap_store \<Rightarrow> bool" where
  "snap_contains key s \<longleftrightarrow> map_of (rs_entries s) key \<noteq> None"

text \<open>The deleter of an entry, and the end of one reference to it.\<close>

definition snap_deleter :: "snap_entry \<Rightarrow> snap_store \<Rightarrow> snap_store" where
  "snap_deleter e s =
     (if \<not> rs_shutdown s then s\<lparr>rs_free := rs_free s @ [se_data e]\<rparr>
      else s\<lparr>rs_freed := rs_freed s @ [se_data e]\<rparr>)"

definition last_ref :: "snap_entry \<Rightarrow> snap_store \<Rightarrow> snap_store" where
  "last_ref e s =
     (if e \<in># rs_held s \<or> e \<in> snd ` set (rs_entries s) then s else snap_deleter e s)"

definition snap_release :: "snap_entry \<Rightarrow> snap_store \<Rightarrow> snap_store" where
  "snap_release e s =
     (if e \<in># rs_held s then last_ref e (s\<lparr>rs_held := rs_held s - {#e#}\<rparr>) else s)"

text \<open>The result is a reference of the caller.\<close>

definition snap_find :: "hash \<Rightarrow> snap_store \<Rightarrow> snap_entry option \<times> snap_store" where
  "snap_find key s =
     (case map_of (rs_entries s) key of
        None \<Rightarrow> (None, s)
      | Some e \<Rightarrow>
          (Some e, s\<lparr>rs_lru := (if key \<in> set (rs_lru s) then remove1 key (rs_lru s) @ [key] else rs_lru s),
                    rs_held := add_mset e (rs_held s)\<rparr>))"

definition erase_entry :: "hash \<Rightarrow> snap_store \<Rightarrow> snap_store" where
  "erase_entry key s =
     (case map_of (rs_entries s) key of
        None \<Rightarrow> s
      | Some e \<Rightarrow> last_ref e (s\<lparr>rs_entries := AList.delete key (rs_entries s)\<rparr>))"

definition pop_free :: "snap_store \<Rightarrow> nat \<times> snap_store" where
  "pop_free s = (last (rs_free s), s\<lparr>rs_free := butlast (rs_free s)\<rparr>)"

primrec evict_entries :: "hash list \<Rightarrow> snap_store \<Rightarrow> nat option \<times> snap_store" where
  "evict_entries [] s = (None, s)"
| "evict_entries (victim # vs) s =
     (let s1 = erase_entry victim (s\<lparr>rs_lru := vs\<rparr>) in
      if rs_free s1 \<noteq> [] then map_prod Some id (pop_free s1) else evict_entries vs s1)"

definition acquire_buffer :: "snap_store \<Rightarrow> nat option \<times> snap_store" where
  "acquire_buffer s =
     (if rs_free s \<noteq> [] then map_prod Some id (pop_free s) else evict_entries (rs_lru s) s)"

definition snap_save ::
  "hash \<Rightarrow> int \<Rightarrow> nat option \<Rightarrow> bool \<Rightarrow> snap_store \<Rightarrow> mem \<Rightarrow> bool \<times> snap_store \<times> mem" where
  "snap_save key n_tokens src copied s m =
     (case src of
        None \<Rightarrow> (False, s, m)
      | Some p \<Rightarrow>
          if \<not> snap_enabled s \<or> n_tokens \<le> 0 then (False, s, m)
          else if snap_contains key s then (True, s, m)
          else case acquire_buffer s of
            (None, s1) \<Rightarrow> (False, s1, m)
          | (Some buf, s1) \<Rightarrow>
              if \<not> copied then (False, s1\<lparr>rs_free := rs_free s1 @ [buf]\<rparr>, m)
              else
                (True,
                 s1\<lparr>rs_entries := AList.update key \<lparr>se_key = key, se_n_tokens = n_tokens, se_data = buf\<rparr> (rs_entries s1),
                    rs_lru := rs_lru s1 @ [key]\<rparr>,
                 copy_range p buf (rs_entry_bytes s1) m))"

text \<open>Clearing drops the references of the map one after the other.\<close>

definition snap_clear :: "snap_store \<Rightarrow> snap_store" where
  "snap_clear s = (fold erase_entry (map fst (rs_entries s)) s)\<lparr>rs_lru := []\<rparr>"

text \<open>The destructor: the free buffers, then the members.\<close>

definition snap_destroy :: "snap_store \<Rightarrow> snap_store" where
  "snap_destroy s =
     snap_clear (if rs_pool s then s\<lparr>rs_shutdown := True, rs_freed := rs_freed s @ rs_free s, rs_free := []\<rparr> else s)"

section \<open>Reuse limits\<close>

text \<open>
  \<^verbatim>\<open>hybrid_prefix_reuse_limit_\<close> and \<^verbatim>\<open>swa_prefix_reuse_limit_\<close>: the longest cached prefix that has
  a snapshot, with the snapshot for the request; \<open>usable\<close> is the conjunction of their early
  returns (a store that is enabled, chunked prefill, no image input).
\<close>

primrec limit_loop :: "nat \<Rightarrow> int \<Rightarrow> hash list \<Rightarrow> snap_store \<Rightarrow> (int \<times> snap_entry option) \<times> snap_store" where
  "limit_loop 0 bs hashes s = ((0, None), s)"
| "limit_loop (Suc b) bs hashes s =
     (case snap_find (hashes ! b) s of
        (None, s1) \<Rightarrow> limit_loop b bs hashes s1
      | (Some e, s1) \<Rightarrow>
          if se_n_tokens e = int (Suc b) * bs then ((int (Suc b), Some e), s1)
          else limit_loop b bs hashes (snap_release e s1))"

definition prefix_reuse_limit ::
  "bool \<Rightarrow> token list \<Rightarrow> kv_mgr \<Rightarrow> snap_store \<Rightarrow> (int \<times> snap_entry option) \<times> snap_store" where
  "prefix_reuse_limit usable toks kv s =
     (if \<not> usable then ((0, None), s)
      else
        let bs = kv_block_size kv; total = int (length toks);
            (cached, hashes) = longest_cached_prefix_blocks toks 0 kv;
            max_b = min cached ((total - 1) div bs)
        in limit_loop (nat max_b) bs hashes s)"

section \<open>Ownership of buffers\<close>

text \<open>The entries that are alive: referenced by the map or by a request.\<close>

definition alive :: "snap_store \<Rightarrow> snap_entry set" where
  "alive s = snd ` set (rs_entries s) \<union> set_mset (rs_held s)"

lemma finite_alive [simp]: "finite (alive s)"
  by (simp add: alive_def)

text \<open>
  Every buffer of \<open>A\<close> is free, freed, in hand (\<open>X\<close>), or owned by exactly one entry that is alive.
\<close>

definition buf_inv :: "nat multiset \<Rightarrow> nat multiset \<Rightarrow> snap_store \<Rightarrow> bool" where
  "buf_inv A X s \<longleftrightarrow> distinct (map fst (rs_entries s)) \<and> (\<forall>x \<in> set (rs_entries s). se_key (snd x) = fst x) \<and>
     inj_on se_data (alive s) \<and>
     mset (rs_free s) + image_mset se_data (mset_set (alive s)) + mset (rs_freed s) + X = A"

definition lru_inv :: "snap_store \<Rightarrow> bool" where
  "lru_inv s \<longleftrightarrow> distinct (rs_lru s) \<and> set (rs_lru s) = fst ` set (rs_entries s)"

lemma buf_inv_lru [simp]: "buf_inv A X (s\<lparr>rs_lru := l\<rparr>) = buf_inv A X s"
  by (simp add: buf_inv_def alive_def)

lemma last_ref_inv:
  assumes "buf_inv A X s0" "alive s0 = insert e (alive s)" "rs_free s = rs_free s0" "rs_freed s = rs_freed s0"
    and "distinct (map fst (rs_entries s))" "set (rs_entries s) \<subseteq> set (rs_entries s0)"
  shows "buf_inv A X (last_ref e s)"
proof (cases "e \<in> alive s")
  case True
  then have "alive s0 = alive s" using assms(2) by (simp add: insert_absorb)
  moreover have "last_ref e s = s" using True by (auto simp: last_ref_def alive_def)
  ultimately show ?thesis using assms by (auto simp: buf_inv_def)
next
  case False
  have l: "alive (snap_deleter e s) = alive s" "rs_entries (snap_deleter e s) = rs_entries s"
    by (simp_all add: snap_deleter_def alive_def)
  have "mset_set (alive s0) = add_mset e (mset_set (alive s))" using False by (simp add: assms(2))
  then have "mset (rs_free s) + image_mset se_data (mset_set (alive s)) + mset (rs_freed s) + {#se_data e#} + X = A"
    using assms(1,3,4) by (simp add: buf_inv_def)
  then have "mset (rs_free (snap_deleter e s)) + image_mset se_data (mset_set (alive s)) +
      mset (rs_freed (snap_deleter e s)) + X = A"
    by (simp add: snap_deleter_def)
  moreover have "inj_on se_data (alive s)" using assms(1,2) by (simp add: buf_inv_def)
  moreover have lr: "last_ref e s = snap_deleter e s" using False by (simp add: last_ref_def alive_def)
  ultimately show ?thesis using assms(1,5,6) unfolding lr buf_inv_def l by auto
qed

lemma last_ref_fields [simp]:
  "rs_entries (last_ref e s) = rs_entries s" "rs_held (last_ref e s) = rs_held s" "rs_lru (last_ref e s) = rs_lru s"
  "rs_capacity (last_ref e s) = rs_capacity s" "rs_entry_bytes (last_ref e s) = rs_entry_bytes s"
  "rs_pool (last_ref e s) = rs_pool s" "rs_shutdown (last_ref e s) = rs_shutdown s"
  by (simp_all add: last_ref_def snap_deleter_def)

lemma erase_entry_fields [simp]:
  "rs_entries (erase_entry k s) = AList.delete k (rs_entries s)" "rs_held (erase_entry k s) = rs_held s"
  "rs_lru (erase_entry k s) = rs_lru s" "rs_capacity (erase_entry k s) = rs_capacity s"
  "rs_entry_bytes (erase_entry k s) = rs_entry_bytes s" "rs_pool (erase_entry k s) = rs_pool s"
  "rs_shutdown (erase_entry k s) = rs_shutdown s"
  by (simp_all add: erase_entry_def alist_delete_None split: option.split)

lemma alist_delete_sub: "set (AList.delete k al) \<subseteq> set al"
  by (induction al) auto

lemma alist_delete_keys: "fst ` set (AList.delete k al) = fst ` set al - {k}"
  by (induction al) auto

lemma alive_delete:
  assumes "distinct (map fst (rs_entries s))" "map_of (rs_entries s) k = Some e"
  shows "alive s = insert e (alive (s\<lparr>rs_entries := AList.delete k (rs_entries s)\<rparr>))"
proof -
  have "set (rs_entries s) = insert (k, e) (set (AList.delete k (rs_entries s)))"
    using arg_cong [OF alist_delete_mset [OF assms], of set_mset]
    by (simp only: set_mset_mset set_mset_add_mset_insert)
  then have "snd ` set (rs_entries s) = insert e (snd ` set (AList.delete k (rs_entries s)))"
    by (simp only: image_insert snd_conv)
  note eq = this
  have u: "rs_entries (s\<lparr>rs_entries := al\<rparr>) = al" "rs_held (s\<lparr>rs_entries := al\<rparr>) = rs_held s" for al by simp_all
  show ?thesis unfolding alive_def u eq Un_insert_left ..
qed

lemma erase_entry_inv: "buf_inv A X s \<Longrightarrow> buf_inv A X (erase_entry k s)"
proof -
  assume b: "buf_inv A X s"
  show ?thesis
  proof (cases "map_of (rs_entries s) k")
    case None
    with b show ?thesis by (simp add: erase_entry_def)
  next
    case (Some e)
    have d: "distinct (map fst (rs_entries s))" using b by (simp add: buf_inv_def)
    let ?s = "s\<lparr>rs_entries := AList.delete k (rs_entries s)\<rparr>"
    have sub: "set (rs_entries ?s) \<subseteq> set (rs_entries s)" using alist_delete_sub by simp
    have "buf_inv A X (last_ref e ?s)"
      by (rule last_ref_inv [OF b alive_delete [OF d Some] _ _ _ sub]) (use d in simp_all)
    with Some show ?thesis by (simp add: erase_entry_def)
  qed
qed

lemma pop_free_inv:
  assumes "buf_inv A X s" "rs_free s \<noteq> []" "pop_free s = (b, s')"
  shows "buf_inv A (add_mset b X) s'"
proof -
  have "mset (rs_free s) = add_mset (last (rs_free s)) (mset (butlast (rs_free s)))"
    using arg_cong [OF append_butlast_last_id [OF assms(2)], of mset] by simp
  with assms(1,3) show ?thesis by (auto simp: pop_free_def buf_inv_def alive_def)
qed

lemma pop_free_fields:
  assumes "pop_free s = (b, s')"
  shows "rs_entries s' = rs_entries s" "rs_held s' = rs_held s" "rs_lru s' = rs_lru s" "rs_capacity s' = rs_capacity s"
    "rs_entry_bytes s' = rs_entry_bytes s" "lru_inv s' = lru_inv s" "rs_shutdown s' = rs_shutdown s"
proof -
  have s': "s' = s\<lparr>rs_free := butlast (rs_free s)\<rparr>" using assms by (simp add: pop_free_def)
  show "rs_entries s' = rs_entries s" "rs_held s' = rs_held s" "rs_lru s' = rs_lru s" "rs_capacity s' = rs_capacity s"
    "rs_entry_bytes s' = rs_entry_bytes s" "lru_inv s' = lru_inv s" "rs_shutdown s' = rs_shutdown s"
    by (simp_all add: s' lru_inv_def)
qed

lemma lru_inv_erase:
  assumes "lru_inv s" "rs_lru s = k # ks"
  shows "lru_inv (erase_entry k (s\<lparr>rs_lru := ks\<rparr>))"
  using assms by (auto simp: lru_inv_def alist_delete_keys)

lemma evict_entries_inv:
  "buf_inv A X s \<Longrightarrow> lru_inv s \<Longrightarrow> rs_lru s = vs \<Longrightarrow> evict_entries vs s = (r, s') \<Longrightarrow>
    buf_inv A (case r of None \<Rightarrow> X | Some b \<Rightarrow> add_mset b X) s' \<and> lru_inv s' \<and>
    set (map fst (rs_entries s')) \<subseteq> set (map fst (rs_entries s)) \<and> rs_held s' = rs_held s \<and>
    rs_capacity s' = rs_capacity s \<and> rs_entry_bytes s' = rs_entry_bytes s \<and> rs_shutdown s' = rs_shutdown s"
proof (induction vs arbitrary: s)
  case (Cons k ks)
  define s1 where "s1 = erase_entry k (s\<lparr>rs_lru := ks\<rparr>)"
  have i: "buf_inv A X s1" "lru_inv s1" "rs_lru s1 = ks"
    using erase_entry_inv Cons.prems(1) lru_inv_erase [OF Cons.prems(2,3)] by (simp_all add: s1_def)
  have f: "set (map fst (rs_entries s1)) \<subseteq> set (map fst (rs_entries s))" "rs_held s1 = rs_held s"
    "rs_capacity s1 = rs_capacity s" "rs_entry_bytes s1 = rs_entry_bytes s" "rs_shutdown s1 = rs_shutdown s"
    by (simp_all add: s1_def alist_delete_keys)
  show ?case
  proof (cases "rs_free s1 = []")
    case True
    then have "evict_entries ks s1 = (r, s')" using Cons.prems(4) by (simp add: s1_def Let_def)
    note h = Cons.IH [OF i this]
    then have "set (map fst (rs_entries s')) \<subseteq> set (map fst (rs_entries s))" using f(1) by (blast dest: subset_trans)
    with h f(2-5) show ?thesis by simp
  next
    case False
    obtain b s2 where p: "pop_free s1 = (b, s2)" by fastforce
    then have "r = Some b" "s' = s2" using Cons.prems(4) False by (simp_all add: s1_def Let_def)
    moreover have "lru_inv s2" "rs_entries s2 = rs_entries s1" "rs_held s2 = rs_held s1"
      "rs_capacity s2 = rs_capacity s1" "rs_entry_bytes s2 = rs_entry_bytes s1" "rs_shutdown s2 = rs_shutdown s1"
      using pop_free_fields [OF p] i(2) by simp_all
    ultimately show ?thesis using pop_free_inv [OF i(1) False p] f by simp
  qed
qed simp

lemma acquire_buffer_inv:
  assumes "buf_inv A X s" "lru_inv s" "acquire_buffer s = (r, s')"
  shows "buf_inv A (case r of None \<Rightarrow> X | Some b \<Rightarrow> add_mset b X) s' \<and> lru_inv s' \<and>
    set (map fst (rs_entries s')) \<subseteq> set (map fst (rs_entries s)) \<and> rs_held s' = rs_held s \<and>
    rs_capacity s' = rs_capacity s \<and> rs_entry_bytes s' = rs_entry_bytes s \<and> rs_shutdown s' = rs_shutdown s"
proof (cases "rs_free s = []")
  case True
  then have "evict_entries (rs_lru s) s = (r, s')" using assms(3) by (simp add: acquire_buffer_def)
  from evict_entries_inv [OF assms(1,2) refl this] show ?thesis .
next
  case False
  obtain b s2 where p: "pop_free s = (b, s2)" by fastforce
  then have "r = Some b" "s' = s2" using assms(3) False by (simp_all add: acquire_buffer_def)
  moreover have "lru_inv s2" "rs_entries s2 = rs_entries s" "rs_held s2 = rs_held s"
    "rs_capacity s2 = rs_capacity s" "rs_entry_bytes s2 = rs_entry_bytes s" "rs_shutdown s2 = rs_shutdown s"
    using pop_free_fields [OF p] assms(2) by simp_all
  ultimately show ?thesis using pop_free_inv [OF assms(1) False p] by simp
qed

lemma alive_update:
  assumes "map_of (rs_entries s) k = None"
  shows "alive (s\<lparr>rs_entries := AList.update k e (rs_entries s), rs_lru := l\<rparr>) = insert e (alive s)"
proof -
  have "AList.update k e al = al @ [(k, e)]" if "map_of al k = None" for al using that by (induction al) auto
  with assms show ?thesis by (auto simp: alive_def)
qed

lemma buf_inv_add:
  assumes "buf_inv A (add_mset (se_data e) X) s" "map_of (rs_entries s) (se_key e) = None" "\<And>x. count A x \<le> 1"
  shows "buf_inv A X (s\<lparr>rs_entries := AList.update (se_key e) e (rs_entries s), rs_lru := l\<rparr>)"
proof -
  let ?s = "s\<lparr>rs_entries := AList.update (se_key e) e (rs_entries s), rs_lru := l\<rparr>"
  have A: "mset (rs_free s) + image_mset se_data (mset_set (alive s)) + mset (rs_freed s) + add_mset (se_data e) X = A"
    using assms(1) by (simp add: buf_inv_def)
  have new: "se_data e \<notin> se_data ` alive s"
  proof
    assume "se_data e \<in> se_data ` alive s"
    then have "se_data e \<in># image_mset se_data (mset_set (alive s))" by simp
    then have "{#se_data e, se_data e#} \<subseteq># A"
      unfolding A [symmetric] by (auto simp: mset_subset_eq_add_mset_cancel dest!: multi_member_split)
    from mset_subset_eq_count [OF this, of "se_data e"] assms(3) [of "se_data e"] show False by simp
  qed
  then have "e \<notin> alive s" by blast
  then have "mset_set (alive ?s) = add_mset e (mset_set (alive s))" by (simp add: alive_update [OF assms(2)])
  moreover have "inj_on se_data (alive ?s)" 
    using assms(1) new by (auto simp: alive_update [OF assms(2)] buf_inv_def)
  moreover have "\<forall>x \<in> set (rs_entries ?s). se_key (snd x) = fst x"
  proof -
    have "AList.update k v al = al @ [(k, v)]" if "map_of al k = None" for k v and al :: "(hash \<times> snap_entry) list"
      using that by (induction al) auto
    with assms(1,2) show ?thesis by (auto simp: buf_inv_def)
  qed
  ultimately show ?thesis using assms(1) A by (simp add: buf_inv_def ac_simps)
qed

section \<open>Every operation keeps the invariant\<close>

text \<open>After the destructor nothing is free and the map is empty.\<close>

definition store_inv :: "nat multiset \<Rightarrow> snap_store \<Rightarrow> bool" where
  "store_inv A s \<longleftrightarrow> buf_inv A {#} s \<and> lru_inv s \<and> (rs_shutdown s \<longrightarrow> rs_free s = [] \<and> rs_entries s = [])"

lemma init_inv:
  assumes "rs_entries s = []" "rs_held s = {#}" "rs_lru s = []" "rs_freed s = []" "rs_free s = []" "\<not> rs_shutdown s"
  shows "store_inv (mset (rs_free (snap_init eb budget malloc s))) (snap_init eb budget malloc s)"
  using assms by (simp add: store_inv_def buf_inv_def lru_inv_def alive_def snap_init_def Let_def)

lemma find_inv:
  assumes "store_inv A s" "snap_find k s = (r, s')"
  shows "store_inv A s'"
proof (cases "map_of (rs_entries s) k")
  case (Some e)
  then have e: "e \<in> alive s" by (force simp: alive_def dest: map_of_SomeD)
  have k: "k \<in> set (rs_lru s)" using Some assms(1) by (force simp: store_inv_def lru_inv_def dest: map_of_SomeD)
  have s': "s' = s\<lparr>rs_lru := remove1 k (rs_lru s) @ [k], rs_held := add_mset e (rs_held s)\<rparr>"
    using assms(2) Some k by (simp add: snap_find_def)
  have "alive s' = insert e (alive s)" by (auto simp: s' alive_def)
  with e have "alive s' = alive s" by (simp add: insert_absorb)
  then have "buf_inv A {#} s'" using assms(1) by (simp add: s' store_inv_def buf_inv_def)
  moreover have "lru_inv s'" using assms(1) k by (simp add: s' store_inv_def lru_inv_def insert_absorb)
  ultimately show ?thesis using assms(1) by (simp add: s' store_inv_def)
qed (use assms in \<open>simp add: snap_find_def\<close>)

lemma last_ref_shutdown:
  "rs_shutdown s \<Longrightarrow> rs_free (last_ref e s) = rs_free s"
  by (simp add: last_ref_def snap_deleter_def)

lemma release_inv:
  assumes "store_inv A s"
  shows "store_inv A (snap_release e s)"
proof (cases "e \<in># rs_held s")
  case True
  let ?s = "s\<lparr>rs_held := rs_held s - {#e#}\<rparr>"
  have "alive s = insert e (alive ?s)"
  proof -
    have "set_mset (rs_held s) = insert e (set_mset (rs_held s - {#e#}))"
      using True by (metis insert_DiffM set_mset_add_mset_insert)
    moreover have "alive ?s = snd ` set (rs_entries s) \<union> set_mset (rs_held s - {#e#})" by (simp add: alive_def)
    ultimately show ?thesis by (simp only: alive_def Un_insert_right)
  qed
  from last_ref_inv [OF _ this, of A "{#}"] assms have "buf_inv A {#} (last_ref e ?s)"
    by (simp add: store_inv_def buf_inv_def)
  with assms True show ?thesis by (simp add: snap_release_def store_inv_def lru_inv_def last_ref_shutdown)
qed (use assms in \<open>simp add: snap_release_def\<close>)

lemma buf_inv_return: "buf_inv A (add_mset b X) s \<Longrightarrow> buf_inv A X (s\<lparr>rs_free := rs_free s @ [b]\<rparr>)"
  by (simp add: buf_inv_def alive_def ac_simps)

lemma save_inv:
  assumes "store_inv A s" "\<not> rs_shutdown s" "\<And>x. count A x \<le> 1" "snap_save k n src copied s m = (ok, s', m')"
  shows "store_inv A s'"
proof (cases "s' = s")
  case False
  obtain r s1 where a: "acquire_buffer s = (r, s1)" by fastforce
  have s: "buf_inv A {#} s" "lru_inv s" using assms(1) by (simp_all add: store_inv_def)
  note i = acquire_buffer_inv [OF s a]
  have nk: "map_of (rs_entries s) k = None" and src: "src \<noteq> None"
    using assms(4) False by (auto simp: snap_save_def snap_contains_def split: option.splits if_splits)
  have nk1: "map_of (rs_entries s1) k = None" using nk i by (auto simp: map_of_eq_None_iff)
  have sh: "\<not> rs_shutdown s1" using i assms(2) by simp
  let ?e = "\<lambda>b. \<lparr>se_key = k, se_n_tokens = n, se_data = b\<rparr>"
  consider "r = None" "s' = s1" | b where "r = Some b" "s' = s1\<lparr>rs_free := rs_free s1 @ [b]\<rparr>"
    | b where "r = Some b" "s' = s1\<lparr>rs_entries := AList.update k (?e b) (rs_entries s1), rs_lru := rs_lru s1 @ [k]\<rparr>"
    using assms(4) False src a by (auto simp: snap_save_def split: option.splits if_splits)
  then show ?thesis
  proof cases
    case 1
    with i sh show ?thesis by (simp add: store_inv_def)
  next
    case (2 b)
    with i have "buf_inv A {#} s'" by (simp add: buf_inv_return)
    with 2 i sh show ?thesis by (simp add: store_inv_def lru_inv_def)
  next
    case (3 b)
    have "buf_inv A {#} s'"
      using i buf_inv_add [of A "?e b" "{#}" s1] nk1 assms(3) by (simp add: 3)
    moreover have "k \<notin> fst ` set (rs_entries s1)" using nk1 by (simp add: map_of_eq_None_iff)
    then have "lru_inv s'"
      using i by (auto simp: 3 lru_inv_def update_keys [symmetric] dom_update simp flip: dom_map_of_conv_image_fst)
    ultimately show ?thesis using sh by (simp add: store_inv_def 3)
  qed
qed (use assms in simp)

lemma fold_erase_inv:
  "buf_inv A X s \<Longrightarrow> buf_inv A X (fold erase_entry ks s)"
  by (induction ks arbitrary: s) (simp_all add: erase_entry_inv)

lemma erase_entry_shutdown: "rs_shutdown s \<Longrightarrow> rs_free (erase_entry k s) = rs_free s"
  by (auto simp: erase_entry_def last_ref_shutdown split: option.split)

lemma fold_erase_fields:
  "fst ` set (rs_entries (fold erase_entry ks s)) = fst ` set (rs_entries s) - set ks"
  "rs_held (fold erase_entry ks s) = rs_held s" "rs_shutdown (fold erase_entry ks s) = rs_shutdown s"
  "rs_shutdown s \<Longrightarrow> rs_free (fold erase_entry ks s) = rs_free s"
proof (induction ks arbitrary: s)
  case (Cons k ks)
  { case 1 show ?case using Cons(1) by (simp add: alist_delete_keys Diff_insert2 [symmetric]) }
  { case 2 show ?case using Cons(2) by simp }
  { case 3 show ?case using Cons(3) by simp }
  { case 4 then show ?case using Cons(4) by (simp add: erase_entry_shutdown) }
qed simp_all

lemma clear_inv:
  assumes "buf_inv A {#} s" "rs_shutdown s \<Longrightarrow> rs_free s = []"
  shows "store_inv A (snap_clear s)"
proof -
  have "rs_entries (snap_clear s) = []"
    using fold_erase_fields(1) [of "map fst (rs_entries s)" s] by (simp add: snap_clear_def)
  moreover have "buf_inv A {#} (snap_clear s)" using fold_erase_inv [OF assms(1)] by (simp add: snap_clear_def)
  moreover have "lru_inv (snap_clear s)" using calculation(1) by (simp add: lru_inv_def) (simp add: snap_clear_def)
  moreover have "rs_shutdown (snap_clear s) = rs_shutdown s" by (simp add: snap_clear_def fold_erase_fields(3))
  moreover have "rs_free (snap_clear s) = []" if "rs_shutdown s"
    using fold_erase_fields(4) [OF that] assms(2) [OF that] by (simp add: snap_clear_def)
  ultimately show ?thesis by (simp add: store_inv_def)
qed

lemma destroy_inv:
  assumes "store_inv A s"
  shows "store_inv A (snap_destroy s)"
proof -
  let ?s = "if rs_pool s then s\<lparr>rs_shutdown := True, rs_freed := rs_freed s @ rs_free s, rs_free := []\<rparr> else s"
  have "buf_inv A {#} ?s" using assms by (simp add: store_inv_def buf_inv_def alive_def ac_simps)
  then show ?thesis unfolding snap_destroy_def by (rule clear_inv) (use assms in \<open>simp add: store_inv_def split: if_splits\<close>)
qed

section \<open>Histories\<close>

text \<open>Requests find and release entries, the engine saves and clears, the store is destroyed.\<close>

inductive snap_step :: "snap_store \<times> mem \<Rightarrow> snap_store \<times> mem \<Rightarrow> bool" where
  find: "\<not> rs_shutdown s \<Longrightarrow> snap_find k s = (r, s') \<Longrightarrow> snap_step (s, m) (s', m)"
| release: "snap_step (s, m) (snap_release e s, m)"
| save: "\<not> rs_shutdown s \<Longrightarrow> snap_save k n src copied s m = (ok, s', m') \<Longrightarrow> snap_step (s, m) (s', m')"
| clear: "\<not> rs_shutdown s \<Longrightarrow> snap_step (s, m) (snap_clear s, m)"
| destroy: "\<not> rs_shutdown s \<Longrightarrow> snap_step (s, m) (snap_destroy s, m)"

lemma snap_step_inv:
  assumes "snap_step x y" "store_inv A (fst x)" "\<And>b. count A b \<le> 1"
  shows "store_inv A (fst y)"
  using assms
proof (induction rule: snap_step.induct)
  case (clear s m)
  then have "buf_inv A {#} s" "rs_shutdown s \<Longrightarrow> rs_free s = []" by (simp_all add: store_inv_def)
  from clear_inv [OF this] show ?case by simp
next
  case (find s k r s' m)
  then show ?case using find_inv by simp
next
  case (save s k n src copied m ok s' m')
  then show ?case using save_inv by simp
qed (simp_all add: release_inv destroy_inv)

text \<open>What \<^verbatim>\<open>cudaMalloc\<close> guarantees of the buffers of one store: they do not overlap.\<close>

definition bufs_apart :: "nat \<Rightarrow> nat list \<Rightarrow> bool" where
  "bufs_apart n bs \<longleftrightarrow> distinct bs \<and> (\<forall>a \<in> set bs. \<forall>b \<in> set bs. a \<noteq> b \<longrightarrow> sep a n b n)"

definition snap_start :: "nat \<Rightarrow> nat \<Rightarrow> (nat \<Rightarrow> nat option) \<Rightarrow> snap_store" where
  "snap_start entry_bytes budget_bytes malloc = snap_init entry_bytes budget_bytes malloc snap_store_new"

definition snap_reach :: "snap_store \<Rightarrow> mem \<Rightarrow> snap_store \<Rightarrow> mem \<Rightarrow> bool" where
  "snap_reach s0 m0 s m \<longleftrightarrow> snap_step\<^sup>*\<^sup>* (s0, m0) (s, m)"

lemma count_distinct: "distinct bs \<Longrightarrow> count (mset bs) x \<le> 1"
  by (simp add: distinct_count_atmost_1)

lemma snap_step_bytes:
  assumes "snap_step x y"
  shows "rs_entry_bytes (fst y) = rs_entry_bytes (fst x)"
  using assms
proof (induction rule: snap_step.induct)
  case (save s k n src copied m ok s' m')
  have e: "rs_entry_bytes s1 = rs_entry_bytes s" if "acquire_buffer s = (r, s1)" for r s1
  proof -
    have "rs_entry_bytes (snd (evict_entries vs u)) = rs_entry_bytes u" for vs u
      by (induction vs arbitrary: u) (simp_all add: Let_def pop_free_def)
    from this [of "rs_lru s" s] that show ?thesis by (auto simp: acquire_buffer_def pop_free_def split: if_splits)
  qed
  from save(2) e show ?case
    by (auto simp: snap_save_def split: option.splits if_splits prod.splits)
next
  case (clear s m)
  have "rs_entry_bytes (fold erase_entry ks u) = rs_entry_bytes u" for ks u by (induction ks arbitrary: u) simp_all
  then show ?case by (simp add: snap_clear_def)
next
  case (destroy s m)
  have "rs_entry_bytes (fold erase_entry ks u) = rs_entry_bytes u" for ks u by (induction ks arbitrary: u) simp_all
  then show ?case by (simp add: snap_destroy_def snap_clear_def)
qed (auto simp: snap_find_def snap_release_def split: option.splits)

lemma snap_reach_inv:
  assumes "snap_reach (snap_start eb budget malloc) m0 s m" "distinct (rs_free (snap_start eb budget malloc))"
  shows "store_inv (mset (rs_free (snap_start eb budget malloc))) s" "rs_entry_bytes s = eb"
proof -
  let ?A = "mset (rs_free (snap_start eb budget malloc))"
  have "store_inv ?A s \<and> rs_entry_bytes s = eb" if "snap_step\<^sup>*\<^sup>* (snap_start eb budget malloc, m0) x" "s = fst x" for x
    using that(1) unfolding that(2)
  proof (induction rule: rtranclp_induct)
    case base
    have "store_inv ?A (snap_start eb budget malloc)"
      unfolding snap_start_def by (rule init_inv) (simp_all add: snap_store_new_def)
    then show ?case by (simp add: snap_start_def snap_init_def Let_def)
  next
    case (step y z)
    then show ?case using snap_step_inv [OF step(2)] snap_step_bytes [OF step(2)] count_distinct [OF assms(2)] by simp
  qed
  with assms(1) show "store_inv ?A s" "rs_entry_bytes s = eb" unfolding snap_reach_def by force+
qed

text \<open>A save writes only into a buffer that no entry had.\<close>

lemma save_writes:
  assumes "store_inv A s" "\<not> rs_shutdown s" "snap_save k n src copied s m = (ok, s', m')" "m' \<noteq> m"
  obtains p b where "m' = copy_range p b (rs_entry_bytes s) m" "b \<in># A" "\<And>e. e \<in># rs_held s \<Longrightarrow> count A b \<le> 1 \<Longrightarrow> b \<noteq> se_data e"
proof -
  obtain r s1 where a: "acquire_buffer s = (r, s1)" by fastforce
  have s: "buf_inv A {#} s" "lru_inv s" using assms(1) by (simp_all add: store_inv_def)
  note i = acquire_buffer_inv [OF s a]
  obtain p b where r: "r = Some b" "m' = copy_range p b (rs_entry_bytes s1) m"
    using assms(3,4) a by (auto simp: snap_save_def split: option.splits if_splits)
  have A: "mset (rs_free s1) + image_mset se_data (mset_set (alive s1)) + mset (rs_freed s1) + {#b#} = A"
    using i r(1) by (simp add: buf_inv_def)
  have "b \<noteq> se_data e" if e: "e \<in># rs_held s" "count A b \<le> 1" for e
  proof
    assume "b = se_data e"
    moreover have "e \<in> alive s1" using e(1) i by (simp add: alive_def)
    ultimately have "b \<in># image_mset se_data (mset_set (alive s1))" by simp
    then have "{#b, b#} \<subseteq># A" unfolding A [symmetric] by (auto dest!: multi_member_split)
    from mset_subset_eq_count [OF this, of b] e(2) show False by simp
  qed
  moreover have "b \<in># A" unfolding A [symmetric] by simp
  ultimately show thesis using r i by (intro that [of p b]) simp_all
qed

text \<open>
  C10. Snapshots a request holds are safe: in every history of finds, releases, saves, clears and
  the destruction of the store, no buffer has two owners, a held entry's buffer is neither free
  nor freed, and no step changes one of its bytes; every buffer is accounted for, and once the
  store is destroyed and nothing is held each of them has been freed exactly once.
\<close>

theorem snapshots_exclusive:
  assumes "snap_reach (snap_start eb budget malloc) m0 s m"
    and "bufs_apart eb (rs_free (snap_start eb budget malloc))" "snap_step (s, m) (s', m')"
  shows "(\<forall>e. e \<in># rs_held s \<longrightarrow> se_data e \<notin> set (rs_free s) \<and> se_data e \<notin> set (rs_freed s) \<and>
      (\<forall>e' \<in> alive s. se_data e' = se_data e \<longrightarrow> e' = e) \<and> (\<forall>i < eb. m' (se_data e + i) = m (se_data e + i))) \<and>
    mset (rs_free s) + image_mset se_data (mset_set (alive s)) + mset (rs_freed s) =
      mset (rs_free (snap_start eb budget malloc)) \<and>
    (rs_shutdown s \<and> rs_held s = {#} \<longrightarrow> mset (rs_freed s) = mset (rs_free (snap_start eb budget malloc)))"
proof -
  let ?B = "rs_free (snap_start eb budget malloc)"
  have d: "distinct ?B" using assms(2) by (simp add: bufs_apart_def)
  note inv = snap_reach_inv [OF assms(1) d] and cnt = count_distinct [OF d]
  have A: "mset (rs_free s) + image_mset se_data (mset_set (alive s)) + mset (rs_freed s) = mset ?B"
    and inj: "inj_on se_data (alive s)" using inv(1) by (simp_all add: store_inv_def buf_inv_def)
  have al: "e \<in> alive s" "se_data e \<in># image_mset se_data (mset_set (alive s))" if "e \<in># rs_held s" for e
    using that by (auto simp: alive_def)
  have own: "se_data e \<notin> set (rs_free s)" "se_data e \<notin> set (rs_freed s)" if "e \<in># rs_held s" for e
  proof -
    have "count (mset (rs_free s)) (se_data e) + count (image_mset se_data (mset_set (alive s))) (se_data e) +
        count (mset (rs_freed s)) (se_data e) \<le> 1"
      using cnt [of "se_data e"] unfolding A [symmetric] by simp
    moreover have "0 < count (image_mset se_data (mset_set (alive s))) (se_data e)" using al(2) [OF that] by simp
    ultimately have "count (mset (rs_free s)) (se_data e) = 0" "count (mset (rs_freed s)) (se_data e) = 0" by linarith+
    then show "se_data e \<notin> set (rs_free s)" "se_data e \<notin> set (rs_freed s)" by (simp_all add: count_eq_zero_iff)
  qed
  have bytes: "m' (se_data e + i) = m (se_data e + i)" if e: "e \<in># rs_held s" "i < eb" for e i
  proof (cases "m' = m")
    case False
    from assms(3) False obtain k n src copied ok where
      sv: "\<not> rs_shutdown s" "snap_save k n src copied s m = (ok, s', m')" by (cases rule: snap_step.cases) auto
    obtain p b where w: "m' = copy_range p b eb m" "b \<in># mset ?B" "b \<noteq> se_data e"
      using save_writes [OF inv(1) sv False] inv(2) e(1) cnt by metis
    have "se_data e \<in># mset ?B" using al(2) [OF e(1)] unfolding A [symmetric] by simp
    then have "sep (se_data e) eb b eb" using assms(2) w(2,3) by (auto simp: bufs_apart_def)
    with e(2) show ?thesis by (auto simp: w(1) copy_range_def sep_def)
  qed simp
  have "mset (rs_freed s) = mset ?B" if "rs_shutdown s" "rs_held s = {#}"
    using A inv(1) that by (simp add: store_inv_def alive_def)
  with A own al(1) bytes inj show ?thesis unfolding inj_on_def by blast
qed

definition example_store :: snap_store where
  "example_store = snap_start 16 32 (\<lambda>i. Some (1000 + 100 * i))"

lemma example_store_eq: "example_store = snap_store_new\<lparr>rs_entry_bytes := 16, rs_free := [1000, 1100], rs_capacity := 2,
  rs_pool := True\<rparr>"
proof -
  have b: "take_bufs 2 0 (\<lambda>i. Some (1000 + 100 * i)) = [1000, 1100]" by (simp add: numeral_2_eq_2)
  show ?thesis unfolding example_store_def snap_start_def snap_init_def Let_def by (simp add: b)
qed

theorem snapshots_exclusive_witness:
  "let (ok, s1, m1) = snap_save 5 32 (Some 0) True example_store of_nat;
       (r, s2) = snap_find 5 s1;
       (ok', s3, m3) = snap_save 6 64 (Some 50) True s2 m1
   in ok \<and> ok' \<and> (\<exists>e. r = Some e \<and> e \<in># rs_held s2 \<and> m3 (se_data e + 3) = m1 (se_data e + 3))"
proof -
  let ?e = "\<lparr>se_key = 5, se_n_tokens = 32, se_data = 1100\<rparr>"
  define s1 where "s1 = example_store\<lparr>rs_free := [1000], rs_entries := [(5, ?e)], rs_lru := [5]\<rparr>"
  define m1 where "m1 = copy_range 0 1100 16 (of_nat :: nat \<Rightarrow> u8)"
  define s2 where "s2 = s1\<lparr>rs_held := {#?e#}\<rparr>"
  have sv: "snap_save 5 32 (Some 0) True example_store of_nat = (True, s1, m1)"
    by (simp add: snap_save_def snap_enabled_def snap_contains_def acquire_buffer_def pop_free_def example_store_eq
        snap_store_new_def s1_def m1_def)
  have fd: "snap_find 5 s1 = (Some ?e, s2)"
    by (simp add: snap_find_def s1_def s2_def example_store_eq snap_store_new_def)
  obtain ok s3 m3 where sv2: "snap_save 6 64 (Some 50) True s2 m1 = (ok, s3, m3)" by (rule prod_cases3)
  then have ok: ok
    by (auto simp: snap_save_def snap_enabled_def snap_contains_def acquire_buffer_def pop_free_def s1_def s2_def
        example_store_eq snap_store_new_def)
  have sh: "\<not> rs_shutdown example_store" "\<not> rs_shutdown s1" "\<not> rs_shutdown s2"
    by (simp_all add: s1_def s2_def example_store_eq snap_store_new_def)
  have "snap_step\<^sup>*\<^sup>* (example_store, of_nat) (s2, m1)"
    using snap_step.save [OF sh(1) sv] snap_step.find [OF sh(2) fd] 
    by (blast intro: rtranclp.rtrancl_into_rtrancl rtranclp.rtrancl_refl)
  then have re: "snap_reach example_store of_nat s2 m1" by (simp add: snap_reach_def)
  have ap: "bufs_apart 16 (rs_free example_store)" by (auto simp: bufs_apart_def example_store_eq sep_def)
  note ex = snapshots_exclusive [OF re [unfolded example_store_def] ap [unfolded example_store_def]
      snap_step.save [OF sh(3) sv2]]
  have "?e \<in># rs_held s2" by (simp add: s2_def)
  with ex have "\<forall>i < 16. m3 (se_data ?e + i) = m1 (se_data ?e + i)" by blast
  from this [rule_format, of 3] have "m3 (1100 + 3) = m1 (1100 + 3)" by simp
  with \<open>?e \<in># rs_held s2\<close> ok show ?thesis unfolding sv fd sv2 Let_def prod.case by simp
qed

end
