(* ===== verification/Scheduler.thy ===== *)
theory Scheduler
  imports KV_Props Snapshot_Store "HOL-Library.Sublist"
begin

text \<open>
  The continuous-batching scheduler (\<^verbatim>\<open>src/src/runtime/scheduler.h\<close>, \<^verbatim>\<open>scheduler.cpp\<close>) over the
  block manager, and the two admission hooks of the engine. A \<^verbatim>\<open>shared_ptr<Request>\<close> is an
  address of the request heap, since the engine and the batches share the objects; a request has
  the fields the scheduler and the hooks read or write. The state has the snapshot store the
  requests' snapshots come from: the engine has at most one that is live, the recurrent or the
  windowed one, so the field of the other kind is null in every request. The admission hook and
  the sort, whose order among equal lengths is unspecified, are arguments.
\<close>

section \<open>State\<close>

datatype request_status = PENDING | PREFILLING | DECODING | FINISHED | CANCELLED

datatype cancel_reason = NoReason | KvCapacity

fun request_status_name :: "request_status \<Rightarrow> string" where
  "request_status_name PENDING = ''PENDING''" | "request_status_name PREFILLING = ''PREFILLING''"
| "request_status_name DECODING = ''DECODING''" | "request_status_name FINISHED = ''FINISHED''"
| "request_status_name CANCELLED = ''CANCELLED''"

record request =
  rq_id :: int
  rq_status :: request_status
  rq_input_tokens :: "token list"
  rq_output_tokens :: "token list"
  rq_prefill_offset :: int
  rq_cached_tokens :: int
  rq_image :: bool
  rq_qwen_patches :: nat
  rq_vision_emb :: bool
  rq_n_vision_tokens :: int
  rq_vision_content_hash :: hash
  rq_recurrent_restore :: "snap_entry option"
  rq_swa_restore :: "snap_entry option"
  rq_cancel_reason :: cancel_reason

definition context_len :: "request \<Rightarrow> int" where
  "context_len q = int (length (rq_input_tokens q) + length (rq_output_tokens q))"

type_synonym req_heap = "nat \<Rightarrow> request"

record sched =
  sc_max_batch_size :: int
  sc_pending_dirty :: bool
  sc_pending :: "nat list"
  sc_active :: "nat list"
  sc_heap :: req_heap
  sc_kv :: "kv_mgr option"
  sc_store :: snap_store

type_synonym reuse_limit = "snap_store \<Rightarrow> kv_mgr \<Rightarrow> request \<Rightarrow> int \<times> request \<times> snap_store"

definition sched_new :: "int \<Rightarrow> req_heap \<Rightarrow> kv_mgr option \<Rightarrow> snap_store \<Rightarrow> sched" where
  "sched_new max_batch_size h kv st =
     \<lparr>sc_max_batch_size = max_batch_size, sc_pending_dirty = False, sc_pending = [], sc_active = [],
      sc_heap = h, sc_kv = kv, sc_store = st\<rparr>"

definition add_request :: "nat \<Rightarrow> sched \<Rightarrow> sched" where
  "add_request r s = s\<lparr>sc_pending := sc_pending s @ [r], sc_pending_dirty := True\<rparr>"

definition has_pending :: "sched \<Rightarrow> bool" where
  "has_pending s \<longleftrightarrow> sc_pending s \<noteq> []"

definition active_count :: "sched \<Rightarrow> int" where
  "active_count s = int (length (sc_active s))"

definition total_cache_blocks :: "kv_cache \<Rightarrow> int" where
  "total_cache_blocks c = int (kc_max_blocks c)"

section \<open>Admission\<close>

text \<open>Resetting the pointer of a request to its snapshot.\<close>

definition drop_snapshot :: "snap_entry option \<Rightarrow> snap_store \<Rightarrow> snap_store" where
  "drop_snapshot e st = (case e of None \<Rightarrow> st | Some x \<Rightarrow> snap_release x st)"

definition cacheable :: "request \<Rightarrow> bool" where
  "cacheable q \<longleftrightarrow>
     (let has_image = (rq_image q \<or> 0 < rq_qwen_patches q \<or> rq_vision_emb q \<or> 0 < rq_n_vision_tokens q)
      in \<not> has_image \<or> rq_vision_content_hash q \<noteq> 0)"

text \<open>How many tokens of the prompt the reused blocks let the prefill skip.\<close>

definition skip_tokens :: "int \<Rightarrow> int \<Rightarrow> int \<Rightarrow> int" where
  "skip_tokens reused bs n =
     (let skip = reused * bs;
          skip1 = (if n \<le> skip then (n div bs) * bs else skip)
      in if n \<le> skip1 then n - 1 else skip1)"

definition apply_reuse :: "int \<Rightarrow> int \<Rightarrow> request \<Rightarrow> request" where
  "apply_reuse reused bs q =
     (if 0 < reused
      then let skip = skip_tokens reused bs (int (length (rq_input_tokens q)))
           in q\<lparr>rq_prefill_offset := skip, rq_cached_tokens := skip\<rparr>
      else q)"

text \<open>The three ends of the loop body: promoted, left in the queue, removed.\<close>

datatype admission = Promoted | Deferred | Rejected

definition put_request :: "nat \<Rightarrow> request \<Rightarrow> sched \<Rightarrow> sched" where
  "put_request r q s = s\<lparr>sc_heap := (sc_heap s)(r := q)\<rparr>"

definition reserve_blocks ::
  "reuse_limit option \<Rightarrow> nat \<Rightarrow> int \<Rightarrow> kv_mgr \<Rightarrow> sched \<Rightarrow> admission \<times> sched" where
  "reserve_blocks limit r blocks_needed k s =
     (let q = sc_heap s r; bs = kv_block_size k in
      if prefix_caching_enabled k \<and> cacheable q then
        (case (case limit of None \<Rightarrow> (-1, q, sc_store s) | Some f \<Rightarrow> f (sc_store s) k q) of (max_reuse, q1, st1) \<Rightarrow>
         case allocate_blocks_with_prefix (rq_id q1) (rq_input_tokens q1) max_reuse (rq_vision_content_hash q1) k of
           (reused, k1) \<Rightarrow>
             let s1 = put_request r q1 (s\<lparr>sc_store := st1, sc_kv := Some k1\<rparr>) in
             if reused < 0 then (Deferred, s1)
             else if 0 \<le> max_reuse \<and> reused \<noteq> max_reuse then
               (case allocate_blocks (rq_id q1) blocks_needed (free_sequence (rq_id q1) k1) of (ok, k2) \<Rightarrow>
                  let s2 = put_request r (q1\<lparr>rq_recurrent_restore := None\<rparr>)
                             (s1\<lparr>sc_kv := Some k2, sc_store := drop_snapshot (rq_recurrent_restore q1) st1\<rparr>)
                  in (if ok then Promoted else Deferred, s2))
             else (Promoted, put_request r (apply_reuse reused bs q1) s1))
      else
        (case allocate_blocks (rq_id q) blocks_needed k of (ok, k1) \<Rightarrow>
           (if ok then Promoted else Deferred, s\<lparr>sc_kv := Some k1\<rparr>)))"

definition try_admit :: "reuse_limit option \<Rightarrow> kv_cache \<Rightarrow> nat \<Rightarrow> sched \<Rightarrow> admission \<times> sched" where
  "try_admit limit c r s =
     (case sc_kv s of
        None \<Rightarrow> (Promoted, s)
      | Some k \<Rightarrow>
          let q = sc_heap s r;
              blocks_needed = blocks_for (context_len q) (kv_block_size k) in
          if \<not> can_allocate blocks_needed k then
            (if total_cache_blocks c < blocks_needed
             then (Rejected, put_request r (q\<lparr>rq_status := CANCELLED, rq_cancel_reason := KvCapacity\<rparr>) s)
             else (Deferred, s))
          else reserve_blocks limit r blocks_needed k s)"

text \<open>The promotion loop: the queue that is left, the prefill batch and the state.\<close>

fun promote ::
  "reuse_limit option \<Rightarrow> kv_cache \<Rightarrow> nat list \<Rightarrow> sched \<Rightarrow> nat list \<times> nat list \<times> sched" where
  "promote limit c [] s = ([], [], s)"
| "promote limit c (r # rs) s =
     (if sc_max_batch_size s \<le> int (length (sc_active s)) then (r # rs, [], s)
      else case try_admit limit c r s of
        (Rejected, s1) \<Rightarrow> promote limit c rs s1
      | (Deferred, s1) \<Rightarrow> (case promote limit c rs s1 of (lft, batch, s2) \<Rightarrow> (r # lft, batch, s2))
      | (Promoted, s1) \<Rightarrow>
          (case promote limit c rs
                  (put_request r ((sc_heap s1 r)\<lparr>rq_status := PREFILLING\<rparr>) (s1\<lparr>sc_active := sc_active s1 @ [r]\<rparr>)) of
             (lft, batch, s2) \<Rightarrow> (lft, r # batch, s2)))"

section \<open>The schedule step\<close>

definition done_request :: "request \<Rightarrow> bool" where
  "done_request q \<longleftrightarrow> rq_status q = FINISHED \<or> rq_status q = CANCELLED"

definition mid_prefill :: "request \<Rightarrow> bool" where
  "mid_prefill q \<longleftrightarrow> rq_status q = PREFILLING \<and> 0 < rq_prefill_offset q \<and>
     rq_prefill_offset q < int (length (rq_input_tokens q))"

definition requeue_chunks :: "req_heap \<Rightarrow> nat list \<Rightarrow> nat list \<Rightarrow> nat list" where
  "requeue_chunks h active batch =
     fold (\<lambda>r b. if mid_prefill (h r) \<and> r \<notin> set b then b @ [r] else b) active batch"

definition schedule ::
  "(req_heap \<Rightarrow> nat list \<Rightarrow> nat list) \<Rightarrow> reuse_limit option \<Rightarrow> kv_cache \<Rightarrow> sched \<Rightarrow>
   nat list \<times> nat list \<times> sched" where
  "schedule srt limit c s =
     (let s1 = s\<lparr>sc_active := filter (\<lambda>r. \<not> done_request (sc_heap s r)) (sc_active s)\<rparr>;
          s2 = (if sc_pending_dirty s1
                then s1\<lparr>sc_pending := srt (sc_heap s1) (sc_pending s1), sc_pending_dirty := False\<rparr> else s1) in
      case promote limit c (sc_pending s2) s2 of (lft, batch, s3) \<Rightarrow>
        let s4 = s3\<lparr>sc_pending := lft\<rparr>; h = sc_heap s4
        in (requeue_chunks h (sc_active s4) batch,
            filter (\<lambda>r. rq_status (h r) = DECODING) (sc_active s4), s4))"

section \<open>The hooks of the engine\<close>

text \<open>
  \<^verbatim>\<open>hybrid_prefix_reuse_limit_\<close> and \<^verbatim>\<open>swa_prefix_reuse_limit_\<close>: the old snapshot of the request is
  released, and nothing is reused without a store (for the first, without recurrent state), without
  chunked prefill or with an image. The flags are \<^verbatim>\<open>ssm_state_\<close>, \<^verbatim>\<open>supports_chunked_prefill_()\<close> and
  \<^verbatim>\<open>vision_.has_input()\<close>.
\<close>

definition hybrid_prefix_reuse_limit :: "bool \<Rightarrow> bool \<Rightarrow> bool \<Rightarrow> reuse_limit" where
  "hybrid_prefix_reuse_limit ssm chunked vision_input st k q =
     (let st1 = drop_snapshot (rq_recurrent_restore q) st;
          usable = (snap_enabled st1 \<and> ssm \<and> chunked \<and> \<not> (rq_vision_emb q \<or> rq_image q \<or> vision_input))
      in case prefix_reuse_limit usable (rq_input_tokens q) k st1 of
        ((b, e), st2) \<Rightarrow> (b, q\<lparr>rq_recurrent_restore := e\<rparr>, st2))"

definition swa_prefix_reuse_limit :: "bool \<Rightarrow> bool \<Rightarrow> reuse_limit" where
  "swa_prefix_reuse_limit chunked vision_input st k q =
     (let st1 = drop_snapshot (rq_swa_restore q) st;
          usable = (snap_enabled st1 \<and> chunked \<and> \<not> (rq_vision_emb q \<or> rq_image q \<or> vision_input))
      in case prefix_reuse_limit usable (rq_input_tokens q) k st1 of
        ((b, e), st2) \<Rightarrow> (b, q\<lparr>rq_swa_restore := e\<rparr>, st2))"

section \<open>Skipped tokens\<close>

lemma reuse_full:
  assumes "0 < n"
  shows "n * (b + length (live_hits k b n toks mr ids parent)) \<le> max (n * b) (length toks)"
proof (induction k arbitrary: b parent)
  case (Suc k)
  show ?case
  proof (cases "length (block_tokens n toks b) = n")
    case True
    then have "n \<le> length toks - n * b" by (auto simp: block_tokens_def mult.commute)
    then have "n * Suc b \<le> length toks" using assms by simp
    then show ?thesis using Suc [of "Suc b"] by (auto simp: Let_def split: option.split)
  qed simp
qed simp

lemma reuse_ids_full:
  assumes "0 < kv_block_size k"
  shows "int (length (reuse_ids toks mr salt k)) * kv_block_size k \<le> int (length toks)"
proof -
  let ?n = "nat (kv_block_size k)"
  have "?n * length (reuse_ids toks mr salt k) \<le> length toks"
    using reuse_full [of ?n 0 _ toks mr] assms by (auto simp: reuse_ids_def)
  then have "int ?n * int (length (reuse_ids toks mr salt k)) \<le> int (length toks)"
    by (metis of_nat_le_iff of_nat_mult)
  with assms show ?thesis by (simp add: mult.commute)
qed

lemma skip_tokens_full:
  assumes "0 < bs" "0 < r" "r * bs \<le> n"
  shows "skip_tokens r bs n = (if r * bs = n then n - 1 else r * bs)"
proof (cases "r * bs = n")
  case True
  then have "n div bs = r" using assms(1) by auto
  with True show ?thesis by (simp add: skip_tokens_def)
next
  case False
  with assms(3) show ?thesis by (simp add: skip_tokens_def)
qed

section \<open>One admission\<close>

text \<open>What the scheduler relies on of the hook: of the request it changes only the snapshots.\<close>

definition hook_ok :: "reuse_limit option \<Rightarrow> bool" where
  "hook_ok limit \<longleftrightarrow> (\<forall>f st k q n q1 st1. limit = Some f \<longrightarrow> f st k q = (n, q1, st1) \<longrightarrow>
     (\<exists>a b. q1 = q\<lparr>rq_recurrent_restore := a, rq_swa_restore := b\<rparr>))"

text \<open>A request up to its snapshots.\<close>

definition bare :: "request \<Rightarrow> request" where
  "bare q = q\<lparr>rq_recurrent_restore := None, rq_swa_restore := None\<rparr>"

text \<open>
  The table of an admitted request: the blocks reused from the cache, then blocks no other
  sequence has; the prefill starts behind the reused blocks, or at the last token when they hold
  the whole prompt.
\<close>

definition admitted :: "kv_mgr \<Rightarrow> kv_mgr \<Rightarrow> request \<Rightarrow> request \<Rightarrow> bool" where
  "admitted k k' q q' \<longleftrightarrow>
     (\<exists>hits fresh. table_of (rq_id q) k' = hits @ fresh \<and> unused (tables k) fresh \<and>
        blocks_for (int (length (rq_input_tokens q))) (kv_block_size k) \<le> int (length (hits @ fresh)) \<and>
        (if hits = [] then bare q' = bare q
         else \<exists>off mr. hits = reuse_ids (rq_input_tokens q) mr (rq_vision_content_hash q) k \<and>
           bare q' = (bare q)\<lparr>rq_prefill_offset := off, rq_cached_tokens := off\<rparr> \<and>
           0 \<le> off \<and> off < int (length (rq_input_tokens q)) \<and>
           (off = int (length hits) * kv_block_size k \<or>
            off = int (length (rq_input_tokens q)) - 1 \<and>
            int (length (rq_input_tokens q)) = int (length hits) * kv_block_size k)))"

definition admit_outcome :: "kv_cache \<Rightarrow> admission \<Rightarrow> kv_mgr \<Rightarrow> kv_mgr \<Rightarrow> request \<Rightarrow> request \<Rightarrow> bool" where
  "admit_outcome c a k k' q q' \<longleftrightarrow> (\<forall>i. i \<noteq> rq_id q \<longrightarrow> table_of i k' = table_of i k) \<and>
     (case a of
        Promoted \<Rightarrow> admitted k k' q q'
      | Deferred \<Rightarrow> table_of (rq_id q) k' = [] \<and> bare q' = bare q
      | Rejected \<Rightarrow> k' = k \<and> q' = q\<lparr>rq_status := CANCELLED, rq_cancel_reason := KvCapacity\<rparr> \<and>
          int (kc_max_blocks c) < blocks_for (context_len q) (kv_block_size k))"

lemma context_blocks:
  assumes "0 < bs"
  shows "blocks_for (int (length (rq_input_tokens q))) bs \<le> blocks_for (context_len q) bs"
  using assms by (simp add: blocks_for_def context_len_def zdiv_mono1)

text \<open>Plain allocation for a sequence without a table.\<close>

lemma allocate_new:
  assumes inv: "kv_inv k1" and T: "tables k1 = (tables k)(i := [])" and bs: "kv_block_size k1 = kv_block_size k"
    and al: "allocate_blocks i n k1 = (ok, k')" and i: "i = rq_id q" "table_of i k = []"
    and n: "blocks_for (int (length (rq_input_tokens q))) (kv_block_size k) \<le> n" and q': "bare q' = bare q"
  shows "admit_outcome c (if ok then Promoted else Deferred) k k' q q'"
proof -
  note o = allocate_blocks_outcome [OF inv al]
  have T': "tables k1 = tables k" using T i(2) by (auto simp: tables_def)
  then have t: "table_of j k1 = table_of j k" for j by (metis tables_def)
  show ?thesis
  proof (cases ok)
    case True
    with o obtain rs where rs: "table_of i k' = rs" "length rs = nat n" "distinct rs"
      "\<forall>r \<in> set rs. 0 \<le> r \<and> r \<notin># table_refs (seq_blocks k1)" using i(2) t by auto
    have "unused (tables k) rs" using unused_tables [OF inv rs(3,4)] T' by simp
    with rs(1,2) n q' have "admitted k k' q q'"
      unfolding admitted_def i(1) [symmetric] by (intro exI [of _ "[]"] exI [of _ rs]) simp
    with o True i(1) t show ?thesis by (simp add: admit_outcome_def)
  next
    case False
    with o q' i t show ?thesis by (simp add: admit_outcome_def)
  qed
qed

text \<open>Allocation with reuse for a sequence without a table.\<close>

lemma bare_reuse:
  "bare (apply_reuse r bs q) =
     (if 0 < r then let off = skip_tokens r bs (int (length (rq_input_tokens q)))
        in (bare q)\<lparr>rq_prefill_offset := off, rq_cached_tokens := off\<rparr> else bare q)"
  by (simp add: apply_reuse_def bare_def Let_def)

lemma prefix_new:
  assumes inv: "kv_inv k" and new: "table_of (rq_id q) k = []"
    and al: "allocate_blocks_with_prefix (rq_id q) (rq_input_tokens q) mr (rq_vision_content_hash q) k = (r, k')"
    and q1: "bare q1 = bare q"
  shows "if r < 0 then admit_outcome c Deferred k k' q q1
    else admit_outcome c Promoted k k' q (apply_reuse r (kv_block_size k) q1)"
proof (cases "rq_input_tokens q = []")
  case True
  then have "r = 0" "k' = k" using al by (simp_all add: allocate_blocks_with_prefix_def)
  moreover have "blocks_for 0 (kv_block_size k) \<le> 0" using inv by (simp add: kv_inv_def blocks_for_def)
  ultimately show ?thesis using new q1 True
    by (auto simp: admit_outcome_def admitted_def apply_reuse_def unused_def)
next
  case False
  let ?t = "rq_input_tokens q" and ?bs = "kv_block_size k"
  note o = allocate_with_prefix_outcome [OF inv new False al]
  have bs: "0 < ?bs" using inv by (simp add: kv_inv_def)
  have in1: "rq_input_tokens q1 = ?t" using arg_cong [OF q1, of rq_input_tokens] by (simp add: bare_def)
  show ?thesis
  proof (cases "r < 0")
    case True
    with o q1 show ?thesis by (simp add: admit_outcome_def)
  next
    case nn: False
    define hits where "hits = reuse_ids ?t mr (rq_vision_content_hash q) k"
    from o nn obtain fresh where r: "r = int (length hits)" and f: "table_of (rq_id q) k' = hits @ fresh"
      "int (length (hits @ fresh)) = blocks_for (int (length ?t)) ?bs" "distinct fresh"
      "\<forall>c \<in> set fresh. 0 \<le> c \<and> c \<notin># table_refs (seq_blocks k)" by (auto simp: hits_def)
    have u: "unused (tables k) fresh" by (rule unused_tables [OF inv f(3,4)])
    have le: "r * ?bs \<le> int (length ?t)" unfolding r hits_def by (rule reuse_ids_full [OF bs])
    define off where "off = skip_tokens r ?bs (int (length ?t))"
    have off: "off = (if r * ?bs = int (length ?t) then int (length ?t) - 1 else r * ?bs)" if "hits \<noteq> []"
      unfolding off_def using skip_tokens_full [OF bs _ le] that r by simp
    have "0 \<le> off \<and> off < int (length ?t)" if "hits \<noteq> []"
      using off [OF that] le bs r False by (auto simp: Suc_le_eq)
    then have h: "\<exists>off mr. hits = reuse_ids ?t mr (rq_vision_content_hash q) k \<and>
        bare (apply_reuse r ?bs q1) = (bare q)\<lparr>rq_prefill_offset := off, rq_cached_tokens := off\<rparr> \<and>
        0 \<le> off \<and> off < int (length ?t) \<and>
        (off = int (length hits) * ?bs \<or> off = int (length ?t) - 1 \<and> int (length ?t) = int (length hits) * ?bs)"
      if ne: "hits \<noteq> []"
    proof -
      have "0 < r" using ne r by simp
      then have "bare (apply_reuse r ?bs q1) = (bare q)\<lparr>rq_prefill_offset := off, rq_cached_tokens := off\<rparr>"
        unfolding bare_reuse q1 in1 off_def Let_def by simp
      moreover have "off = r * ?bs \<or> off = int (length ?t) - 1 \<and> int (length ?t) = r * ?bs" using off [OF ne] by auto
      ultimately show ?thesis using \<open>hits \<noteq> [] \<Longrightarrow> 0 \<le> off \<and> off < int (length ?t)\<close> ne hits_def r by blast
    qed
    have "bare (apply_reuse r ?bs q1) = bare q" if "hits = []" using that r q1 by (simp add: bare_reuse)
    with f(1,2) u h have "admitted k k' q (apply_reuse r ?bs q1)"
      unfolding admitted_def by (intro exI [of _ hits] exI [of _ fresh]) simp
    with o nn show ?thesis by (simp add: admit_outcome_def)
  qed
qed

lemma kv_reach_prefix:
  "kv_reach alloc c k \<Longrightarrow> allocate_blocks_with_prefix i toks mr salt k = (r, k') \<Longrightarrow> kv_reach alloc c k'"
  by (blast intro: kv_reach_step kv_step.prefix)

lemma kv_reach_alloc: "kv_reach alloc c k \<Longrightarrow> allocate_blocks i n k = (ok, k') \<Longrightarrow> kv_reach alloc c k'"
  by (blast intro: kv_reach_step kv_step.allocate)

lemma kv_reach_free: "kv_reach alloc c k \<Longrightarrow> kv_reach alloc c (free_sequence i k)"
  by (blast intro: kv_reach_step kv_step.free)

text \<open>The manager, the store and the request are all an admission changes of the scheduler.\<close>

definition admit_frame :: "nat \<Rightarrow> kv_mgr \<Rightarrow> request \<Rightarrow> snap_store \<Rightarrow> sched \<Rightarrow> sched" where
  "admit_frame r k q st s = s\<lparr>sc_heap := (sc_heap s)(r := q), sc_kv := Some k, sc_store := st\<rparr>"

text \<open>The three fates of a pending request over a schedule step.\<close>

definition waits :: "kv_mgr \<Rightarrow> request \<Rightarrow> request \<Rightarrow> bool" where
  "waits k' q q' \<longleftrightarrow> bare q' = bare q \<and> table_of (rq_id q) k' = []"

definition starts :: "kv_cache \<Rightarrow> kv_mgr \<Rightarrow> request \<Rightarrow> request \<Rightarrow> bool" where
  "starts c k' q q' \<longleftrightarrow>
     (\<exists>off cached. bare q' = (bare q)\<lparr>rq_status := PREFILLING, rq_prefill_offset := off, rq_cached_tokens := cached\<rparr> \<and>
        (off = rq_prefill_offset q \<and> cached = rq_cached_tokens q \<or>
         cached = off \<and> 0 \<le> off \<and> off < int (length (rq_input_tokens q)))) \<and>
     blocks_for (int (length (rq_input_tokens q))) (int (kc_block_size c)) \<le> int (length (table_of (rq_id q) k'))"

definition refused :: "kv_cache \<Rightarrow> request \<Rightarrow> request \<Rightarrow> bool" where
  "refused c q q' \<longleftrightarrow> q' = q\<lparr>rq_status := CANCELLED, rq_cancel_reason := KvCapacity\<rparr> \<and>
     int (kc_max_blocks c) < blocks_for (context_len q) (int (kc_block_size c))"

lemma admitted_starts:
  assumes "admitted k k' q q'" "kv_block_size k = int (kc_block_size c)"
  shows "starts c k' q (q'\<lparr>rq_status := PREFILLING\<rparr>)"
proof -
  have st: "bare (q'\<lparr>rq_status := PREFILLING\<rparr>) = (bare q')\<lparr>rq_status := PREFILLING\<rparr>" by (simp add: bare_def)
  obtain hits fresh where h: "table_of (rq_id q) k' = hits @ fresh"
    "blocks_for (int (length (rq_input_tokens q))) (kv_block_size k) \<le> int (length (hits @ fresh))"
    "bare q' = bare q \<or> (\<exists>off. bare q' = (bare q)\<lparr>rq_prefill_offset := off, rq_cached_tokens := off\<rparr> \<and>
       0 \<le> off \<and> off < int (length (rq_input_tokens q)))"
    using assms(1) unfolding admitted_def by (metis (no_types, lifting))
  have "\<exists>off cached. bare (q'\<lparr>rq_status := PREFILLING\<rparr>) =
      (bare q)\<lparr>rq_status := PREFILLING, rq_prefill_offset := off, rq_cached_tokens := cached\<rparr> \<and>
      (off = rq_prefill_offset q \<and> cached = rq_cached_tokens q \<or>
       cached = off \<and> 0 \<le> off \<and> off < int (length (rq_input_tokens q)))"
    using h(3)
  proof
    assume "bare q' = bare q"
    then have "bare (q'\<lparr>rq_status := PREFILLING\<rparr>) = (bare q)\<lparr>rq_status := PREFILLING,
        rq_prefill_offset := rq_prefill_offset q, rq_cached_tokens := rq_cached_tokens q\<rparr>"
      unfolding st by (simp add: bare_def)
    then show ?thesis by blast
  next
    assume "\<exists>off. bare q' = (bare q)\<lparr>rq_prefill_offset := off, rq_cached_tokens := off\<rparr> \<and>
       0 \<le> off \<and> off < int (length (rq_input_tokens q))"
    then obtain off where o: "bare q' = (bare q)\<lparr>rq_prefill_offset := off, rq_cached_tokens := off\<rparr>"
      "0 \<le> off" "off < int (length (rq_input_tokens q))" by blast
    then have "bare (q'\<lparr>rq_status := PREFILLING\<rparr>) =
        (bare q)\<lparr>rq_status := PREFILLING, rq_prefill_offset := off, rq_cached_tokens := off\<rparr>"
      unfolding st by (simp add: bare_def)
    with o(2,3) show ?thesis by blast
  qed
  with h(1,2) assms(2) show ?thesis unfolding starts_def by simp
qed

text \<open>What the promotion loop does with the queue \<open>rs\<close>.\<close>

definition promotion ::
  "kv_cache \<Rightarrow> nat list \<Rightarrow> nat list \<times> nat list \<times> nat list \<Rightarrow> sched \<Rightarrow> kv_mgr \<Rightarrow> sched \<Rightarrow> kv_mgr \<Rightarrow> bool" where
  "promotion c rs = (\<lambda>(lft, batch, rej) s k s' k'.
     mset lft + mset batch + mset rej = mset rs \<and> subseq lft rs \<and> subseq batch rs \<and>
     s' = s\<lparr>sc_active := sc_active s @ batch, sc_heap := sc_heap s', sc_kv := Some k', sc_store := sc_store s'\<rparr> \<and>
     (\<forall>r \<in> set lft. waits k' (sc_heap s r) (sc_heap s' r)) \<and>
     (\<forall>r \<in> set batch. starts c k' (sc_heap s r) (sc_heap s' r)) \<and>
     (\<forall>r \<in> set rej. refused c (sc_heap s r) (sc_heap s' r)) \<and>
     (\<forall>r. r \<notin> set rs \<longrightarrow> sc_heap s' r = sc_heap s r) \<and>
     (\<forall>i. i \<notin> (\<lambda>r. rq_id (sc_heap s r)) ` set rs \<longrightarrow> table_of i k' = table_of i k))"

definition queue_ok :: "nat list \<Rightarrow> req_heap \<Rightarrow> kv_mgr \<Rightarrow> bool" where
  "queue_ok rs h k \<longleftrightarrow> distinct rs \<and> inj_on (\<lambda>r. rq_id (h r)) (set rs) \<and>
     (\<forall>r \<in> set rs. table_of (rq_id (h r)) k = [])"

lemma queue_ok_head:
  assumes "queue_ok (r # rs) h k"
  shows "r \<notin> set rs" "x \<in> set rs \<Longrightarrow> rq_id (h x) \<noteq> rq_id (h r)" "table_of (rq_id (h r)) k = []"
proof -
  have "rq_id (h r) \<notin> (\<lambda>x. rq_id (h x)) ` set rs" using assms by (auto simp: queue_ok_def)
  then show "x \<in> set rs \<Longrightarrow> rq_id (h x) \<noteq> rq_id (h r)" by (metis imageI)
  show "r \<notin> set rs" "table_of (rq_id (h r)) k = []" using assms by (simp_all add: queue_ok_def)
qed

lemma queue_ok_tail:
  assumes "queue_ok (r # rs) h k" "\<And>x. x \<in> set rs \<Longrightarrow> h' x = h x"
    and "\<And>i. i \<noteq> rq_id (h r) \<Longrightarrow> table_of i k' = table_of i k"
  shows "queue_ok rs h' k'"
proof -
  have "rq_id (h' x) = rq_id (h x)" "table_of (rq_id (h' x)) k' = table_of (rq_id (h x)) k" if "x \<in> set rs" for x
    using assms(2,3) queue_ok_head(2) [OF assms(1) that] that by simp_all
  moreover have "queue_ok rs h k" using assms(1) by (simp add: queue_ok_def)
  ultimately show ?thesis by (simp add: queue_ok_def inj_on_def)
qed

lemma promotion_Nil: "sc_kv s = Some k \<Longrightarrow> promotion c rs (rs, [], []) s k s k" if "queue_ok rs (sc_heap s) k"
  using that by (simp add: promotion_def waits_def queue_ok_def)

text \<open>The head of the queue first, whose fate the rest of the queue does not touch.\<close>

lemma promotion_Cons:
  assumes q: "queue_ok (r # rs) (sc_heap s) k"
    and s1: "s1 = s\<lparr>sc_active := act, sc_heap := (sc_heap s)(r := q'), sc_kv := Some k1, sc_store := st1\<rparr>"
    and fr: "\<And>i. i \<noteq> rq_id (sc_heap s r) \<Longrightarrow> table_of i k1 = table_of i k"
    and pr: "promotion c rs (lft, batch, rej) s1 k1 s' k'"
  shows "act = sc_active s \<Longrightarrow> waits k1 (sc_heap s r) q' \<Longrightarrow> promotion c (r # rs) (r # lft, batch, rej) s k s' k'"
    "act = sc_active s @ [r] \<Longrightarrow> starts c k1 (sc_heap s r) q' \<Longrightarrow> promotion c (r # rs) (lft, r # batch, rej) s k s' k'"
    "act = sc_active s \<Longrightarrow> refused c (sc_heap s r) q' \<Longrightarrow> promotion c (r # rs) (lft, batch, r # rej) s k s' k'"
proof -
  note r = queue_ok_head(1) [OF q] and ids = queue_ok_head(2) [OF q]
  have sub: "set lft \<subseteq> set rs" "set batch \<subseteq> set rs" "set rej \<subseteq> set rs"
  proof -
    have "mset lft + mset batch + mset rej = mset rs" using pr by (simp add: promotion_def)
    from arg_cong [OF this, of set_mset] show "set lft \<subseteq> set rs" "set batch \<subseteq> set rs" "set rej \<subseteq> set rs" by auto
  qed
  have h: "sc_heap s1 x = sc_heap s x" if "x \<in> set rs" for x using that r s1 by auto
  have i: "(\<lambda>x. rq_id (sc_heap s1 x)) ` set rs = (\<lambda>x. rq_id (sc_heap s x)) ` set rs" using h by (intro image_cong) auto
  have t: "table_of (rq_id (sc_heap s r)) k' = table_of (rq_id (sc_heap s r)) k1" "sc_heap s' r = q'"
  proof -
    have "rq_id (sc_heap s r) \<notin> (\<lambda>x. rq_id (sc_heap s1 x)) ` set rs" unfolding i using ids by (metis imageE)
    then show "table_of (rq_id (sc_heap s r)) k' = table_of (rq_id (sc_heap s r)) k1" using pr by (simp add: promotion_def)
    have "sc_heap s' r = sc_heap s1 r" using pr r by (simp add: promotion_def)
    then show "sc_heap s' r = q'" by (simp add: s1)
  qed
  have o: "waits k' (sc_heap s x) (sc_heap s' x)" if "x \<in> set lft" for x 
    using pr that h [of x] sub unfolding promotion_def prod.case by (metis subsetD)
  have b: "starts c k' (sc_heap s x) (sc_heap s' x)" if "x \<in> set batch" for x 
    using pr that h [of x] sub unfolding promotion_def prod.case by (metis subsetD)
  have j: "refused c (sc_heap s x) (sc_heap s' x)" if "x \<in> set rej" for x 
    using pr that h [of x] sub unfolding promotion_def prod.case by (metis subsetD)
  have f: "sc_heap s' x = sc_heap s x" if "x \<notin> set (r # rs)" for x using pr that s1 by (simp add: promotion_def)
  have tb: "table_of i k' = table_of i k" if "i \<notin> (\<lambda>x. rq_id (sc_heap s x)) ` set (r # rs)" for i
    using pr that fr by (simp add: promotion_def i)
  have m: "mset lft + mset batch + mset rej = mset rs" "subseq lft rs" "subseq batch rs" using pr by (simp_all add: promotion_def)
  have e: "s' = s\<lparr>sc_active := act @ batch, sc_heap := sc_heap s', sc_kv := Some k', sc_store := sc_store s'\<rparr>"
  proof -
    have "s' = s1\<lparr>sc_active := sc_active s1 @ batch, sc_heap := sc_heap s', sc_kv := Some k', sc_store := sc_store s'\<rparr>"
      using pr by (simp add: promotion_def)
    also have "\<dots> = s\<lparr>sc_active := act @ batch, sc_heap := sc_heap s', sc_kv := Some k', sc_store := sc_store s'\<rparr>"
      unfolding s1 by simp
    finally show ?thesis .
  qed
  show "promotion c (r # rs) (r # lft, batch, rej) s k s' k'"
    if a: "act = sc_active s" and w: "waits k1 (sc_heap s r) q'"
    unfolding promotion_def prod.case using m o b j f tb e a w t by (auto simp: waits_def)
  show "promotion c (r # rs) (lft, r # batch, rej) s k s' k'"
    if a: "act = sc_active s @ [r]" and w: "starts c k1 (sc_heap s r) q'"
    unfolding promotion_def prod.case using m o b j f tb e a w t by (auto simp: starts_def)
  show "promotion c (r # rs) (lft, batch, r # rej) s k s' k'"
    if a: "act = sc_active s" and w: "refused c (sc_heap s r) q'"
    unfolding promotion_def prod.case using m o b j f tb e a w t by auto
qed

locale admission_hook =
  fixes limit :: "reuse_limit option"
  assumes hook: "hook_ok limit"
begin

lemma hook_bare:
  assumes "(case limit of None \<Rightarrow> (-1, q, st) | Some f \<Rightarrow> f st k q) = (n, q1, st1)"
  shows "bare q1 = bare q" "rq_id q1 = rq_id q" "rq_input_tokens q1 = rq_input_tokens q"
    "rq_vision_content_hash q1 = rq_vision_content_hash q"
proof -
  obtain a b where "q1 = q\<lparr>rq_recurrent_restore := a, rq_swa_restore := b\<rparr>"
  proof (cases limit)
    case None
    with assms have "q1 = q\<lparr>rq_recurrent_restore := rq_recurrent_restore q, rq_swa_restore := rq_swa_restore q\<rparr>" by simp
    then show thesis by (rule that)
  next
    case (Some f)
    with assms have "f st k q = (n, q1, st1)" by simp
    with hook Some that show thesis unfolding hook_ok_def by blast
  qed
  then show "bare q1 = bare q" "rq_id q1 = rq_id q" "rq_input_tokens q1 = rq_input_tokens q"
    "rq_vision_content_hash q1 = rq_vision_content_hash q" by (simp_all add: bare_def)
qed

lemma reserve_outcome:
  assumes re: "kv_reach alloc c k" and kv: "sc_kv s = Some k" and new: "table_of (rq_id (sc_heap s r)) k = []"
    and run: "reserve_blocks limit r (blocks_for (context_len (sc_heap s r)) (kv_block_size k)) k s = (a, s')"
  obtains k' q' st' where "s' = admit_frame r k' q' st' s" "kv_reach alloc c k'"
    "admit_outcome c a k k' (sc_heap s r) q'" "a \<noteq> Rejected"
proof (cases "prefix_caching_enabled k \<and> cacheable (sc_heap s r)")
  case False
  let ?q = "sc_heap s r"
  note inv = kv_reach_inv(1,6) [OF re]
  obtain ok k' where al: "allocate_blocks (rq_id ?q) (blocks_for (context_len ?q) (kv_block_size k)) k = (ok, k')"
    by fastforce
  have s': "a = (if ok then Promoted else Deferred)" "s' = admit_frame r k' ?q (sc_store s) s"
    using run False al by (auto simp: reserve_blocks_def Let_def admit_frame_def)
  have "tables k = (tables k)(rq_id ?q := [])" using new by (auto simp: tables_def)
  from allocate_new [OF inv(1) this refl al refl new context_blocks [OF inv(2)] refl]
  show thesis using that [OF s'(2) kv_reach_alloc [OF re al]] s'(1) by auto
next
  case True
  let ?q = "sc_heap s r" and ?bs = "kv_block_size k"
  note inv = kv_reach_inv(1,6) [OF re]
  obtain mr q1 st1 where h: "(case limit of None \<Rightarrow> (-1, ?q, sc_store s) | Some f \<Rightarrow> f (sc_store s) k ?q) = (mr, q1, st1)"
    by (rule prod_cases3)
  note b = hook_bare [OF h]
  obtain n k1 where al: "allocate_blocks_with_prefix (rq_id ?q) (rq_input_tokens ?q) mr (rq_vision_content_hash ?q) k = (n, k1)"
    by fastforce
  note p = prefix_new [OF inv(1) new al b(1), of c] and re1 = kv_reach_prefix [OF re al]
  obtain ok k2 where al2: "allocate_blocks (rq_id ?q) (blocks_for (context_len ?q) ?bs) (free_sequence (rq_id ?q) k1) = (ok, k2)"
    by fastforce
  note run' = run [unfolded reserve_blocks_def Let_def h prod.case b al al2]
  consider (full) "n < 0" | (mismatch) "0 \<le> n" "0 \<le> mr" "n \<noteq> mr" | (hit) "0 \<le> n" "\<not> (0 \<le> mr \<and> n \<noteq> mr)" by linarith
  then show thesis
  proof cases
    case full
    with run' True have "a = Deferred" "s' = admit_frame r k1 q1 st1 s" by (auto simp: put_request_def admit_frame_def)
    with full p re1 show thesis by (intro that) simp_all
  next
    case hit
    with run' True have "a = Promoted" "s' = admit_frame r k1 (apply_reuse n ?bs q1) st1 s"
      by (auto simp: put_request_def admit_frame_def split: if_splits)
    with hit p re1 show thesis by (intro that) simp_all
  next
    case mismatch
    let ?q' = "q1\<lparr>rq_recurrent_restore := None\<rparr>"
    have s': "a = (if ok then Promoted else Deferred)"
      "s' = admit_frame r k2 ?q' (drop_snapshot (rq_recurrent_restore q1) st1) s"
      using run' True mismatch by (auto simp: put_request_def admit_frame_def split: if_splits)
    have T: "tables (free_sequence (rq_id ?q) k1) = (tables k)(rq_id ?q := [])"
      using p mismatch(1) unfolding free_sequence_tables [OF kv_reach_inv(1) [OF re1]]
      by (auto simp: admit_outcome_def tables_def)
    have bs: "kv_block_size (free_sequence (rq_id ?q) k1) = ?bs"
      using kv_reach_inv(3) [OF kv_reach_free [OF re1]] kv_reach_inv(3) [OF re] by simp
    have "bare ?q' = bare ?q" using b(1) by (simp add: bare_def)
    from allocate_new [OF kv_reach_inv(1) [OF kv_reach_free [OF re1]] T bs al2 refl new context_blocks [OF inv(2)] this]
    show thesis using that [OF s'(2) kv_reach_alloc [OF kv_reach_free [OF re1] al2]] s'(1) by auto
  qed
qed

lemma admit_result:
  assumes "kv_reach alloc c k" and kv: "sc_kv s = Some k" and "table_of (rq_id (sc_heap s r)) k = []"
    and run: "try_admit limit c r s = (a, s')"
  obtains k' q' st' where "s' = admit_frame r k' q' st' s" "kv_reach alloc c k'"
    "admit_outcome c a k k' (sc_heap s r) q'"
proof -
  let ?q = "sc_heap s r" and ?n = "blocks_for (context_len (sc_heap s r)) (kv_block_size k)"
  note run' = run [unfolded try_admit_def kv option.case Let_def]
  consider (fits) "can_allocate ?n k"
    | (wait) "\<not> can_allocate ?n k" "?n \<le> int (kc_max_blocks c)"
    | (never) "\<not> can_allocate ?n k" "int (kc_max_blocks c) < ?n" by linarith
  then show thesis
  proof cases
    case fits
    with run' have "reserve_blocks limit r ?n k s = (a, s')" by simp
    from reserve_outcome [OF assms(1-3) this] that show thesis by metis
  next
    case wait
    with run' kv have "a = Deferred" "s' = admit_frame r k ?q (sc_store s) s"
      by (simp_all add: total_cache_blocks_def admit_frame_def split: if_splits)
    with assms(1,3) show thesis by (intro that [of k ?q "sc_store s"]) (simp_all add: admit_outcome_def)
  next
    case never
    let ?q' = "?q\<lparr>rq_status := CANCELLED, rq_cancel_reason := KvCapacity\<rparr>"
    from never run' kv have "a = Rejected" "s' = admit_frame r k ?q' (sc_store s) s"
      by (auto simp: total_cache_blocks_def admit_frame_def put_request_def split: if_splits)
    with assms(1) never(2) show thesis by (intro that [of k ?q' "sc_store s"]) (simp_all add: admit_outcome_def)
  qed
qed

lemma promote_outcome:
  assumes "kv_reach alloc c k" "sc_kv s = Some k" "queue_ok rs (sc_heap s) k"
    and "promote limit c rs s = (lft, batch, s')"
  shows "\<exists>rej k'. kv_reach alloc c k' \<and> promotion c rs (lft, batch, rej) s k s' k' \<and>
    int (length (sc_active s @ batch)) \<le> max (sc_max_batch_size s) (int (length (sc_active s)))"
  using assms
proof (induction rs arbitrary: s k lft batch s')
  case Nil
  then show ?case using promotion_Nil [OF Nil.prems(3,2)] by auto
next
  case (Cons r rs)
  note re = Cons.prems(1) and kv = Cons.prems(2) and q = Cons.prems(3) and run = Cons.prems(4)
  show ?case
  proof (cases "sc_max_batch_size s \<le> int (length (sc_active s))")
    case True
    with run show ?thesis using promotion_Nil [OF q kv] re by auto
  next
    case room: False
    obtain a s1 where ad: "try_admit limit c r s = (a, s1)" by fastforce
    obtain k1 q1 st1 where s1: "s1 = admit_frame r k1 q1 st1 s" and re1: "kv_reach alloc c k1"
      and o: "admit_outcome c a k k1 (sc_heap s r) q1"
      using admit_result [OF re kv queue_ok_head(3) [OF q] ad] by metis
    have fr: "table_of i k1 = table_of i k" if "i \<noteq> rq_id (sc_heap s r)" for i using o that by (simp add: admit_outcome_def)
    have bs: "kv_block_size k = int (kc_block_size c)" by (rule kv_reach_inv(3) [OF re])
    define nxt where "nxt act x = s\<lparr>sc_active := act, sc_heap := (sc_heap s)(r := x), sc_kv := Some k1, sc_store := st1\<rparr>"
      for act x
    have tail: "\<exists>rej k'. kv_reach alloc c k' \<and> promotion c rs (l, b, rej) (nxt act x) k1 s' k' \<and>
        int (length (act @ b)) \<le> max (sc_max_batch_size s) (int (length act))"
      if "promote limit c rs (nxt act x) = (l, b, s')" for act x l b
    proof -
      have "queue_ok rs (sc_heap (nxt act x)) k1"
        by (rule queue_ok_tail [OF q _ fr]) (use queue_ok_head(1) [OF q] in \<open>auto simp: nxt_def\<close>)
      from Cons.IH [OF re1 _ this that] show ?thesis by (simp add: nxt_def)
    qed
    have s1': "s1 = nxt (sc_active s) q1" by (simp add: s1 nxt_def admit_frame_def)
    have up: "put_request r ((sc_heap s1 r)\<lparr>rq_status := PREFILLING\<rparr>) (s1\<lparr>sc_active := sc_active s1 @ [r]\<rparr>) =
        nxt (sc_active s @ [r]) (q1\<lparr>rq_status := PREFILLING\<rparr>)"
      by (simp add: s1' nxt_def put_request_def)
    note run' = run [unfolded promote.simps ad prod.case up] and pc = promotion_Cons [OF q nxt_def fr]
    show ?thesis
    proof (cases a)
      case Rejected
      then have "promote limit c rs (nxt (sc_active s) q1) = (lft, batch, s')" using run' room s1' by simp
      moreover have "refused c (sc_heap s r) q1" using o Rejected bs by (simp add: admit_outcome_def refused_def)
      ultimately show ?thesis using tail pc(3) by blast
    next
      case Deferred
      then obtain l where "promote limit c rs (nxt (sc_active s) q1) = (l, batch, s')" "lft = r # l"
        using run' room s1' by (auto split: prod.splits)
      moreover have "waits k1 (sc_heap s r) q1" using o Deferred by (simp add: admit_outcome_def waits_def)
      ultimately show ?thesis using tail pc(1) by blast
    next
      case Promoted
      let ?q = "q1\<lparr>rq_status := PREFILLING\<rparr>"
      from Promoted obtain b where b: "promote limit c rs (nxt (sc_active s @ [r]) ?q) = (lft, b, s')" "batch = r # b"
        using run' room by (auto split: prod.splits)
      have st: "starts c k1 (sc_heap s r) ?q"
        using o Promoted by (intro admitted_starts [OF _ bs]) (simp add: admit_outcome_def)
      from tail [OF b(1)] obtain rej k' where "kv_reach alloc c k'"
        "promotion c rs (lft, b, rej) (nxt (sc_active s @ [r]) ?q) k1 s' k'"
        "int (length ((sc_active s @ [r]) @ b)) \<le> max (sc_max_batch_size s) (int (length (sc_active s @ [r])))" by blast
      with pc(2) [OF _ _ refl st] room b(2) show ?thesis by fastforce
    qed
  qed
qed

end

section \<open>The schedule step over the manager\<close>

lemma requeue_chunks_eq:
  "distinct act \<Longrightarrow> requeue_chunks h act b = b @ filter (\<lambda>r. mid_prefill (h r) \<and> r \<notin> set b) act"
proof (induction act arbitrary: b)
  case (Cons r act)
  have "filter (\<lambda>x. mid_prefill (h x) \<and> x \<notin> set (b @ [r])) act = filter (\<lambda>x. mid_prefill (h x) \<and> x \<notin> set b) act"
    using Cons.prems by (intro filter_cong) auto
  with Cons show ?case by (simp add: requeue_chunks_def)
qed (simp add: requeue_chunks_def)

text \<open>The sort orders by the length of the prompt; the order of equal lengths is its own.\<close>

definition sort_ok :: "(req_heap \<Rightarrow> nat list \<Rightarrow> nat list) \<Rightarrow> bool" where
  "sort_ok srt \<longleftrightarrow> (\<forall>h rs. mset (srt h rs) = mset rs \<and> sorted (map (\<lambda>r. length (rq_input_tokens (h r))) (srt h rs)))"

lemma subseq_sub: "subseq xs ys \<Longrightarrow> set xs \<subseteq> set ys"
  by (induction rule: list_emb.induct) auto

lemma subseq_dist: "subseq xs ys \<Longrightarrow> distinct ys \<Longrightarrow> distinct xs"
  by (induction rule: list_emb.induct) (auto dest: subseq_sub)

lemma sorted_subseq:
  fixes f :: "'a \<Rightarrow> nat"
  shows "subseq xs ys \<Longrightarrow> sorted (map f ys) \<Longrightarrow> sorted (map f xs)"
  by (induction rule: list_emb.induct) (auto dest: subseq_sub)

lemma queue_ok_mset: "mset rs' = mset rs \<Longrightarrow> queue_ok rs' h k = queue_ok rs h k"
  using mset_eq_setD [of rs' rs] mset_eq_imp_distinct_iff [of rs' rs] by (auto simp: queue_ok_def)

lemma bare_fields:
  assumes "bare q' = bare q"
  shows "rq_id q' = rq_id q" "rq_input_tokens q' = rq_input_tokens q" "rq_status q' = rq_status q"
  using arg_cong [OF assms, of rq_id] arg_cong [OF assms, of rq_input_tokens] arg_cong [OF assms, of rq_status]
  by (simp_all add: bare_def)

lemma promotion_queue_ok:
  assumes q: "queue_ok rs (sc_heap s) k" and p: "promotion c rs (lft, batch, rej) s k s' k'"
  shows "queue_ok lft (sc_heap s') k'"
proof -
  have l: "subseq lft rs" and w: "\<forall>r \<in> set lft. waits k' (sc_heap s r) (sc_heap s' r)"
    using p unfolding promotion_def prod.case by blast+
  have id: "rq_id (sc_heap s' r) = rq_id (sc_heap s r)" "table_of (rq_id (sc_heap s r)) k' = []" if "r \<in> set lft" for r
    using w that bare_fields(1) unfolding waits_def by blast+
  have "inj_on (\<lambda>r. rq_id (sc_heap s r)) (set lft)"
    using q subseq_sub [OF l] unfolding queue_ok_def by (blast intro: inj_on_subset)
  with id have "inj_on (\<lambda>r. rq_id (sc_heap s' r)) (set lft)" by (simp cong: inj_on_cong)
  moreover have "distinct lft" using q subseq_dist [OF l] by (simp add: queue_ok_def)
  ultimately show ?thesis using id by (simp add: queue_ok_def)
qed

definition live_reqs :: "sched \<Rightarrow> nat list" where
  "live_reqs s = filter (\<lambda>r. \<not> done_request (sc_heap s r)) (sc_active s)"

definition queue_order :: "(req_heap \<Rightarrow> nat list \<Rightarrow> nat list) \<Rightarrow> sched \<Rightarrow> nat list" where
  "queue_order srt s = (if sc_pending_dirty s then srt (sc_heap s) (sc_pending s) else sc_pending s)"

lemma schedule_eq:
  "schedule srt limit c s =
     (case promote limit c (queue_order srt s)
             (s\<lparr>sc_active := live_reqs s, sc_pending := queue_order srt s, sc_pending_dirty := False\<rparr>) of
        (lft, batch, s3) \<Rightarrow>
          (requeue_chunks (sc_heap s3) (sc_active s3) batch,
           filter (\<lambda>r. rq_status (sc_heap s3 r) = DECODING) (sc_active s3), s3\<lparr>sc_pending := lft\<rparr>))"
proof (cases "sc_pending_dirty s")
  case True
  then show ?thesis by (simp add: schedule_def Let_def live_reqs_def queue_order_def split: prod.split)
next
  case False
  have "s\<lparr>sc_active := live_reqs s\<rparr> = s\<lparr>sc_active := live_reqs s, sc_pending := sc_pending s, sc_pending_dirty := False\<rparr>"
    using False by (cases s) simp
  with False show ?thesis
    by (simp only: schedule_def Let_def queue_order_def live_reqs_def [symmetric] if_False)
      (simp add: live_reqs_def split: prod.split)
qed

lemma promotion_pending:
  assumes "promotion c rs x s k s' k'"
  shows "promotion c rs x (s\<lparr>sc_pending := l\<rparr>) k (s'\<lparr>sc_pending := l\<rparr>) k'"
proof -
  obtain lft batch rej where x: "x = (lft, batch, rej)" by (rule prod_cases3)
  have e: "s' = s\<lparr>sc_active := sc_active s @ batch, sc_heap := sc_heap s', sc_kv := Some k', sc_store := sc_store s'\<rparr>"
    using assms unfolding x promotion_def prod.case by blast
  have "s'\<lparr>sc_pending := l\<rparr> = s\<lparr>sc_pending := l, sc_active := sc_active s @ batch, sc_heap := sc_heap s',
      sc_kv := Some k', sc_store := sc_store s'\<rparr>"
    by (subst e) simp
  then show ?thesis using assms unfolding x promotion_def prod.case by simp
qed

lemma promotion_frame:
  assumes "promotion c rs (lft, batch, rej) s k s' k'"
  shows "sc_active s' = sc_active s @ batch" "sc_kv s' = Some k'" "sc_pending s' = sc_pending s"
    "sc_max_batch_size s' = sc_max_batch_size s" "set batch \<subseteq> set rs" "r \<notin> set rs \<Longrightarrow> sc_heap s' r = sc_heap s r"
    "r \<in> set batch \<Longrightarrow> rq_status (sc_heap s' r) = PREFILLING"
proof -
  have e: "s' = s\<lparr>sc_active := sc_active s @ batch, sc_heap := sc_heap s', sc_kv := Some k', sc_store := sc_store s'\<rparr>"
    using assms unfolding promotion_def prod.case by blast
  show "sc_active s' = sc_active s @ batch" "sc_kv s' = Some k'" "sc_pending s' = sc_pending s"
    "sc_max_batch_size s' = sc_max_batch_size s" by (subst e, simp)+
  show "set batch \<subseteq> set rs" "r \<notin> set rs \<Longrightarrow> sc_heap s' r = sc_heap s r"
    using assms subseq_sub unfolding promotion_def prod.case by blast+
  assume "r \<in> set batch"
  then have "starts c k' (sc_heap s r) (sc_heap s' r)" using assms unfolding promotion_def prod.case by blast
  then have "rq_status (bare (sc_heap s' r)) = PREFILLING" unfolding starts_def by force
  then show "rq_status (sc_heap s' r) = PREFILLING" by (simp add: bare_def)
qed

locale scheduling = admission_hook +
  fixes srt :: "req_heap \<Rightarrow> nat list \<Rightarrow> nat list"
  assumes srt: "sort_ok srt"
begin

lemma schedule_outcome:
  assumes re: "kv_reach alloc c k" and kv: "sc_kv s = Some k" and q: "queue_ok (sc_pending s) (sc_heap s) k"
    and act: "distinct (sc_active s)" "set (sc_active s) \<inter> set (sc_pending s) = {}"
    and run: "schedule srt limit c s = (prefill, decode, s')"
  obtains batch rej k' where "kv_reach alloc c k'"
    "promotion c (queue_order srt s) (sc_pending s', batch, rej)
       (s\<lparr>sc_active := live_reqs s, sc_pending := sc_pending s', sc_pending_dirty := False\<rparr>) k s' k'"
    "int (length (live_reqs s @ batch)) \<le> max (sc_max_batch_size s) (int (length (live_reqs s)))"
    "prefill = batch @ filter (\<lambda>r. mid_prefill (sc_heap s r)) (live_reqs s)"
    "decode = filter (\<lambda>r. rq_status (sc_heap s r) = DECODING) (live_reqs s)"
proof -
  let ?o = "queue_order srt s" and ?h = "sc_heap s"
  define s2 where "s2 = s\<lparr>sc_active := live_reqs s, sc_pending := ?o, sc_pending_dirty := False\<rparr>"
  obtain lft batch s3 where pr: "promote limit c ?o s2 = (lft, batch, s3)" by (rule prod_cases3)
  have m: "mset ?o = mset (sc_pending s)" using srt by (simp add: queue_order_def sort_ok_def)
  have q2: "queue_ok ?o (sc_heap s2) k" using q queue_ok_mset [OF m] by (simp add: s2_def)
  have kv2: "sc_kv s2 = Some k" using kv by (simp add: s2_def)
  obtain rej k' where re': "kv_reach alloc c k'" and p: "promotion c ?o (lft, batch, rej) s2 k s3 k'"
    and len: "int (length (sc_active s2 @ batch)) \<le> max (sc_max_batch_size s2) (int (length (sc_active s2)))"
    using promote_outcome [OF re kv2 q2 pr] by blast
  have out: "prefill = requeue_chunks (sc_heap s3) (sc_active s3) batch"
    "decode = filter (\<lambda>r. rq_status (sc_heap s3 r) = DECODING) (sc_active s3)" "s' = s3\<lparr>sc_pending := lft\<rparr>"
    using run unfolding schedule_eq s2_def [symmetric] pr by simp_all
  note f = promotion_frame [OF p]
  have a3: "sc_active s3 = live_reqs s @ batch" using f(1) by (simp add: s2_def)
  have set: "set ?o = set (sc_pending s)" using mset_eq_setD [OF m] .
  have old: "sc_heap s3 r = ?h r" "r \<notin> set batch" if "r \<in> set (live_reqs s)" for r
    using that act(2) f(5) f(6) [of r] unfolding set by (auto simp: s2_def live_reqs_def)
  have "subseq batch ?o" using p unfolding promotion_def prod.case by blast
  then have "distinct batch" using q2 subseq_dist by (auto simp: queue_ok_def)
  then have d: "distinct (live_reqs s @ batch)" using act(1) old(2) by (auto simp: live_reqs_def)
  have "prefill = batch @ filter (\<lambda>r. mid_prefill (?h r)) (live_reqs s)"
    unfolding out(1) a3 requeue_chunks_eq [OF d] using old by (auto intro: filter_cong simp: filter_empty_conv)
  moreover have "decode = filter (\<lambda>r. rq_status (?h r) = DECODING) (live_reqs s)"
    unfolding out(2) a3 using old f(7) by (auto intro: filter_cong simp: filter_empty_conv)
  moreover have "promotion c ?o (sc_pending s', batch, rej)
       (s\<lparr>sc_active := live_reqs s, sc_pending := sc_pending s', sc_pending_dirty := False\<rparr>) k s' k'"
  proof -
    have "s2\<lparr>sc_pending := lft\<rparr> = s\<lparr>sc_active := live_reqs s, sc_pending := lft, sc_pending_dirty := False\<rparr>"
      by (simp add: s2_def)
    with promotion_pending [OF p, of lft] show ?thesis by (simp add: out(3))
  qed
  ultimately show thesis using that re' len by (simp add: s2_def)
qed

end

section \<open>The hooks and a sort\<close>

lemma hook_ok_None: "hook_ok None"
  by (simp add: hook_ok_def)

lemma hook_ok_Some:
  assumes "\<And>st k q n q1 st1. f st k q = (n, q1, st1) \<Longrightarrow>
    \<exists>a b. q1 = q\<lparr>rq_recurrent_restore := a, rq_swa_restore := b\<rparr>"
  shows "hook_ok (Some f)"
  using assms by (auto simp: hook_ok_def)

lemma hook_ok_hybrid: "hook_ok (Some (hybrid_prefix_reuse_limit ssm chunked vi))"
proof (rule hook_ok_Some)
  fix st k q n q1 st1
  assume "hybrid_prefix_reuse_limit ssm chunked vi st k q = (n, q1, st1)"
  then obtain e where "q1 = q\<lparr>rq_recurrent_restore := e\<rparr>"
    by (auto simp: hybrid_prefix_reuse_limit_def Let_def split: prod.splits)
  then have "q1 = q\<lparr>rq_recurrent_restore := e, rq_swa_restore := rq_swa_restore q\<rparr>" by simp
  then show "\<exists>a b. q1 = q\<lparr>rq_recurrent_restore := a, rq_swa_restore := b\<rparr>" by blast
qed

lemma hook_ok_swa: "hook_ok (Some (swa_prefix_reuse_limit chunked vi))"
proof (rule hook_ok_Some)
  fix st k q n q1 st1
  assume "swa_prefix_reuse_limit chunked vi st k q = (n, q1, st1)"
  then obtain e where "q1 = q\<lparr>rq_swa_restore := e\<rparr>"
    by (auto simp: swa_prefix_reuse_limit_def Let_def split: prod.splits)
  then have "q1 = q\<lparr>rq_recurrent_restore := rq_recurrent_restore q, rq_swa_restore := e\<rparr>" by simp
  then show "\<exists>a b. q1 = q\<lparr>rq_recurrent_restore := a, rq_swa_restore := b\<rparr>" by blast
qed

text \<open>One of the sorts the standard allows: the stable one.\<close>

definition shortest_first :: "req_heap \<Rightarrow> nat list \<Rightarrow> nat list" where
  "shortest_first h = sort_key (\<lambda>r. length (rq_input_tokens (h r)))"

lemma sort_ok_shortest_first: "sort_ok shortest_first"
  by (simp add: sort_ok_def shortest_first_def)

interpretation dense: scheduling None shortest_first
  by unfold_locales (rule hook_ok_None sort_ok_shortest_first)+

interpretation hybrid: scheduling "Some (hybrid_prefix_reuse_limit ssm chunked vi)" shortest_first for ssm chunked vi
  by unfold_locales (rule hook_ok_hybrid sort_ok_shortest_first)+

interpretation windowed: scheduling "Some (swa_prefix_reuse_limit chunked vi)" shortest_first for chunked vi
  by unfold_locales (rule hook_ok_swa sort_ok_shortest_first)+

end
