(* ===== verification/KV_Prefix_Avail.thy ===== *)
theory KV_Prefix_Avail
  imports KV_Register
begin

text \<open>
  When prefix allocation succeeds: enough blocks that are free or reclaimable at the start are
  enough for the whole loop, since a hit takes at most one of them.
\<close>

lemma prefix_lookup_avail: "avail (snd (prefix_lookup h s)) = avail s"
  by (simp add: prefix_lookup_def avail_def sole_cached_def split: option.split)

lemma push_hash_avail [simp]: "avail (push_hash seq h s) = avail s"
  by (simp add: push_hash_def set_hashes_def avail_def sole_cached_def)

lemma reuse_avail:
  assumes ai: "alloc_inv X s" and live: "0 < refs_of (kv_pool s) b"
  shows "avail s \<le> avail (reuse_block seq b s) + 1"
proof (cases "map_of (cached_blocks_map s) b")
  case (Some r)
  have "distinct (cached_blocks_lru s)" using ai by (simp add: alloc_inv_def cache_inv_def)
  then have "sole_cached s \<subseteq> insert b (sole_cached (reuse_block seq b s))"
    using Some by (auto simp: reuse_block_def sole_cached_def push_ref_def set_table_def)
  then have "card (sole_cached s) \<le> card (insert b (sole_cached (reuse_block seq b s)))" by (intro card_mono) simp_all
  then have "card (sole_cached s) \<le> card (sole_cached (reuse_block seq b s)) + 1" by (simp add: card_insert_if split: if_splits)
  moreover have "kv_pool (reuse_block seq b s) = kv_pool s" using Some by (simp add: reuse_block_def)
  ultimately show ?thesis by (simp add: avail_def)
next
  case None
  have o: "own_with X s" "cache_inv s" using ai by (simp_all add: alloc_inv_def)
  have own: "pool_owned (kv_pool s) (kv_refs s + X)" using o(1) by (simp add: own_with_def)
  note b = refs_pos_in_ids [OF live]
  have mem: "b \<in># kv_refs s + X" using pool_ownedD(5) [OF own b] live by (metis count_greater_zero_iff)
  obtain c p where sh: "share_by_id b (kv_pool s) = (c, p)" by fastforce
  note q = pool_owned_share [OF own mem sh]
  have "free_blocks p = free_blocks (kv_pool s)"
    using pool_owned_conservation [OF own] pool_owned_conservation [OF q(2)] q(3) mem by (simp add: insert_absorb)
  moreover have "refs_of p = (refs_of (kv_pool s))(b := refs_of (kv_pool s) b + 1)"
    using bp.share_live [OF pool_ownedD(1) [OF own] b live sh] by simp
  moreover have "b \<notin> set (cached_blocks_lru s)" using None o(2) by (auto simp: cache_inv_def map_of_eq_None_iff)
  moreover have "reuse_block seq b s = push_ref seq b (s\<lparr>kv_pool := p\<rparr>)"
    using None sh q(1) by (simp add: reuse_block_def share_block_def)
  ultimately have "kv_pool (reuse_block seq b s) = p" "sole_cached (reuse_block seq b s) = sole_cached s"
    by (auto simp: sole_cached_def push_ref_def set_table_def)
  with \<open>free_blocks p = _\<close> show ?thesis by (simp add: avail_def)
qed

lemma prefix_loop_succeeds:
  assumes "alloc_inv {#} s" "k \<le> avail s" "0 \<le> reused"
    and "prefix_loop k b seq toks mr 0 parent reuse_open reused s = (r, s')"
  shows "0 \<le> r"
  using assms
proof (induction k arbitrary: b parent reuse_open reused s)
  case (Suc k)
  let ?bt = "block_tokens (nat (kv_block_size s)) toks b"
  let ?h = "compute_block_hash ?bt parent"
  let ?reuse = "reuse_open \<and> \<not> (0 \<le> mr \<and> mr \<le> int b)"
  have fresh: "0 \<le> r"
    if i: "alloc_inv {#} s1" "avail s1 = avail s"
      and run: "(case allocate_block_ref_with_eviction s1 of (c, s2) \<Rightarrow>
          if c < 0 then (-1, rollback_partial_allocation seq 0 s2)
          else prefix_loop k (Suc b) seq toks mr 0 pa opn reused (push_hash seq ha (push_ref seq c s2))) = (r, s')"
    for s1 pa opn ha
  proof -
    obtain c s2 where a: "allocate_block_ref_with_eviction s1 = (c, s2)" by fastforce
    from allocate_ref_outcome [OF i(1) a] i(2) Suc.prems(2)
    have c: "0 \<le> c" "alloc_inv {#c#} s2" "k \<le> avail s2" by (auto simp: alloc_outcome_def split: if_splits)
    with run a have "prefix_loop k (Suc b) seq toks mr 0 pa opn reused (push_hash seq ha (push_ref seq c s2)) = (r, s')"
      by simp
    from Suc.IH [OF _ _ Suc.prems(3) this] alloc_inv_push [OF c(2,1)] c(3) show ?thesis by simp
  qed
  show ?case
  proof (cases "prefix_caching_enabled s \<and> length ?bt = nat (kv_block_size s)")
    case False
    then have e: "\<not> (prefix_caching_enabled s \<and> length ?bt = nat (kv_block_size s))" .
    show ?thesis using Suc.prems(4) unfolding prefix_loop.simps Let_def if_not_P [OF e]
      by (rule fresh [OF Suc.prems(1) refl])
  next
    case en: True
    obtain hit s1 where lk: "(if ?reuse then prefix_lookup ?h s else (None, s)) = (hit, s1)" by fastforce
    have i1: "alloc_inv {#} s1" "avail s1 = avail s"
      using lk prefix_lookup_frame(1) [OF Suc.prems(1)] prefix_lookup_avail [of ?h s] Suc.prems(1)
      by (auto split: if_splits)
    note run = Suc.prems(4) [unfolded prefix_loop.simps Let_def if_P [OF en] lk prod.case]
    show ?thesis
    proof (cases hit)
      case None
      with run show ?thesis by (intro fresh [OF i1, of ?h False ?h]) simp
    next
      case (Some c)
      have ow: "own_with {#} s" using Suc.prems(1) by (simp add: alloc_inv_def)
      have lv: "live_ids s ?h = Some c" "s1 = s" 
        using lk Some prefix_lookup_live [OF ow] by (auto simp: prefix_lookup_def split: if_splits option.splits)
      note p = live_ids_Some [OF lv(1)]
      from run Some lv(2) have "prefix_loop k (Suc b) seq toks mr 0 ?h ?reuse (reused + 1)
          (push_hash seq ?h (reuse_block seq c s)) = (r, s')" by simp
      from Suc.IH [OF _ _ _ this] reuse_block_inv [OF Suc.prems(1) p refs_pos_in_ids [OF p], of seq]
        reuse_avail [OF Suc.prems(1) p, of seq] Suc.prems(2,3)
      show ?thesis by simp
    qed
  qed
qed simp

lemma allocate_with_prefix_succeeds:
  assumes inv: "kv_inv s" and new: "table_of seq s = []"
    and enough: "blocks_for (int (length toks)) (kv_block_size s) \<le> int (avail s)"
  shows "0 \<le> fst (allocate_blocks_with_prefix seq toks mr salt s)"
proof (cases "toks = []")
  case False
  let ?t0 = "set_table seq (table_of seq s) s"
  let ?s0 = "set_hashes seq (hashes_of seq ?t0) ?t0" and ?k = "nat (blocks_for (int (length toks)) (kv_block_size s))"
  obtain r1 s1 where l: "prefix_loop ?k 0 seq toks mr 0 salt True 0 ?s0 = (r1, s1)" by fastforce
  have ai: "alloc_inv {#} ?s0" using alloc_inv_touch_entry [OF kv_inv_alloc_inv [OF inv]] by simp
  have "avail ?s0 = avail s" by (simp add: set_hashes_def avail_def sole_cached_def set_table_def)
  then have "?k \<le> avail ?s0" using enough by simp
  from prefix_loop_succeeds [OF ai this order_refl l] False l new show ?thesis
    by (simp add: allocate_blocks_with_prefix_def Let_def)
qed (simp add: allocate_blocks_with_prefix_def)

end
