(* ===== verification/Scheduler_Props.thy ===== *)
theory Scheduler_Props
  imports Scheduler KV_Prefix_Avail
begin

text \<open>
  The properties of the scheduler: no request is lost or scheduled twice and the batches are
  exact, an admission never lets a prefill write into a block of another sequence, and what an
  idle engine does with a request.
\<close>

section \<open>Conservation\<close>

lemma queue_order_mset: "sort_ok srt \<Longrightarrow> mset (queue_order srt s) = mset (sc_pending s)"
  by (simp add: queue_order_def sort_ok_def)

lemma live_filter:
  "filter (\<lambda>r. mid_prefill (sc_heap s r)) (live_reqs s) = filter (\<lambda>r. mid_prefill (sc_heap s r)) (sc_active s)"
  "filter (\<lambda>r. rq_status (sc_heap s r) = DECODING) (live_reqs s) =
     filter (\<lambda>r. rq_status (sc_heap s r) = DECODING) (sc_active s)"
  unfolding live_reqs_def filter_filter by (auto intro: filter_cong simp: mid_prefill_def done_request_def)

text \<open>The lists stay disjoint and without repetition.\<close>

lemma promotion_disjoint:
  assumes q: "queue_ok rs (sc_heap s) k" and p: "promotion c rs (lft, batch, rej) s k s' k'"
    and act: "distinct (sc_active s)" "set (sc_active s) \<inter> set rs = {}"
  shows "distinct (sc_active s')" "set (sc_active s') \<inter> set lft = {}"
proof -
  have m: "mset lft + mset batch + mset rej = mset rs" using p unfolding promotion_def prod.case by blast
  have "mset (lft @ batch @ rej) = mset rs" using m by (simp add: add.assoc)
  then have d: "distinct (lft @ batch @ rej)" "set (lft @ batch @ rej) = set rs"
    using q mset_eq_imp_distinct_iff mset_eq_setD unfolding queue_ok_def by blast+
  then show "distinct (sc_active s')" "set (sc_active s') \<inter> set lft = {}"
    unfolding promotion_frame(1) [OF p] using act by auto
qed

text \<open>
  C5. A schedule step loses no request and duplicates none: the pending ones are split into those
  that still wait, in queue order and unchanged, those that start, with a table for their whole
  prompt, and those that are cancelled because they can never fit the cache. The active
  list keeps the unfinished requests and gets the started ones, within the batch limit; the prefill batch is
  the started ones and the ones in the middle of a chunked prefill, the decode batch the decoding
  ones. The block manager stays in a reachable state, and neither the tables of other sequences nor other
  requests change.
\<close>

theorem schedule_conserves:
  assumes "hook_ok limit" "sort_ok srt" "kv_reach alloc c k" "sc_kv s = Some k"
    and "queue_ok (sc_pending s) (sc_heap s) k"
    and "distinct (sc_active s)" "set (sc_active s) \<inter> set (sc_pending s) = {}"
    and "schedule srt limit c s = (prefill, decode, s')"
  shows "\<exists>started cancelled k'. kv_reach alloc c k' \<and> sc_kv s' = Some k' \<and>
    mset (sc_pending s') + mset started + mset cancelled = mset (sc_pending s) \<and>
    (sc_pending_dirty s \<longrightarrow> sorted (map (\<lambda>r. length (rq_input_tokens (sc_heap s r))) (sc_pending s')) \<and>
       sorted (map (\<lambda>r. length (rq_input_tokens (sc_heap s r))) started)) \<and>
    sc_active s' = filter (\<lambda>r. \<not> done_request (sc_heap s r)) (sc_active s) @ started \<and>
    (int (length (sc_active s')) \<le> sc_max_batch_size s \<or> started = []) \<and>
    prefill = started @ filter (\<lambda>r. mid_prefill (sc_heap s r)) (sc_active s) \<and>
    decode = filter (\<lambda>r. rq_status (sc_heap s r) = DECODING) (sc_active s) \<and>
    distinct (sc_active s') \<and> set (sc_active s') \<inter> set (sc_pending s') = {} \<and>
    queue_ok (sc_pending s') (sc_heap s') k' \<and>
    (\<forall>r \<in> set (sc_pending s'). waits k' (sc_heap s r) (sc_heap s' r)) \<and>
    (\<forall>r \<in> set started. starts c k' (sc_heap s r) (sc_heap s' r)) \<and>
    (\<forall>r \<in> set cancelled. refused c (sc_heap s r) (sc_heap s' r)) \<and>
    (\<forall>r. r \<notin> set (sc_pending s) \<longrightarrow> sc_heap s' r = sc_heap s r) \<and>
    (\<forall>i. i \<notin> (\<lambda>r. rq_id (sc_heap s r)) ` set (sc_pending s) \<longrightarrow> table_of i k' = table_of i k)"
proof -
  have sch: "scheduling limit srt" by unfold_locales (rule assms(1,2))+
  let ?o = "queue_order srt s" and ?L = "\<lambda>r. length (rq_input_tokens (sc_heap s r))"
  define s0 where "s0 = s\<lparr>sc_active := live_reqs s, sc_pending := sc_pending s', sc_pending_dirty := False\<rparr>"
  have e0: "sc_heap s0 = sc_heap s" "sc_active s0 = live_reqs s" by (simp_all add: s0_def)
  obtain started rej k' where re: "kv_reach alloc c k'"
    and p: "promotion c ?o (sc_pending s', started, rej) s0 k s' k'"
    and len: "int (length (live_reqs s @ started)) \<le> max (sc_max_batch_size s) (int (length (live_reqs s)))"
    and out: "prefill = started @ filter (\<lambda>r. mid_prefill (sc_heap s r)) (live_reqs s)"
      "decode = filter (\<lambda>r. rq_status (sc_heap s r) = DECODING) (live_reqs s)"
    using scheduling.schedule_outcome [OF sch assms(3-8)] unfolding s0_def by metis
  note m = queue_order_mset [OF assms(2), of s] and f = promotion_frame [OF p]
  have set: "set ?o = set (sc_pending s)" using mset_eq_setD [OF m] .
  have q0: "queue_ok ?o (sc_heap s0) k" using assms(5) queue_ok_mset [OF m] by (simp add: e0)
  have act: "distinct (sc_active s0)" "set (sc_active s0) \<inter> set ?o = {}"
    using assms(6,7) unfolding set e0 by (auto simp: live_reqs_def)
  have sub: "subseq (sc_pending s') ?o" "subseq started ?o" using p unfolding promotion_def prod.case by blast+
  have so: "sorted (map ?L (sc_pending s')) \<and> sorted (map ?L started)" if "sc_pending_dirty s"
    using that sorted_subseq [OF sub(1), of ?L] sorted_subseq [OF sub(2), of ?L] assms(2)
    by (simp add: queue_order_def sort_ok_def)
  have "int (length (sc_active s')) \<le> sc_max_batch_size s \<or> started = []" 
    using len unfolding f(1) e0 by (cases started) (auto simp: max_def split: if_splits)
  moreover have "sc_active s' = filter (\<lambda>r. \<not> done_request (sc_heap s r)) (sc_active s) @ started"
    unfolding f(1) e0 by (simp add: live_reqs_def)
  ultimately show ?thesis
    using re f(2) so out [unfolded live_filter] promotion_disjoint [OF q0 p act] promotion_queue_ok [OF q0 p]
      p [unfolded promotion_def prod.case m set e0] by blast
qed

text \<open>Four blocks of two tokens; prompts of three, nine and five tokens.\<close>

definition example_request :: "int \<Rightarrow> token list \<Rightarrow> request" where
  "example_request i toks = \<lparr>rq_id = i, rq_status = PENDING, rq_input_tokens = toks, rq_output_tokens = [],
     rq_prefill_offset = 0, rq_cached_tokens = 0, rq_image = False, rq_qwen_patches = 0, rq_vision_emb = False,
     rq_n_vision_tokens = 0, rq_vision_content_hash = 0, rq_recurrent_restore = None, rq_swa_restore = None,
     rq_cancel_reason = NoReason\<rparr>"

definition example_heap :: req_heap where
  "example_heap r = (if r = 0 then example_request 1 [1, 2, 3] else if r = 1 then example_request 2 [1, 2, 3, 4, 5, 6, 7, 8, 9]
     else example_request 3 [5, 6, 7, 8, 9])"

definition example_sched :: sched where
  "example_sched = fold add_request [2, 1, 0]
     (sched_new 8 example_heap (Some small_mgr) snap_store_new)"

definition example_hook :: "reuse_limit option" where
  "example_hook = Some (hybrid_prefix_reuse_limit True True False)"

definition example_kv1 :: kv_mgr where
  "example_kv1 = snd (allocate_blocks 1 2 small_mgr)"

definition example_kv2 :: kv_mgr where
  "example_kv2 = snd (allocate_blocks 3 3 example_kv1)"

lemma example_allocs:
  "allocate_blocks 1 2 small_mgr = (True, example_kv1)" "allocate_blocks 3 3 example_kv1 = (False, example_kv2)"
proof -
  have "fst (allocate_blocks 1 2 small_mgr)" "\<not> fst (allocate_blocks 3 3 example_kv1)" by code_simp+
  then show "allocate_blocks 1 2 small_mgr = (True, example_kv1)" "allocate_blocks 3 3 example_kv1 = (False, example_kv2)"
    by (simp_all add: example_kv1_def example_kv2_def prod_eq_iff)
qed

lemma example_can:
  "can_allocate 2 small_mgr" "can_allocate 3 example_kv1" "\<not> can_allocate 5 example_kv2"
  "\<not> prefix_caching_enabled small_mgr" "\<not> prefix_caching_enabled example_kv1"
  "kv_block_size small_mgr = 2" "kv_block_size example_kv1 = 2" "kv_block_size example_kv2 = 2"
  by code_simp+

lemma small_cache_blocks: "total_cache_blocks small_cache = 4"
  by (simp add: total_cache_blocks_def small_cache_def kv_cache_new_def example_alloc_def kv_bytes_def packed_4bit_def
      open_slots_def closed_pool_def Let_def)

lemma example_schedule:
  "\<exists>s'. schedule shortest_first example_hook small_cache example_sched = ([0], [], s') \<and> sc_pending s' = [2]"
proof -
  have o: "queue_order shortest_first example_sched = [0, 2, 1]"
    by (simp add: queue_order_def shortest_first_def example_sched_def add_request_def sched_new_def example_heap_def
        example_request_def)
  show ?thesis unfolding schedule_eq o
    by (simp add: live_reqs_def example_sched_def add_request_def sched_new_def try_admit_def Let_def
        reserve_blocks_def example_can small_cache_blocks example_allocs example_heap_def example_request_def context_len_def blocks_for_def
        put_request_def requeue_chunks_def mid_prefill_def)
qed

theorem schedule_conserves_witness:
  "\<exists>s'. schedule shortest_first example_hook small_cache example_sched = ([0], [], s') \<and>
     sc_pending s' = [2] \<and> sc_active s' = [0] \<and> rq_status (sc_heap s' 1) = CANCELLED"
proof -
  obtain s' where run: "schedule shortest_first example_hook small_cache example_sched = ([0], [], s')"
    and v: "sc_pending s' = [2]" using example_schedule by blast
  have hk: "hook_ok example_hook" unfolding example_hook_def by (rule hook_ok_hybrid)
  have ex: "sc_kv example_sched = Some small_mgr" "sc_pending example_sched = [2, 1, 0]" "sc_active example_sched = []"
    "sc_heap example_sched = example_heap"
    by (simp_all add: example_sched_def add_request_def sched_new_def)
  have "table_of i small_mgr = []" for i
    by (simp add: small_mgr_def kv_new_def table_of_def)
  then have q: "queue_ok (sc_pending example_sched) (sc_heap example_sched) small_mgr"
    by (auto simp: queue_ok_def ex example_heap_def example_request_def inj_on_def)
  have ac: "distinct (sc_active example_sched)" "set (sc_active example_sched) \<inter> set (sc_pending example_sched) = {}"
    by (simp_all add: ex)
  obtain started cancelled where st: "mset (sc_pending s') + mset started + mset cancelled = mset (sc_pending example_sched)"
    "sc_active s' = filter (\<lambda>r. \<not> done_request (sc_heap example_sched r)) (sc_active example_sched) @ started"
    "[0] = started @ filter (\<lambda>r. mid_prefill (sc_heap example_sched r)) (sc_active example_sched)"
    "\<forall>r \<in> set cancelled. refused small_cache (sc_heap example_sched r) (sc_heap s' r)"
    using schedule_conserves [OF hk sort_ok_shortest_first small_mgr_reach ex(1) q ac run] by blast
  note st = st [unfolded ex v]
  have "started = [0]" using st(3) by simp
  then have "mset cancelled = mset [1]" using st(1) by (simp add: add_mset_commute)
  then have "set cancelled = set [1]" by (rule mset_eq_setD)
  with st(4) have "refused small_cache (example_heap 1) (sc_heap s' 1)" by simp
  then have "rq_status (sc_heap s' 1) = CANCELLED" by (simp add: refused_def)
  with \<open>started = [0]\<close> st(2) v run show ?thesis by simp
qed

section \<open>Admission\<close>

lemma blocks_for_covers:
  assumes "0 < bs" "blocks_for (int n) (int bs) \<le> int len" "pos < n"
  shows "pos div bs < len"
proof -
  have "int pos div int bs < blocks_for (int n) (int bs)" using assms by (intro div_le_blocks_for) simp_all
  with assms(2) have "int (pos div bs) < int len" by (simp add: zdiv_int)
  then show ?thesis by simp
qed

text \<open>
  C6. An admitted request has a table for its whole prompt, blocks reused from the prefix cache
  followed by blocks no sequence uses, and every position its prefill will write lies in one of
  the latter; the only exception is the last token of a prompt whose blocks were all reused. The prefill
  keeps at least one token to forward, the manager stays reachable, and the tables of
  all other sequences are unchanged.
\<close>

theorem admission_safe:
  assumes "hook_ok limit" "kv_reach alloc c k" "sc_kv s = Some k" "q = sc_heap s r" "table_of (rq_id q) k = []"
    and "try_admit limit c r s = (Promoted, s')" "rq_prefill_offset q = 0" "rq_input_tokens q \<noteq> []"
  shows "\<exists>k' hits fresh. sc_kv s' = Some k' \<and> kv_reach alloc c k' \<and> table_of (rq_id q) k' = hits @ fresh \<and>
    unused (tables k) fresh \<and> (\<forall>i. i \<noteq> rq_id q \<longrightarrow> table_of i k' = table_of i k) \<and>
    0 \<le> rq_prefill_offset (sc_heap s' r) \<and> rq_prefill_offset (sc_heap s' r) < int (length (rq_input_tokens q)) \<and>
    (\<forall>pos. rq_prefill_offset (sc_heap s' r) \<le> int pos \<and> pos < length (rq_input_tokens q) \<longrightarrow>
       pos div kc_block_size c < length (hits @ fresh) \<and>
       ((hits @ fresh) ! (pos div kc_block_size c) \<in> set fresh \<or>
        Suc pos = length (rq_input_tokens q) \<and> length (rq_input_tokens q) = length hits * kc_block_size c))"
proof -
  have ah: "admission_hook limit" by unfold_locales (rule assms(1))
  obtain k' q' st' where s': "s' = admit_frame r k' q' st' s" "kv_reach alloc c k'"
    and o: "\<forall>i. i \<noteq> rq_id q \<longrightarrow> table_of i k' = table_of i k" "admitted k k' q q'"
    using admission_hook.admit_result [OF ah assms(2,3) assms(5) [unfolded assms(4)] assms(6)]
    unfolding admit_outcome_def assms(4) admission.case by metis
  let ?t = "rq_input_tokens q" and ?bs = "kc_block_size c"
  have bs: "kv_block_size k = int ?bs" "0 < ?bs" using kv_reach_inv(3,6) [OF assms(2)] by simp_all
  obtain hits fresh where h: "table_of (rq_id q) k' = hits @ fresh" "unused (tables k) fresh"
    "blocks_for (int (length ?t)) (int ?bs) \<le> int (length (hits @ fresh))"
    and off: "if hits = [] then bare q' = bare q
      else \<exists>off mr. hits = reuse_ids ?t mr (rq_vision_content_hash q) k \<and>
        bare q' = (bare q)\<lparr>rq_prefill_offset := off, rq_cached_tokens := off\<rparr> \<and> 0 \<le> off \<and> off < int (length ?t) \<and>
        (off = int (length hits) * int ?bs \<or> off = int (length ?t) - 1 \<and> int (length ?t) = int (length hits) * int ?bs)"
    using o(2) unfolding admitted_def bs(1) by (elim exE conjE) (rule that)
  let ?off = "rq_prefill_offset q'"
  have b: "rq_prefill_offset (bare x) = rq_prefill_offset x" for x by (simp add: bare_def)
  have io: "?off = int (length hits) * int ?bs \<or> ?off = int (length ?t) - 1 \<and> int (length ?t) = int (length hits) * int ?bs"
    "0 \<le> ?off" "?off < int (length ?t)"
    using off assms(7,8) b [of q'] b [of q] by (auto split: if_splits)
  have "(hits @ fresh) ! (pos div ?bs) \<in> set fresh \<or> Suc pos = length ?t \<and> length ?t = length hits * ?bs"
    if "?off \<le> int pos" "pos < length ?t" for pos
    using io(1)
  proof
    assume "?off = int (length hits) * int ?bs"
    then have "length hits * ?bs \<le> pos" using that(1) by (metis of_nat_le_iff of_nat_mult)
    then have "length hits \<le> pos div ?bs" using bs(2) by (simp add: less_eq_div_iff_mult_less_eq)
    with blocks_for_covers [OF bs(2) h(3) that(2)] show ?thesis by (auto simp: nth_append)
  next
    assume e: "?off = int (length ?t) - 1 \<and> int (length ?t) = int (length hits) * int ?bs"
    then have "length ?t = length hits * ?bs" by (metis of_nat_eq_iff of_nat_mult)
    moreover have "Suc pos = length ?t" using e that by linarith
    ultimately show ?thesis by simp
  qed
  with h o(1) s' io(2,3) blocks_for_covers [OF bs(2) h(3)] show ?thesis
    by (intro exI [of _ k'] exI [of _ hits] exI [of _ fresh]) (simp add: admit_frame_def)
qed

theorem admission_safe_witness:
  "\<exists>k' hits fresh s'. try_admit example_hook small_cache 0 example_sched = (Promoted, s') \<and> sc_kv s' = Some k' \<and>
     table_of 1 k' = hits @ fresh \<and> unused (tables small_mgr) fresh"
proof -
  have ex: "sc_kv example_sched = Some small_mgr" "sc_heap example_sched 0 = example_request 1 [1, 2, 3]"
    by (simp_all add: example_sched_def add_request_def sched_new_def example_heap_def)
  have hk: "hook_ok example_hook" unfolding example_hook_def by (rule hook_ok_hybrid)
  have t: "table_of (rq_id (example_request 1 [1, 2, 3])) small_mgr = []"
    by (simp add: small_mgr_def kv_new_def table_of_def)
  obtain s' where run: "try_admit example_hook small_cache 0 example_sched = (Promoted, s')"
    by (simp add: try_admit_def ex Let_def reserve_blocks_def example_can example_allocs context_len_def blocks_for_def
        example_request_def)
  have "rq_prefill_offset (example_request 1 [1, 2, 3]) = 0" "rq_input_tokens (example_request 1 [1, 2, 3]) \<noteq> []"
    by (simp_all add: example_request_def)
  from admission_safe [OF hk small_mgr_reach ex(1) ex(2) [symmetric] t run this] run show ?thesis
    by (auto simp: example_request_def)
qed

section \<open>An idle engine\<close>

lemma can_allocate_loop_idle: "seq_blocks k = [] \<Longrightarrow> can_allocate_loop qs x n k \<Longrightarrow> n \<le> x"
  by (induction qs) (auto simp: Let_def split: if_splits)

lemma can_allocate_idle:
  assumes "kv_inv k" "seq_blocks k = []"
  shows "can_allocate n k \<longleftrightarrow> n \<le> int (avail k)"
proof -
  have "reclaimable_cached_count k = int (card (sole_cached k))"
    using assms(1) sole_cached_idle(1) [OF assms] by (simp add: kv_inv_def cache_inv_def)
  then have "num_free_blocks k + reclaimable_cached_count k = int (avail k)"
    by (simp add: avail_def num_free_blocks_def free_count_def free_blocks_def)
  then show ?thesis using can_allocate_loop_idle [OF assms(2)] by (auto simp: can_allocate_def Let_def)
qed

lemma try_admit_idle:
  assumes re: "kv_reach alloc c k" and kv: "sc_kv s = Some k" and idle: "seq_blocks k = []"
    and n: "n = blocks_for (context_len (sc_heap s r)) (kv_block_size k)"
  shows "if n \<le> int (avail k) then fst (try_admit None c r s) = Promoted
    else try_admit None c r s =
      (if n \<le> int (kc_max_blocks c) then (Deferred, s)
       else (Rejected, put_request r ((sc_heap s r)\<lparr>rq_status := CANCELLED, rq_cancel_reason := KvCapacity\<rparr>) s))"
proof (cases "n \<le> int (avail k)")
  case False
  then have "\<not> can_allocate n k" using can_allocate_idle [OF kv_reach_inv(1) [OF re] idle] by simp
  with False show ?thesis by (auto simp: try_admit_def kv Let_def n [symmetric] total_cache_blocks_def)
next
  case True
  let ?q = "sc_heap s r"
  note inv = kv_reach_inv(1,6) [OF re]
  have t: "table_of (rq_id ?q) k = []" by (simp add: table_of_def idle)
  have "blocks_for (int (length (rq_input_tokens ?q))) (kv_block_size k) \<le> int (avail k)"
    using True context_blocks [OF inv(2), of ?q] by (simp add: n)
  from allocate_with_prefix_succeeds [OF inv(1) t this]
  have p: "\<not> fst (allocate_blocks_with_prefix (rq_id ?q) (rq_input_tokens ?q) (-1) (rq_vision_content_hash ?q) k) < 0"
    by (simp add: not_less)
  have a: "fst (allocate_blocks (rq_id ?q) n k)"
    using allocate_blocks_outcome [OF inv(1) prod.collapse [symmetric], of "rq_id ?q" n] True by simp
  have "can_allocate n k" using True can_allocate_idle [OF inv(1) idle] by simp
  then have "try_admit None c r s = reserve_blocks None r n k s" by (simp add: try_admit_def kv Let_def n)
  with p a have "fst (try_admit None c r s) = Promoted"
    by (auto simp: reserve_blocks_def Let_def case_prod_unfold)
  with True show ?thesis by simp
qed

text \<open>A step with one pending request and nothing active.\<close>

lemma schedule_single:
  assumes "sc_pending s = [r]" "sc_active s = []" "\<not> sc_pending_dirty s" "0 < sc_max_batch_size s"
    and t: "try_admit limit c r s = (b, s1)" and s1: "sc_active s1 = []"
  shows "schedule srt limit c s =
    (case b of
       Promoted \<Rightarrow> ([r], [], (put_request r ((sc_heap s1 r)\<lparr>rq_status := PREFILLING\<rparr>) (s1\<lparr>sc_active := [r]\<rparr>))\<lparr>sc_pending := []\<rparr>)
     | Deferred \<Rightarrow> ([], [], s1\<lparr>sc_pending := [r]\<rparr>) | Rejected \<Rightarrow> ([], [], s1\<lparr>sc_pending := []\<rparr>))"
proof -
  have e: "s\<lparr>sc_active := live_reqs s, sc_pending := queue_order srt s, sc_pending_dirty := False\<rparr> = s"
    using assms(1-3) by (cases s) (simp add: live_reqs_def queue_order_def)
  have o: "queue_order srt s = [r]" using assms(1,3) by (simp add: queue_order_def)
  have m: "\<not> sc_max_batch_size s \<le> int (length (sc_active s))" using assms(2,4) by simp
  show ?thesis unfolding schedule_eq e unfolding o promote.simps if_not_P [OF m] t
    by (cases b) (simp_all add: s1 requeue_chunks_def put_request_def)
qed

text \<open>
  C21. What happens to a request that is alone, when no sequence holds blocks (a dense model): it starts when
  its blocks and the pinned ones fit the cache together, and it is cancelled when its blocks alone
  do not fit. In between it neither starts nor is cancelled, and the step changes nothing: as long
  as the pins stay, every further step does the same, which is the endless loop the
  cancellation is meant to prevent.
\<close>

theorem idle_admission:
  assumes "kv_reach alloc c k" "sc_kv s = Some k" "seq_blocks k = []"
    and "sc_pending s = [r]" "sc_active s = []" "\<not> sc_pending_dirty s" "0 < sc_max_batch_size s"
    and "n = blocks_for (context_len (sc_heap s r)) (int (kc_block_size c))"
    and "pinned = card (set (cached_blocks_lru k) \<inter> pinned_blocks k)"
    and "schedule srt None c s = (prefill, decode, s')"
  shows "if n + int pinned \<le> int (kc_max_blocks c) then prefill = [r] \<and> sc_pending s' = [] \<and> sc_active s' = [r]
    else if n \<le> int (kc_max_blocks c) then prefill = [] \<and> s' = s
    else prefill = [] \<and> sc_pending s' = [] \<and> sc_active s' = [] \<and> rq_status (sc_heap s' r) = CANCELLED"
proof -
  have av: "n + int pinned \<le> int (kc_max_blocks c) \<longleftrightarrow> n \<le> int (avail k)"
    using avail_idle [OF assms(1,3)] assms(9) by linarith
  have bs: "n = blocks_for (context_len (sc_heap s r)) (kv_block_size k)"
    using assms(8) kv_reach_inv(3) [OF assms(1)] by simp
  note a = try_admit_idle [OF assms(1-3) bs]
  obtain b s1 where t: "try_admit None c r s = (b, s1)" by fastforce
  have ah: "admission_hook None" by unfold_locales (rule hook_ok_None)
  have "table_of (rq_id (sc_heap s r)) k = []" by (simp add: table_of_def assms(3))
  then obtain k' q' st' where "s1 = admit_frame r k' q' st' s"
    using admission_hook.admit_result [OF ah assms(1,2) _ t] by metis
  then have s1: "sc_active s1 = []" using assms(5) by (simp add: admit_frame_def)
  note run = assms(10) [unfolded schedule_single [OF assms(4-7) t s1]]
  show ?thesis
  proof (cases "n \<le> int (avail k)")
    case True
    with a t have "b = Promoted" by simp
    with run True av show ?thesis by (auto simp: put_request_def)
  next
    case False
    then have tt: "(b, s1) = (if n \<le> int (kc_max_blocks c) then (Deferred, s)
        else (Rejected, put_request r ((sc_heap s r)\<lparr>rq_status := CANCELLED, rq_cancel_reason := KvCapacity\<rparr>) s))"
      using a unfolding t by simp
    have "s\<lparr>sc_pending := [r]\<rparr> = s" using assms(4) by (cases s) simp
    with run tt False av assms(5) show ?thesis
      by (cases "n \<le> int (kc_max_blocks c)") (auto simp: put_request_def)
  qed
qed

text \<open>One of four blocks is pinned; the request needs all four.\<close>

definition pinned_mgr :: kv_mgr where
  "pinned_mgr = free_sequence 8 (the (pin_prefix 8 1 (register_block_hashes 8 [1, 2] 0 prefix_mgr)))"

definition stuck_sched :: sched where
  "stuck_sched = (sched_new 8 (\<lambda>r. example_request 1 [1, 2, 3, 4, 5, 6, 7, 8]) (Some pinned_mgr) snap_store_new)\<lparr>sc_pending := [0]\<rparr>"

lemma pinned_mgr_reach: "kv_reach example_alloc small_cache pinned_mgr"
proof -
  let ?s = "register_block_hashes 8 [1, 2] 0 prefix_mgr"
  have "pin_prefix 8 1 ?s \<noteq> None" by code_simp
  then have "pin_prefix 8 1 ?s = Some (the (pin_prefix 8 1 ?s))" by simp
  from kv_reach_step [OF kv_reach_step [OF prefix_mgr_reach kv_step.register] kv_step.pin [OF this]]
  show ?thesis unfolding pinned_mgr_def by (rule kv_reach_free)
qed

theorem idle_admission_witness:
  "\<exists>decode. schedule shortest_first None small_cache stuck_sched = ([], decode, stuck_sched) \<and> has_pending stuck_sched"
proof -
  let ?q = "example_request 1 [1, 2, 3, 4, 5, 6, 7, 8]"
  have s: "sc_kv stuck_sched = Some pinned_mgr" "sc_pending stuck_sched = [0]" "sc_active stuck_sched = []"
    "\<not> sc_pending_dirty stuck_sched" "0 < sc_max_batch_size stuck_sched" "sc_heap stuck_sched 0 = ?q"
    by (simp_all add: stuck_sched_def sched_new_def)
  have k: "seq_blocks pinned_mgr = []" "card (set (cached_blocks_lru pinned_mgr) \<inter> pinned_blocks pinned_mgr) = 1"
    by code_simp+
  have m: "int (kc_max_blocks small_cache) = 4" using small_cache_blocks by (simp add: total_cache_blocks_def)
  have "int (kc_block_size small_cache) = 2" using kv_reach_inv(3) [OF small_mgr_reach] example_can(6) by simp
  then have n: "4 = blocks_for (context_len (sc_heap stuck_sched 0)) (int (kc_block_size small_cache))"
    by (simp add: s context_len_def example_request_def blocks_for_def)
  obtain p d s' where run: "schedule shortest_first None small_cache stuck_sched = (p, d, s')" by (rule prod_cases3)
  from idle_admission [OF pinned_mgr_reach s(1) k(1) s(2-5) n k(2) [symmetric] run] run s(2) show ?thesis
    by (simp add: m has_pending_def)
qed

end
