(* ===== verification/Spec2Isabelle.thy ===== *)
theory Spec2Isabelle
  imports Fake_Backend Arena Scratch_Stack Memory_Plan Ngram_Draft KV_Persist_Props Scheduler_Props
begin

text \<open>
  Verification of the memory and admission core of quench, an inference engine for language models in C++
  and CUDA. Paths below are relative to \<^verbatim>\<open>src/src\<close>.

  \<^bold>\<open>The program.\<close> Device memory is acquired through a backend (\<^verbatim>\<open>memory/backend.cpp\<close>), which enforces a budget and
  a phase guard. Arenas, a scratch stack and a pool of reference-counted blocks carve it up (\<^verbatim>\<open>memory/arena.cpp\<close>,
  \<^verbatim>\<open>memory/scratch_stack.cpp\<close>, \<^verbatim>\<open>memory/block_pool.cpp\<close>). \<^verbatim>\<open>KVCache\<close> (\<^verbatim>\<open>memory/kv_cache.cu\<close>) lays out the keys and values of
  every layer in such blocks. \<^verbatim>\<open>KVCacheManager\<close> (\<^verbatim>\<open>memory/kv_cache_manager.cpp\<close>) gives each sequence a table of blocks, keeps
  freed blocks in a content-addressed prefix cache, pins prefixes, evicts, and runs a second group of blocks for layers
  with a sliding window. \<^verbatim>\<open>RecurrentSnapshotStore\<close> (\<^verbatim>\<open>memory/recurrent_snapshot_store.cpp\<close>) keeps device snapshots that
  requests hold. The planner (\<^verbatim>\<open>memory/plan.cpp\<close>) sizes the pools. The scheduler (\<^verbatim>\<open>runtime/scheduler.cpp\<close>) admits requests:
  it asks a hook of the engine how much of a prefix may be reused and allocates the blocks from the manager. The
  drafter (\<^verbatim>\<open>runtime/ngram_draft.cpp\<close>) proposes tokens from the history.

  \<^bold>\<open>How it is modelled.\<close> Classes are records and methods are functions on them; fallible calls return an option, a sum or
  the code's own result value. \<^verbatim>\<open>size_t\<close> is a 64-bit word where wrap-around can matter (backend, arenas, addresses
  of the residual rings, planner, hashes, file header); token counts and block indices of type \<^verbatim>\<open>int\<close> are unbounded
  integers. A \<^verbatim>\<open>BlockRef\<close> in a table is the block id, and the end of its life is written out as a call. Device memory is a
  function from addresses to bytes. The answers of the CUDA allocator, of copies and of the file system are
  arguments, with what is assumed of them as hypotheses (allocations do not overlap).

  \<^bold>\<open>The theories.\<close>
  \<^item> \<open>Quench_Prelude\<close>: machine types, alignment, association lists.
  \<^item> \<open>Backend\<close>, \<open>Fake_Backend\<close> (\<^verbatim>\<open>memory/backend.cpp\<close>, \<^verbatim>\<open>memory/fake_backend.cpp\<close>): acquisition, release, phases, the
    journal and poisoning. A single thread never exceeds the budget; two threads can, since the lock is
    released between check and accounting.
  \<^item> \<open>Bump\<close>, \<open>Arena\<close>, \<open>Scratch_Stack\<close> (\<^verbatim>\<open>memory/arena.cpp\<close>, \<^verbatim>\<open>memory/scratch_stack.cpp\<close>): the locale \<open>bump\<close> is the contract of
    a bump allocator; both allocators interpret it. Takes are disjoint and aligned, scopes give everything back.
  \<^item> \<open>Block_Pool\<close> (\<^verbatim>\<open>memory/block_pool.cpp\<close>): the locale \<open>ref_pool\<close> is the contract of reference counting; references are
    conserved and spans disjoint.
  \<^item> \<open>QTypes\<close> (\<^verbatim>\<open>core/qtype.cpp\<close>), \<open>Device_Mem\<close>, \<open>KV_Cache\<close>, \<open>KV_Layout\<close>, \<open>KV_Copy\<close> (\<^verbatim>\<open>memory/kv_cache.cu\<close>): sizes, both
    constructors, addresses of every block and the batched copy kernel at the level of bytes. The locale \<open>slot_layout\<close> is
    interpreted for the data pool, the scale pool and the snapshot slab; blocks are disjoint and inside the allocation.
  \<^item> \<open>KV_State\<close>, \<open>Residual\<close>, \<open>KV_Alloc\<close>, \<open>KV_Pin\<close>, \<open>KV_Prefix\<close>, \<open>KV_Swa\<close>, \<open>KV_Snapshot\<close>, \<open>KV_Persist\<close>
    (\<^verbatim>\<open>memory/kv_cache_manager.cpp\<close>): the state and the operations of the manager: tables and the LRU order, residual rings,
    pinning, rollback and middle eviction, the hash chain and prefix reuse, window tables, window snapshots, and the file
    of the persistent prefix cache. \<open>KV_Own\<close>, \<open>KV_Alloc_Inv\<close>, \<open>KV_Truncate\<close>, \<open>KV_Prefix_Inv\<close>, \<open>KV_Register\<close>,
    \<open>KV_Prefix_Avail\<close>, \<open>KV_Snapshot_Inv\<close>, \<open>KV_Snapshot_Copy\<close>, \<open>KV_Window\<close> and \<open>KV_Persist_Data\<close> have one lemma per
    operation: it keeps the invariant \<open>kv_inv\<close>, and what it does to the tables on success and failure.
  \<^item> \<open>KV_Reach\<close>, \<open>KV_Refine\<close>: the step relation \<open>kv_step\<close> with one rule per operation, and the abstract tables it refines.
  \<^item> \<open>KV_Props\<close>, \<open>KV_Window_Props\<close>, \<open>KV_Persist_Props\<close>: the properties of every reachable manager. Reference counts are exact,
    allocation is all or nothing, reuse returns exactly the longest registered run, nothing leaks, no operation
    touches the attended window, packing and restoring a window and saving and loading the cache are round trips.
  \<^item> \<open>Snapshot_Store\<close> (\<^verbatim>\<open>memory/recurrent_snapshot_store.cpp\<close>): all operations with the references of the requests; a
    snapshot that is held is never recycled or overwritten.
  \<^item> \<open>Memory_Plan\<close> (\<^verbatim>\<open>memory/plan.cpp\<close>, \<^verbatim>\<open>runtime/plan_shadow.cpp\<close>): the planner; on inputs that do not wrap it accepts exactly
    what fits and makes the pool as large as possible.
  \<^item> \<open>Scheduler\<close>, \<open>Scheduler_Props\<close> (\<^verbatim>\<open>runtime/scheduler.cpp\<close>, \<^verbatim>\<open>runtime/request.h\<close>, the two admission hooks of
    \<^verbatim>\<open>runtime/engine_sampling_stop.cpp\<close>): the schedule step over a manager and a store. The locale \<open>scheduling\<close> states what the
    scheduler relies on of the hook and of the sort, and is interpreted without a hook and with each of the engine's
    two. A step loses and duplicates no request, an admitted prefill writes only blocks of its own, and the fate of a
    request on an idle engine is determined, including the case in which pinned blocks keep it waiting for ever.
  \<^item> \<open>Ngram_Draft\<close> (\<^verbatim>\<open>runtime/ngram_draft.cpp\<close>): the draft follows the most recent occurrence of the longest recurring suffix.

  \<^bold>\<open>Bounds and fuel.\<close> Loops of the code are recursion on the data or on the remaining count, which the code itself
  decreases. The search for a reclaimable block and the extension of a match are general recursions with a
  termination proof. Fuel occurs once, in the loop that recycles pins under a budget: it has as many rounds as the
  queue of pinned sequences is long, running out is the value \<open>None\<close>, and a property shows that this never happens in a
  reachable manager. The small caches, requests and plans of the witnesses are examples; the theorems are for all sizes.

  \<^bold>\<open>Not modelled.\<close> The kernels and the executor (\<^verbatim>\<open>compute\<close>, \<^verbatim>\<open>exec\<close>, \<^verbatim>\<open>quant\<close>), whose results are floating-point numbers; the step
  loop of the engine (\<^verbatim>\<open>runtime/engine*.cpp\<close>) apart from the admission hooks, which depends on those results and on CUDA
  streams and graphs; model files, tokenizer and templates (\<^verbatim>\<open>model\<close>), the C interface (\<^verbatim>\<open>api\<close>), adapters and vision
  (\<^verbatim>\<open>lora\<close>, \<^verbatim>\<open>vision\<close>), start-up and configuration, which read files and live device memory; the other drafters, the stop logic
  and the constraints of \<^verbatim>\<open>runtime\<close>; wrappers of CUDA and of the file system in \<^verbatim>\<open>memory\<close>; the text of reports and log
  messages. Mutexes are modelled where a race matters (the backend); elsewhere an operation is one step: the manager and
  the scheduler have no lock, and the deleter of a snapshot, which may run on another thread, holds the lock of the
  pool it changes.
\<close>

end
